(* ===== verification/Zlib_Prelude.thy ===== *)
theory Zlib_Prelude
  imports Main "HOL-Library.Word"
begin

text \<open>
  Shared vocabulary of the development: names for the machine types of the C code, the
  theorem collections the component theories add to, little-endian loads and stores on byte
  lists, and the generic facts on words, bit strings and lists that several components use.

  A pointer into a buffer is modelled by the byte list that starts at it, or by a list and an
  index. The target is the 64-bit little-endian configuration of the code
  (\<^verbatim>\<open>OPTIMAL_CMP == 64\<close> in zbuild.h).
\<close>

unbundle bit_operations_syntax

type_synonym u8 = "8 word"
type_synonym u16 = "16 word"
type_synonym u32 = "32 word"
type_synonym u64 = "64 word"
type_synonym bytes = "u8 list"

named_theorems byte_simps \<open>little-endian loads and stores\<close>
named_theorems checksum_simps \<open>unfolding of unrolled checksum macros\<close>
named_theorems stream_simps \<open>bit stream abstraction of writers and readers\<close>

section \<open>Word and natural number arithmetic\<close>

lemma unat_lt_256 [simp]: "unat (b :: u8) < 256"
  using unsigned_less [of b, where ?'a = nat] by simp

lemma unat_le_255 [simp]: "unat (b :: u8) \<le> 255"
  using unat_lt_256 [of b] by linarith

lemma nat_and_split:
  fixes x y m n :: nat
  assumes "x < 2 ^ k" and "m < 2 ^ k"
  shows "(x + 2 ^ k * y) AND (m + 2 ^ k * n) = (x AND m) + 2 ^ k * (y AND n)"
proof -
  let ?z = "(x + 2 ^ k * y) AND (m + 2 ^ k * n)"
  have "take_bit k ?z = take_bit k (x + 2 ^ k * y) AND take_bit k (m + 2 ^ k * n)"
    by (rule take_bit_and)
  also have "\<dots> = x AND m"
    using assms by (simp add: take_bit_eq_mod)
  finally have "take_bit k ?z = x AND m" .
  moreover have "drop_bit k ?z = drop_bit k (x + 2 ^ k * y) AND drop_bit k (m + 2 ^ k * n)"
    by (rule drop_bit_and)
  moreover have "\<dots> = y AND n"
    using assms by (simp add: drop_bit_eq_div)
  moreover have "?z = take_bit k ?z + 2 ^ k * drop_bit k ?z"
    by (simp add: take_bit_eq_mod drop_bit_eq_div)
  ultimately show ?thesis by simp
qed

lemma nat_and_mask: "(x::nat) < 2 ^ k \<Longrightarrow> x AND (2 ^ k - 1) = x"
  by (metis mask_eq_exp_minus_1 take_bit_eq_mask take_bit_nat_eq_self)

lemma nat_and_1: "(n::nat) AND 1 = n mod 2"
  by (simp add: and_one_eq mod_2_eq_odd)

lemma nat_and_2: "(n::nat) AND 2 = 2 * (n div 2 mod 2)"
proof -
  have "n AND 2 = (n mod 2 + 2 ^ 1 * (n div 2)) AND (0 + 2 ^ 1 * 1)"
    by (simp flip: numeral_2_eq_2)
  also have "\<dots> = 2 * (n div 2 AND 1)" by (subst nat_and_split) simp_all
  finally show ?thesis by (simp add: nat_and_1)
qed

lemma nat_and_4: "(n::nat) AND 4 = 4 * (n div 4 mod 2)"
proof -
  have "n AND 4 = (n mod 4 + 2 ^ 2 * (n div 4)) AND (0 + 2 ^ 2 * 1)" by simp
  also have "\<dots> = 4 * (n div 4 AND 1)" by (subst nat_and_split) simp_all
  finally show ?thesis by (simp add: nat_and_1)
qed

lemma mod_8_bits: "n mod 8 = 4 * (n div 4 mod 2) + (2 * (n div 2 mod 2) + n mod 2)" for n :: nat
  using mod_mult2_eq [of n 2 4] mod_mult2_eq [of "n div 2" 2 2]
  by (simp add: div_mult2_eq [symmetric])

lemma nat_and_le: "(x::nat) AND y \<le> x"
proof -
  have "int (x AND y) \<le> int x" by (simp add: of_nat_and_eq AND_upper1)
  then show ?thesis by simp
qed

lemma unat_drop_bit_div: "unat (drop_bit k (w :: 'a::len word)) = unat w div 2 ^ k"
  by (subst unat_drop_bit_eq) (rule drop_bit_eq_div)

lemma unat_take_bit_mod: "unat (take_bit k (w :: 'a::len word)) = unat w mod 2 ^ k"
  by (subst unsigned_take_bit_eq) (rule take_bit_eq_mod)

lemma and_1_iff: "w AND 1 = 0 \<longleftrightarrow> \<not> bit w 0" for w :: "'a::len word"
  using and_exp_eq_0_iff_not_bit [of w 0] by simp

lemma xor_eq_0_iff: "a XOR b = 0 \<longleftrightarrow> a = b" for a b :: "'a::len word"
  by (auto simp: bit_eq_iff bit_xor_iff)

text \<open>A field inserted above the \<open>k\<close> low bits.\<close>

lemma or_push_bit_add:
  assumes "take_bit k a = (a :: 'a::len word)"
  shows "a OR push_bit k b = a + push_bit k b"
proof -
  have "\<not> bit a n \<or> \<not> bit (push_bit k b) n" for n
    using assms by (metis bit_push_bit_iff bit_take_bit_iff linorder_not_less)
  then show ?thesis by (simp add: disjunctive_add)
qed

lemma take_bit_word_self: "unat (a :: 'a::len word) < 2 ^ k \<Longrightarrow> take_bit k a = a"
  by (intro word_unat_eq_iff [THEN iffD2]) (simp add: unsigned_take_bit_eq take_bit_nat_eq_self)

lemma unat_or_push_bit:
  fixes a b :: "'a::len word"
  assumes a: "unat a < 2 ^ k" and b: "unat b < 2 ^ n" and "k + n \<le> LENGTH('a)"
  shows "unat (a OR push_bit k b) = unat a + 2 ^ k * unat b"
proof -
  have "Suc (unat b) \<le> 2 ^ n" using b by simp
  then have "2 ^ k * Suc (unat b) \<le> 2 ^ (k + n)" unfolding power_add by (rule mult_le_mono2)
  also have "\<dots> \<le> 2 ^ LENGTH('a)" using assms(3) by (intro power_increasing) simp_all
  finally have lt: "unat a + 2 ^ k * unat b < 2 ^ LENGTH('a)" using a by simp
  have "a OR push_bit k b = of_nat (unat a + 2 ^ k * unat b)"
    unfolding or_push_bit_add [OF take_bit_word_self [OF a]]
    by (simp add: push_bit_eq_mult mult.commute)
  with lt show ?thesis by (simp add: unat_of_nat del: of_nat_add of_nat_mult)
qed

lemma byte_pair_less: "unat (a :: u8) + 256 * unat (b :: u8) < 2 ^ 16"
proof -
  have "unat a \<le> 255" "unat b \<le> 255" by simp_all
  then have "unat a + 256 * unat b \<le> 255 + 256 * 255" by (intro add_mono mult_le_mono2)
  then show ?thesis by simp
qed

lemma those_map_Some: "those (map Some xs) = Some xs"
  by (induction xs) simp_all

lemma take_8: "8 \<le> length p \<Longrightarrow> take 8 p = [p!0, p!1, p!2, p!3, p!4, p!5, p!6, p!7]"
  by (intro nth_equalityI) (auto simp: less_Suc_eq numeral_nat)

section \<open>Alignment macros (zbuild.h)\<close>

definition ALIGN_DIFF :: "nat \<Rightarrow> nat \<Rightarrow> nat" where
  "ALIGN_DIFF addr align = (align - (addr AND (align - 1))) AND (align - 1)"

definition ALIGN_DOWN :: "nat \<Rightarrow> nat \<Rightarrow> nat" where
  "ALIGN_DOWN v align = v - (v AND (align - 1))"

lemma nat_and_7: "(n::nat) AND 7 = n mod 8"
  using take_bit_eq_mask [of 3 n] by (simp add: take_bit_eq_mod mask_eq_exp_minus_1)

lemma ALIGN_DIFF_8: "ALIGN_DIFF addr 8 = (8 - addr mod 8) mod 8"
  by (simp add: ALIGN_DIFF_def nat_and_7)

lemma ALIGN_DOWN_8: "ALIGN_DOWN v 8 = v div 8 * 8"
  by (simp add: ALIGN_DOWN_def nat_and_7 minus_mod_eq_div_mult)

section \<open>Little-endian loads and stores (zmemory.h, zendian.h)\<close>

primrec le_nat :: "bytes \<Rightarrow> nat" where
  "le_nat [] = 0"
| "le_nat (b # bs) = unat b + 256 * le_nat bs"

lemma le_nat_less: "le_nat bs < 256 ^ length bs"
proof (induction bs)
  case (Cons b bs)
  have "unat b + 256 * le_nat bs < 256 + 256 * le_nat bs" by simp
  also have "\<dots> = 256 * Suc (le_nat bs)" by simp
  also have "\<dots> \<le> 256 * 256 ^ length bs" using Cons by (intro mult_le_mono) simp_all
  finally show ?case by simp
qed simp

definition zng_memread_2 :: "bytes \<Rightarrow> u16" where
  "zng_memread_2 ptr = of_nat (le_nat (take 2 ptr))"

definition zng_memread_4 :: "bytes \<Rightarrow> u32" where
  "zng_memread_4 ptr = of_nat (le_nat (take 4 ptr))"

definition zng_memread_8 :: "bytes \<Rightarrow> u64" where
  "zng_memread_8 ptr = of_nat (le_nat (take 8 ptr))"

lemma unat_memread_8: "unat (zng_memread_8 p) = le_nat (take 8 p)"
proof -
  have "le_nat (take 8 p) < 256 ^ length (take 8 p)" by (rule le_nat_less)
  also have "\<dots> \<le> 256 ^ 8" by (rule power_increasing) simp_all
  finally show ?thesis by (simp add: zng_memread_8_def unat_of_nat)
qed

text \<open>The bytes of a word, least significant first.\<close>

definition le_bytes :: "nat \<Rightarrow> 'a::len word \<Rightarrow> bytes" where
  "le_bytes n w = map (\<lambda>k. ucast (drop_bit (8 * k) w)) [0..<n]"

lemma length_le_bytes [simp]: "length (le_bytes n w) = n"
  by (simp add: le_bytes_def)

lemma le_bytes_0 [simp]: "le_bytes 0 w = []"
  by (simp add: le_bytes_def)

lemma le_bytes_Suc: "le_bytes (Suc n) w = ucast w # le_bytes n (drop_bit 8 w)"
proof -
  have "[0..<Suc n] = 0 # map Suc [0..<n]" by (simp add: upt_conv_Cons map_Suc_upt del: upt_Suc)
  then show ?thesis by (simp add: le_bytes_def drop_bit_drop_bit add.commute del: upt_Suc)
qed

lemma le_nat_le_bytes: "le_nat (le_bytes n w) = unat w mod 2 ^ (8 * n)"
proof (induction n arbitrary: w)
  case (Suc n)
  have "unat (ucast w :: u8) = unat w mod 256"
    by (simp add: unsigned_ucast_eq take_bit_eq_mod)
  moreover have "unat w mod (256 * 2 ^ (8 * n)) = 256 * (unat w div 256 mod 2 ^ (8 * n)) + unat w mod 256"
    by (rule mod_mult2_eq)
  ultimately show ?case
    by (simp add: le_bytes_Suc Suc.IH unat_drop_bit_div power_add)
qed simp

lemma memread_le_bytes_8: "zng_memread_8 (le_bytes 8 w) = (w :: u64)"
proof -
  have "unat w < 2 ^ 64" using unsigned_less [of w, where ?'a = nat] by simp
  then show ?thesis
    by (intro word_unat_eq_iff [THEN iffD2])
       (simp add: unat_memread_8 le_nat_le_bytes)
qed

lemma bit_le_nat: "bit (le_nat p) i \<longleftrightarrow> i < 8 * length p \<and> bit (p ! (i div 8)) (i mod 8)"
proof (induction p arbitrary: i)
  case (Cons b p)
  have "unat b + 256 * le_nat p = unat b OR push_bit 8 (le_nat p)"
  proof -
    have "\<not> bit (unat b) n \<or> \<not> bit (push_bit 8 (le_nat p)) n" for n
      by (auto simp: bit_simps dest: bit_imp_le_length)
    then show ?thesis by (simp add: disjunctive_add [symmetric] push_bit_eq_mult)
  qed
  then have "bit (le_nat (b # p)) i \<longleftrightarrow> bit b i \<or> 8 \<le> i \<and> bit (le_nat p) (i - 8)"
    by (simp add: bit_simps)
  also have "\<dots> \<longleftrightarrow> i < 8 * length (b # p) \<and> bit ((b # p) ! (i div 8)) (i mod 8)"
  proof (cases "i < 8")
    case False
    then have "\<not> bit b i" "i div 8 = Suc ((i - 8) div 8)" "i mod 8 = (i - 8) mod 8"
      by (auto dest: bit_imp_le_length simp: le_div_geq le_mod_geq)
    with False show ?thesis by (auto simp: Cons.IH)
  qed simp
  finally show ?case .
qed simp

lemma bit_memread_4: "4 \<le> length p \<Longrightarrow> bit (zng_memread_4 p) i \<longleftrightarrow> i < 32 \<and> bit (p ! (i div 8)) (i mod 8)"
  by (auto simp: zng_memread_4_def bit_of_nat_iff bit_le_nat)

lemma bit_memread_8: "8 \<le> length p \<Longrightarrow> bit (zng_memread_8 p) i \<longleftrightarrow> i < 64 \<and> bit (p ! (i div 8)) (i mod 8)"
  by (auto simp: zng_memread_8_def bit_of_nat_iff bit_le_nat)

end
