(* ===== verification/Checksum.thy ===== *)
theory Checksum
  imports Zlib_Prelude
begin

text \<open>
  The contract that deflate, inflate and the gz layer rely on when they keep a running
  checksum of a stream: a checksum may be fed the stream in pieces, and two checksums of
  adjacent pieces may be combined. Adler32 and Crc32 interpret both locales on the model of
  the code.
\<close>

locale running_checksum =
  fixes update :: "u32 \<Rightarrow> bytes \<Rightarrow> u32"
    and initial :: u32
  assumes update_append: "update (update c xs) ys = update c (xs @ ys)"
begin

lemma update_pieces:
  "pieces \<noteq> [] \<Longrightarrow> fold (\<lambda>xs c. update c xs) pieces c = update c (concat pieces)"
proof (induction pieces arbitrary: c)
  case (Cons xs pieces)
  then show ?case by (cases "pieces = []") (simp_all add: update_append)
qed simp

lemma update_split: "update (update c (take n xs)) (drop n xs) = update c xs"
  by (simp add: update_append)

end

locale combinable_checksum = running_checksum +
  fixes combine :: "u32 \<Rightarrow> u32 \<Rightarrow> int \<Rightarrow> u32"
  assumes combine_update:
    "combine (update c xs) (update initial ys) (int (length ys)) = update c (xs @ ys)"
begin

lemma combine_pieces:
  "fold (\<lambda>ys c. combine c (update initial ys) (int (length ys))) pieces (update c xs)
     = update c (xs @ concat pieces)"
  by (induction pieces arbitrary: xs) (simp_all add: combine_update)

lemma combine_assoc:
  "combine (combine (update c xs) (update initial ys) (int (length ys)))
      (update initial zs) (int (length zs)) =
   combine (update c xs) (combine (update initial ys) (update initial zs) (int (length zs)))
      (int (length (ys @ zs)))"
  by (simp only: combine_update append_assoc)

end

end
