(* ===== verification/Adler32.thy ===== *)
theory Adler32
  imports Checksum
begin

text \<open>
  The Adler-32 checksum: adler32.c, adler32_p.h and arch/generic/adler32_c.c. The running
  sums are 32-bit words that wrap; \<open>adler32_c\<close> defers the reduction modulo 65521 over
  blocks of at most \<open>NMAX\<close> bytes and sums eight bytes at a time in 16-bit lanes of a
  64-bit word. The lemmas show that the lane arithmetic equals the byte loop word for word,
  that no sum overflows before it is reduced, and hence that the whole routine computes the
  checksum of RFC 1950 for every alignment of the buffer. \<open>adler32_combine\<close> is shown to
  compute the checksum of a concatenation.
\<close>

section \<open>Constants and macros (adler32_p.h)\<close>

definition BASE :: nat where "BASE = 65521"
definition NMAX :: nat where "NMAX = 5552"
definition NMAX_ALIGNED8 :: nat where "NMAX_ALIGNED8 = NMAX div 8 * 8"
definition ADLER32_SWAR_MAX_BYTES :: nat where "ADLER32_SWAR_MAX_BYTES = 23 * 8"
definition ADLER32_SWAR_EVEN_MASK :: u64 where "ADLER32_SWAR_EVEN_MASK = 0x00FF00FF00FF00FF"
definition ADLER32_SWAR_HSUM :: u64 where "ADLER32_SWAR_HSUM = 0x1000100010001"
definition ADLER32_INITIAL_VALUE :: u32 where "ADLER32_INITIAL_VALUE = 1"

text \<open>The pair is (\<^verbatim>\<open>sum1\<close>, \<^verbatim>\<open>sum2\<close>); \<^verbatim>\<open>sum1\<close> lives in the variable \<^verbatim>\<open>adler\<close>.\<close>

type_synonym sums = "u32 \<times> u32"

definition ADLER_DO1 :: "sums \<Rightarrow> bytes \<Rightarrow> nat \<Rightarrow> sums" where
  "ADLER_DO1 s buf i = (case s of (sum1, sum2) \<Rightarrow>
     let sum1' = sum1 + ucast (buf ! i) in (sum1', sum2 + sum1'))"

definition ADLER_DO2 :: "sums \<Rightarrow> bytes \<Rightarrow> nat \<Rightarrow> sums" where
  "ADLER_DO2 s buf i = ADLER_DO1 (ADLER_DO1 s buf i) buf (i + 1)"

definition ADLER_DO4 :: "sums \<Rightarrow> bytes \<Rightarrow> nat \<Rightarrow> sums" where
  "ADLER_DO4 s buf i = ADLER_DO2 (ADLER_DO2 s buf i) buf (i + 2)"

section \<open>Scalar loops\<close>

text \<open>
  \<^verbatim>\<open>while (len >= 4)\<close> of adler32_copy_align and adler32_copy_tail. The result holds the
  sums, the bytes written to \<open>dst\<close> so far, the advanced \<open>buf\<close> and the remaining \<open>len\<close>.
\<close>

function adler_do4_loop :: "bool \<Rightarrow> sums \<Rightarrow> bytes \<Rightarrow> bytes \<Rightarrow> nat \<Rightarrow> sums \<times> bytes \<times> bytes \<times> nat" where
  "adler_do4_loop COPY s dst buf len =
     (if len \<ge> 4 then
        adler_do4_loop COPY (ADLER_DO4 s buf 0) (if COPY then dst @ take 4 buf else dst)
          (drop 4 buf) (len - 4)
      else (s, dst, buf, len))"
  by pat_completeness auto
termination by (relation "measure (\<lambda>(_, _, _, _, len). len)") auto

definition adler32_copy_align :: "sums \<Rightarrow> bytes \<Rightarrow> bytes \<Rightarrow> nat \<Rightarrow> bool \<Rightarrow> sums \<times> bytes" where
  "adler32_copy_align s dst buf len COPY =
    (let (s, dst, buf) = (if len AND 1 \<noteq> 0
           then (ADLER_DO1 s buf 0, (if COPY then dst @ take 1 buf else dst), drop 1 buf)
           else (s, dst, buf));
         (s, dst, buf) = (if len AND 2 \<noteq> 0
           then (ADLER_DO2 s buf 0, (if COPY then dst @ take 2 buf else dst), drop 2 buf)
           else (s, dst, buf));
         (s, dst, _, _) = adler_do4_loop COPY s dst buf len
     in (s, dst))"

section \<open>Eight bytes at a time: adler32_swar\<close>

text \<open>The accumulators (\<open>sum_even\<close>, \<open>sum_odd\<close>, \<open>prefix_even\<close>, \<open>prefix_odd\<close>).\<close>

type_synonym swar = "u64 \<times> u64 \<times> u64 \<times> u64"

definition swar_step :: "swar \<Rightarrow> u64 \<Rightarrow> swar" where
  "swar_step acc v = (case acc of (sum_even, sum_odd, prefix_even, prefix_odd) \<Rightarrow>
     (sum_even + (v AND ADLER32_SWAR_EVEN_MASK),
      sum_odd + (drop_bit 8 v AND ADLER32_SWAR_EVEN_MASK),
      prefix_even + sum_even, prefix_odd + sum_odd))"

text \<open>The \<^verbatim>\<open>while (len >= 16)\<close> loop and the remaining eight bytes.\<close>

function swar_loop :: "bool \<Rightarrow> swar \<Rightarrow> bytes \<Rightarrow> bytes \<Rightarrow> nat \<Rightarrow> swar \<times> bytes" where
  "swar_loop COPY acc dst src len =
     (if len \<ge> 16 then
        let v0 = zng_memread_8 src; v1 = zng_memread_8 (drop 8 src)
        in swar_loop COPY (swar_step (swar_step acc v0) v1)
             (if COPY then dst @ take 16 src else dst) (drop 16 src) (len - 16)
      else if len \<ge> 8 then
        (swar_step acc (zng_memread_8 src), if COPY then dst @ take 8 src else dst)
      else (acc, dst))"
  by pat_completeness auto
termination by (relation "measure (\<lambda>(_, _, _, _, len). len)") auto

definition adler32_swar :: "sums \<Rightarrow> bytes \<Rightarrow> bytes \<Rightarrow> nat \<Rightarrow> bool \<Rightarrow> sums \<times> bytes" where
  "adler32_swar s dst buf len COPY = (case s of (adler, sum2) \<Rightarrow>
    let sum2 = sum2 + adler * of_nat len;
        ((sum_even, sum_odd, prefix_even, prefix_odd), dst) =
          swar_loop COPY (0, 0, 0, 0) dst buf len;
        adler = adler + ucast (drop_bit 48 ((sum_even + sum_odd) * ADLER32_SWAR_HSUM));
        pe_lo = prefix_even AND 0xFFFF0000FFFF;
        pe_hi = drop_bit 16 prefix_even AND 0xFFFF0000FFFF;
        po_lo = prefix_odd AND 0xFFFF0000FFFF;
        po_hi = drop_bit 16 prefix_odd AND 0xFFFF0000FFFF;
        sum2 = sum2 + ucast (drop_bit 32 ((pe_lo + po_lo + pe_hi + po_hi) * 0x800000008));
        sum2 = sum2 + (2 * ucast (drop_bit 48 (sum_even * 0x4000300020001))
                       + ucast (drop_bit 48 (sum_odd * ADLER32_SWAR_HSUM))
                       + 2 * ucast (drop_bit 48 (sum_odd * 0x3000200010000)))
    in ((adler, sum2), dst))"

section \<open>The tail and the whole routine\<close>

text \<open>
  \<^verbatim>\<open>while (len >= 8 && ((uintptr_t)buf & 7) == 0)\<close>; \<open>addr\<close> is the address in \<open>buf\<close>.
\<close>

function tail_swar_loop ::
    "bool \<Rightarrow> sums \<Rightarrow> bytes \<Rightarrow> nat \<Rightarrow> bytes \<Rightarrow> nat \<Rightarrow> sums \<times> bytes \<times> bytes \<times> nat" where
  "tail_swar_loop COPY s dst addr buf len =
     (if len \<ge> 8 \<and> addr AND 7 = 0 then
        let chunk = min (ALIGN_DOWN len 8) ADLER32_SWAR_MAX_BYTES;
            (s, dst) = adler32_swar s dst buf chunk COPY
        in tail_swar_loop COPY s dst (addr + chunk) (drop chunk buf) (len - chunk)
      else (s, dst, buf, len))"
  by pat_completeness auto
termination
  by (relation "measure (\<lambda>(_, _, _, _, _, len). len)")
     (auto simp: ALIGN_DOWN_8 ADLER32_SWAR_MAX_BYTES_def)

definition adler32_copy_tail ::
    "sums \<Rightarrow> bytes \<Rightarrow> nat \<Rightarrow> bytes \<Rightarrow> nat \<Rightarrow> bool \<Rightarrow> bool \<Rightarrow> u32 \<times> bytes" where
  "adler32_copy_tail s dst addr buf len REBASE COPY =
    (let (s, dst) =
       (if len \<noteq> 0 then
          let (s, dst, buf, len) = tail_swar_loop COPY s dst addr buf len;
              (s, dst, buf, len) = adler_do4_loop COPY s dst buf len;
              (s, dst, buf) = (if len AND 2 \<noteq> 0
                then (ADLER_DO2 s buf 0, (if COPY then dst @ take 2 buf else dst), drop 2 buf)
                else (s, dst, buf));
              (s, dst) = (if len AND 1 \<noteq> 0
                then (ADLER_DO1 s buf 0, (if COPY then dst @ take 1 buf else dst))
                else (s, dst))
          in (s, dst)
        else (s, dst));
        (adler, sum2) = (if REBASE then (fst s mod of_nat BASE, snd s mod of_nat BASE) else s)
     in (adler OR push_bit 16 sum2, dst))"

text \<open>The inner \<^verbatim>\<open>do ... while (n >= 8)\<close> of a block; \<open>n\<close> is at least 8 on entry.\<close>

function block_swar_loop :: "sums \<Rightarrow> bytes \<Rightarrow> nat \<Rightarrow> sums \<times> bytes" where
  "block_swar_loop s buf n =
     (let chunk = min (ALIGN_DOWN n 8) ADLER32_SWAR_MAX_BYTES;
          s' = fst (adler32_swar s [] buf chunk False);
          buf' = drop chunk buf
      in if n - chunk \<ge> 8 then block_swar_loop s' buf' (n - chunk) else (s', buf'))"
  by pat_completeness auto
termination
  by (relation "measure (\<lambda>(_, _, n). n)") (auto simp: ALIGN_DOWN_8 ADLER32_SWAR_MAX_BYTES_def)

text \<open>
  \<^verbatim>\<open>while (len >= nmax)\<close>; after the first block \<open>nmax\<close> is \<open>NMAX_ALIGNED8\<close>. The callers
  pass \<open>nmax > 0\<close>, which the model tests to be total.
\<close>

function block_loop :: "sums \<Rightarrow> nat \<Rightarrow> bytes \<Rightarrow> nat \<Rightarrow> nat \<Rightarrow> sums \<times> nat \<times> bytes \<times> nat" where
  "block_loop s addr buf len nmax =
     (if len \<ge> nmax \<and> nmax > 0 then
        let (s, buf) = block_swar_loop s buf nmax
        in block_loop (fst s mod of_nat BASE, snd s mod of_nat BASE) (addr + nmax) buf (len - nmax)
             NMAX_ALIGNED8
      else (s, addr, buf, len))"
  by pat_completeness auto
termination by (relation "measure (\<lambda>(_, _, _, len, _). len)") auto

definition adler32_c :: "nat \<Rightarrow> u32 \<Rightarrow> bytes \<Rightarrow> u32" where
  "adler32_c addr adler buf =
    (let len = length buf;
         sum2 = drop_bit 16 adler AND 0xffff;
         adler = adler AND 0xffff
     in if len = 1 then fst (adler32_copy_tail (adler, sum2) [] addr buf 1 True False)
        else if len < 16 then fst (adler32_copy_tail (adler, sum2) [] addr buf len True False)
        else
          let align_diff = ALIGN_DIFF addr 8;
              nmax = NMAX_ALIGNED8;
              (s, addr, buf, len, nmax) =
                (if align_diff \<noteq> 0 then
                   (fst (adler32_copy_align (adler, sum2) [] buf align_diff False),
                    addr + align_diff, drop align_diff buf, len - align_diff,
                    ALIGN_DOWN (nmax - align_diff) 8)
                 else ((adler, sum2), addr, buf, len, nmax));
              (s, addr, buf, len) = block_loop s addr buf len nmax
          in fst (adler32_copy_tail s [] addr buf len (len \<noteq> 0) False))"

definition adler32_copy_c :: "nat \<Rightarrow> u32 \<Rightarrow> bytes \<Rightarrow> u32 \<times> bytes" where
  "adler32_copy_c addr adler src = (adler32_c addr adler src, src)"

text \<open>The exported entry point; \<^verbatim>\<open>None\<close> is a null \<open>buf\<close>.\<close>

definition adler32_z :: "nat \<Rightarrow> u32 \<Rightarrow> bytes option \<Rightarrow> u32" where
  "adler32_z addr adler buf =
     (case buf of None \<Rightarrow> ADLER32_INITIAL_VALUE | Some b \<Rightarrow> adler32_c addr adler b)"

definition adler32_combine :: "u32 \<Rightarrow> u32 \<Rightarrow> int \<Rightarrow> u32" where
  "adler32_combine adler1 adler2 len2 =
    (if len2 < 0 then 0xffffffff
     else
       let base = of_nat BASE :: u32;
           rem = (of_int (len2 mod int BASE) :: u32);
           sum1 = adler1 AND 0xffff;
           sum2 = (rem * sum1) mod base;
           sum1 = sum1 + ((adler2 AND 0xffff) + base - 1);
           sum2 = sum2 + ((drop_bit 16 adler1 AND 0xffff) + (drop_bit 16 adler2 AND 0xffff)
                          + base - rem);
           sum1 = (if sum1 \<ge> base then sum1 - base else sum1);
           sum1 = (if sum1 \<ge> base then sum1 - base else sum1);
           sum2 = (if sum2 \<ge> push_bit 1 base then sum2 - push_bit 1 base else sum2);
           sum2 = (if sum2 \<ge> base then sum2 - base else sum2)
       in sum1 OR push_bit 16 sum2)"

section \<open>The byte loop and its closed form\<close>

declare adler_do4_loop.simps [simp del] swar_loop.simps [simp del] tail_swar_loop.simps [simp del]
  block_swar_loop.simps [simp del] block_loop.simps [simp del]

definition do_byte :: "u8 \<Rightarrow> sums \<Rightarrow> sums" where
  "do_byte b s = (case s of (sum1, sum2) \<Rightarrow> (sum1 + ucast b, sum2 + (sum1 + ucast b)))"

abbreviation do_bytes :: "sums \<Rightarrow> bytes \<Rightarrow> sums" where
  "do_bytes s bs \<equiv> fold do_byte bs s"

abbreviation byte_sum :: "bytes \<Rightarrow> nat" where
  "byte_sum bs \<equiv> sum_list (map unat bs)"

primrec weighted_sum :: "bytes \<Rightarrow> nat" where
  "weighted_sum [] = 0"
| "weighted_sum (b # bs) = Suc (length bs) * unat b + weighted_sum bs"

lemma weighted_sum_append:
  "weighted_sum (xs @ ys) = weighted_sum xs + length ys * byte_sum xs + weighted_sum ys"
  by (induction xs) (simp_all add: algebra_simps)

lemma do_bytes_closed:
  "do_bytes (a, s) bs =
     (a + of_nat (byte_sum bs), s + of_nat (length bs) * a + of_nat (weighted_sum bs))"
proof (induction bs arbitrary: a s)
  case (Cons b bs)
  have "do_byte b (a, s) = (a + ucast b, s + (a + ucast b))" by (simp add: do_byte_def)
  then show ?case by (simp add: Cons.IH) (simp add: algebra_simps)
qed simp

lemma do1_bytes [checksum_simps]: "0 < length buf \<Longrightarrow> ADLER_DO1 s buf 0 = do_bytes s (take 1 buf)"
  by (cases buf) (simp_all add: ADLER_DO1_def do_byte_def Let_def)

lemma do2_bytes [checksum_simps]: "2 \<le> length buf \<Longrightarrow> ADLER_DO2 s buf 0 = do_bytes s (take 2 buf)"
  by (cases buf; cases "tl buf")
     (simp_all add: ADLER_DO1_def ADLER_DO2_def do_byte_def Let_def split: prod.splits)

lemma do2_shift: "ADLER_DO2 s buf (Suc (Suc 0)) = ADLER_DO2 s (drop 2 buf) 0" if "4 \<le> length buf"
  using that by (simp add: ADLER_DO1_def ADLER_DO2_def numeral_2_eq_2 numeral_3_eq_3)

lemma do4_bytes [checksum_simps]:
  assumes "4 \<le> length buf"
  shows "ADLER_DO4 s buf 0 = do_bytes s (take 4 buf)"
proof -
  have "take 4 buf = take 2 buf @ take 2 (drop 2 buf)"
    using take_add [of 2 2 buf] by simp
  with assms show ?thesis
    by (simp add: ADLER_DO4_def do2_shift do2_bytes)
qed

lemma adler_do4_loop_eq:
  assumes "len - len mod 4 \<le> length buf"
  shows "adler_do4_loop COPY s dst buf len =
    (do_bytes s (take (len - len mod 4) buf),
     (if COPY then dst @ take (len - len mod 4) buf else dst),
     drop (len - len mod 4) buf, len mod 4)"
  using assms
proof (induction COPY s dst buf len rule: adler_do4_loop.induct)
  case (1 COPY s dst buf len)
  show ?case
  proof (cases "4 \<le> len")
    case True
    have m: "(len - 4) mod 4 = len mod 4" using True by (simp add: le_mod_geq)
    define k where "k = 4 * (len div 4 - 1)"
    have d: "len = 4 * (len div 4) + len mod 4" "1 \<le> len div 4" using True by simp_all
    then have k: "len - len mod 4 = 4 + k" and k': "len - 4 - len mod 4 = k"
      unfolding k_def by linarith+
    have buf: "4 + k \<le> length buf" using "1.prems" unfolding k .
    have IH: "adler_do4_loop COPY (ADLER_DO4 s buf 0) (if COPY then dst @ take 4 buf else dst)
        (drop 4 buf) (len - 4) =
      (do_bytes (ADLER_DO4 s buf 0) (take k (drop 4 buf)),
       (if COPY then (if COPY then dst @ take 4 buf else dst) @ take k (drop 4 buf)
        else (if COPY then dst @ take 4 buf else dst)),
       drop k (drop 4 buf), len mod 4)"
      using "1.IH" [OF True] buf unfolding m k' by simp
    show ?thesis
      unfolding adler_do4_loop.simps [of COPY s dst buf len] if_P [OF True] IH k take_add
      using buf by (simp add: do4_bytes add.commute)
  next
    case False
    then show ?thesis by (simp add: adler_do4_loop.simps [of COPY s dst buf len])
  qed
qed

section \<open>Lane arithmetic\<close>

text \<open>Four 16-bit lanes packed in a 64-bit word.\<close>

definition lanes :: "(nat \<Rightarrow> nat) \<Rightarrow> nat" where
  "lanes f = f 0 + 2 ^ 16 * (f 1 + 2 ^ 16 * (f 2 + 2 ^ 16 * f 3))"

abbreviation lane_word :: "(nat \<Rightarrow> nat) \<Rightarrow> u64" where
  "lane_word f \<equiv> of_nat (lanes f)"

lemma lane_word_add: "lane_word f + lane_word g = lane_word (\<lambda>i. f i + g i)"
proof -
  have "lanes f + lanes g = lanes (\<lambda>i. f i + g i)" by (simp add: lanes_def algebra_simps)
  then show ?thesis by (metis of_nat_add)
qed

lemma le_nat_8:
  assumes "8 \<le> length p"
  shows "le_nat (take 8 p) =
    lanes (\<lambda>i. unat (p ! (2 * i)) + 256 * unat (p ! (2 * i + 1)))"
proof -
  have "take 8 p = [p!0, p!1, p!2, p!3, p!4, p!5, p!6, p!7]"
    using assms by (intro nth_equalityI) (auto simp: less_Suc_eq numeral_nat)
  then show ?thesis by (simp add: lanes_def)
qed

lemma lanes_less:
  assumes "\<And>i. f i < 2 ^ 16"
  shows "lanes f < 2 ^ 64"
  using assms [of 0] assms [of 1] assms [of 2] assms [of 3] by (simp add: lanes_def)

lemma lanes_and:
  assumes "\<And>i. f i < 2 ^ 16" and "\<And>i. m i < 2 ^ 16"
  shows "lanes f AND lanes m = lanes (\<lambda>i. f i AND m i)"
  unfolding lanes_def
  by (subst nat_and_split [OF assms], subst nat_and_split [OF assms], subst nat_and_split [OF assms])
     (rule refl)

lemma unat_lane_word: "(\<And>i. f i < 2 ^ 16) \<Longrightarrow> unat (lane_word f) = lanes f"
  using lanes_less [of f] by (simp add: unat_of_nat)

lemma lane_word_and:
  assumes "\<And>i. f i < 2 ^ 16" and "\<And>i. m i < 2 ^ 16"
  shows "lane_word f AND lane_word m = lane_word (\<lambda>i. f i AND m i)"
proof (rule word_unat_eq_iff [THEN iffD2])
  have "f i AND m i < 2 ^ 16" for i
    using assms(1) [of i] nat_and_le by (rule le_less_trans [rotated])
  then show "unat (lane_word f AND lane_word m) = unat (lane_word (\<lambda>i. f i AND m i))"
    using assms by (simp only: unsigned_and_eq unat_lane_word lanes_and)
qed


lemma even_mask_lanes: "ADLER32_SWAR_EVEN_MASK = lane_word (\<lambda>_. 255)"
  by (simp add: ADLER32_SWAR_EVEN_MASK_def lanes_def)

lemma and_255: "(unat (a :: u8) + 256 * y) AND 255 = unat a"
  using nat_and_split [of "unat a" 8 255 y 0] nat_and_mask [of "unat a" 8] by simp

lemma memread_even_lanes:
  assumes "8 \<le> length p"
  shows "zng_memread_8 p AND ADLER32_SWAR_EVEN_MASK = lane_word (\<lambda>i. unat (p ! (2 * i)))"
  unfolding zng_memread_8_def le_nat_8 [OF assms] even_mask_lanes
  by (subst lane_word_and) (simp_all add: and_255 byte_pair_less [simplified])

lemma memread_odd_lanes:
  assumes "8 \<le> length p"
  shows "drop_bit 8 (zng_memread_8 p) AND ADLER32_SWAR_EVEN_MASK
    = lane_word (\<lambda>i. unat (p ! (2 * i + 1)))"
proof -
  let ?b = "\<lambda>i. unat (p ! i)"
  let ?f = "\<lambda>i. ?b (2 * i + 1) + 256 * (if i = 3 then 0 else ?b (2 * i + 2))"
  have less: "?f i < 2 ^ 16" for i
    using byte_pair_less [of "p ! (2 * i + 1)" "p ! (2 * i + 2)"]
      byte_pair_less [of "p ! (2 * i + 1)" 0] by (cases "i = 3") simp_all
  have eq: "drop_bit 8 (zng_memread_8 p) = lane_word ?f"
  proof (rule word_unat_eq_iff [THEN iffD2])
    have "lanes (\<lambda>i. ?b (2 * i) + 256 * ?b (2 * i + 1)) = ?b 0 + 2 ^ 8 * lanes ?f"
      by (simp add: lanes_def flip: numeral_2_eq_2)
    then have "unat (drop_bit 8 (zng_memread_8 p)) = lanes ?f"
      by (simp add: unat_drop_bit_div unat_memread_8 le_nat_8 [OF assms] del: One_nat_def)
    then show "unat (drop_bit 8 (zng_memread_8 p)) = unat (lane_word ?f)"
      using unat_lane_word [OF less] by simp
  qed
  show ?thesis
    unfolding eq even_mask_lanes by (subst lane_word_and [OF less]) (simp_all add: and_255)
qed


text \<open>The lanes after \<open>k\<close> groups of eight bytes, \<open>xs\<close> being all of them.\<close>

definition swar_inv :: "bytes \<Rightarrow> nat \<Rightarrow> swar \<Rightarrow> bool" where
  "swar_inv xs k acc \<longleftrightarrow> (\<exists>e d p q.
     acc = (lane_word e, lane_word d, lane_word p, lane_word q) \<and>
     (\<forall>i. e i \<le> 255 * k \<and> d i \<le> 255 * k) \<and>
     (\<forall>i. p i \<le> 255 * \<Sum>{..<k} \<and> q i \<le> 255 * \<Sum>{..<k}) \<and>
     byte_sum xs = (e 0 + d 0) + (e 1 + d 1) + (e 2 + d 2) + (e 3 + d 3) \<and>
     weighted_sum xs =
       8 * ((p 0 + q 0) + (p 1 + q 1) + (p 2 + q 2) + (p 3 + q 3)) +
       (8 * e 0 + 7 * d 0) + (6 * e 1 + 5 * d 1) + (4 * e 2 + 3 * d 2) + (2 * e 3 + d 3))"

lemma swar_inv_init: "swar_inv [] 0 (0, 0, 0, 0)"
  unfolding swar_inv_def
  by (intro exI [of _ "\<lambda>_. 0"]) (simp add: lanes_def)

lemma swar_inv_step:
  assumes "swar_inv xs k acc" and len: "8 \<le> length p"
  shows "swar_inv (xs @ take 8 p) (Suc k) (swar_step acc (zng_memread_8 p))"
proof -
  from assms(1) obtain e d pe po where
    acc: "acc = (lane_word e, lane_word d, lane_word pe, lane_word po)"
    and ed: "\<And>i. e i \<le> 255 * k" "\<And>i. d i \<le> 255 * k"
    and pq: "\<And>i. pe i \<le> 255 * \<Sum>{..<k}" "\<And>i. po i \<le> 255 * \<Sum>{..<k}"
    and s: "byte_sum xs = (e 0 + d 0) + (e 1 + d 1) + (e 2 + d 2) + (e 3 + d 3)"
    and w: "weighted_sum xs =
       8 * ((pe 0 + po 0) + (pe 1 + po 1) + (pe 2 + po 2) + (pe 3 + po 3)) +
       (8 * e 0 + 7 * d 0) + (6 * e 1 + 5 * d 1) + (4 * e 2 + 3 * d 2) + (2 * e 3 + d 3)"
    unfolding swar_inv_def by auto
  let ?e = "\<lambda>i. e i + unat (p ! (2 * i))"
  let ?d = "\<lambda>i. d i + unat (p ! (2 * i + 1))"
  let ?p = "\<lambda>i. pe i + e i"
  let ?q = "\<lambda>i. po i + d i"
  have "swar_step acc (zng_memread_8 p) = (lane_word ?e, lane_word ?d, lane_word ?p, lane_word ?q)"
    by (simp only: acc swar_step_def prod.case memread_even_lanes [OF len]
        memread_odd_lanes [OF len] lane_word_add)
  moreover have "?e i \<le> 255 * Suc k" "?d i \<le> 255 * Suc k" for i
    unfolding mult_Suc_right using ed [of i]
    by (simp_all only: add.commute [of "e i"] add.commute [of "d i"] add_mono unat_le_255)
  moreover have "?p i \<le> 255 * \<Sum>{..<Suc k}" "?q i \<le> 255 * \<Sum>{..<Suc k}" for i
    using ed [of i] pq [of i] by simp_all
  moreover have "byte_sum (xs @ take 8 p) = (?e 0 + ?d 0) + (?e 1 + ?d 1) + (?e 2 + ?d 2) + (?e 3 + ?d 3)"
    by (simp add: take_8 [OF len] s)
  moreover have "weighted_sum (xs @ take 8 p) =
       8 * ((?p 0 + ?q 0) + (?p 1 + ?q 1) + (?p 2 + ?q 2) + (?p 3 + ?q 3)) +
       (8 * ?e 0 + 7 * ?d 0) + (6 * ?e 1 + 5 * ?d 1) + (4 * ?e 2 + 3 * ?d 2) + (2 * ?e 3 + ?d 3)"
    by (simp add: take_8 [OF len] weighted_sum_append s w)
  ultimately show ?thesis unfolding swar_inv_def by blast
qed


lemma lane_hi:
  assumes "a < 2 ^ 16" and "b < 2 ^ 16" and "c < 2 ^ 16" and "d < 2 ^ 16"
  shows "ucast (drop_bit 48 (of_nat (a + 2 ^ 16 * (b + 2 ^ 16 * (c + 2 ^ 16 * (d + 2 ^ 16 * r)))) :: u64))
    = (of_nat d :: u32)"
proof -
  let ?lo = "a + 2 ^ 16 * (b + 2 ^ 16 * c)"
  have lo: "?lo < 2 ^ 48" using assms by simp
  have "a + 2 ^ 16 * (b + 2 ^ 16 * (c + 2 ^ 16 * (d + 2 ^ 16 * r))) = (?lo + 2 ^ 48 * d) + 2 ^ 64 * r"
    by simp
  moreover have "?lo + 2 ^ 48 * d < 2 ^ 64" using lo assms(4) by simp
  ultimately have "(a + 2 ^ 16 * (b + 2 ^ 16 * (c + 2 ^ 16 * (d + 2 ^ 16 * r)))) mod 2 ^ 64
      = ?lo + 2 ^ 48 * d"
    by (metis mod_less mod_mult_self2)
  then have "unat (drop_bit 48 (of_nat (a + 2 ^ 16 * (b + 2 ^ 16 * (c + 2 ^ 16 * (d + 2 ^ 16 * r)))) :: u64))
      = (?lo + 2 ^ 48 * d) div 2 ^ 48"
    by (simp only: unat_drop_bit_div unat_of_nat) simp
  also have "\<dots> = d" using lo by simp
  finally show ?thesis
    by (metis of_nat_unat)
qed


lemma swar_loop_inv:
  assumes "swar_inv xs k acc" and "len = 8 * n" and "len \<le> length src"
  shows "\<exists>acc'. swar_loop COPY acc dst src len = (acc', if COPY then dst @ take len src else dst)
    \<and> swar_inv (xs @ take len src) (k + n) acc'"
  using assms
proof (induction COPY acc dst src len arbitrary: xs k n rule: swar_loop.induct)
  case (1 COPY acc dst src len)
  note len = \<open>len = 8 * n\<close> \<open>len \<le> length src\<close>
  consider (two) "16 \<le> len" | (one) "n = 1" | (none) "n = 0" using len by linarith
  then show ?case
  proof cases
    case two
    let ?acc = "swar_step (swar_step acc (zng_memread_8 src)) (zng_memread_8 (drop 8 src))"
    let ?dst = "if COPY then dst @ take 16 src else dst"
    have split: "take (16 + m) src = take 8 src @ take 8 (drop 8 src) @ take m (drop 16 src)" for m
      using take_add [of 8 "8 + m" src] take_add [of 8 m "drop 8 src"] by simp
    define m where "m = n - 2"
    then have m: "n = m + 2" using two len by linarith
    have "swar_inv ((xs @ take 8 src) @ take 8 (drop 8 src)) (Suc (Suc k)) ?acc"
      using two len by (intro swar_inv_step "1.prems"(1)) simp_all
    moreover have "len - 16 = 8 * m" and "len - 16 \<le> length (drop 16 src)"
      using len m by simp_all
    ultimately obtain acc' where
      "swar_loop COPY ?acc ?dst (drop 16 src) (len - 16) =
        (acc', if COPY then ?dst @ take (len - 16) (drop 16 src) else ?dst)"
      and inv: "swar_inv (((xs @ take 8 src) @ take 8 (drop 8 src)) @ take (len - 16) (drop 16 src))
         (Suc (Suc k) + m) acc'"
      using "1.IH" [OF two refl refl] by blast
    moreover have "take 16 src = take 8 src @ take 8 (drop 8 src)" using split [of 0] by simp
    moreover have "len = 16 + 8 * m" using len m by simp
    ultimately show ?thesis
      using two unfolding swar_loop.simps [of COPY acc dst src len]
      by (intro exI [of _ acc']) (auto simp: m Let_def split split: if_splits)
  next
    case one
    then show ?thesis
      using swar_inv_step [OF "1.prems"(1), of src] len
      unfolding swar_loop.simps [of COPY acc dst src len]
      by (intro exI [of _ "swar_step acc (zng_memread_8 src)"]) simp
  next
    case none
    then show ?thesis
      using "1.prems" unfolding swar_loop.simps [of COPY acc dst src len]
      by (intro exI [of _ acc]) simp
  qed
qed


lemma lane_mult_hi:
  assumes "f 0 * c0 < 2 ^ 16" and "f 0 * c1 + f 1 * c0 < 2 ^ 16"
    and "f 0 * c2 + f 1 * c1 + f 2 * c0 < 2 ^ 16"
    and "f 0 * c3 + f 1 * c2 + f 2 * c1 + f 3 * c0 < 2 ^ 16"
  shows "ucast (drop_bit 48 (lane_word f * of_nat (c0 + 2 ^ 16 * (c1 + 2 ^ 16 * (c2 + 2 ^ 16 * c3))))) =
    (of_nat (f 0 * c3 + f 1 * c2 + f 2 * c1 + f 3 * c0) :: u32)"
proof -
  let ?r = "f 1 * c3 + f 2 * c2 + f 3 * c1 + 2 ^ 16 * (f 2 * c3 + f 3 * c2 + 2 ^ 16 * (f 3 * c3))"
  have prod: "lanes f * (c0 + 2 ^ 16 * (c1 + 2 ^ 16 * (c2 + 2 ^ 16 * c3))) =
    f 0 * c0 + 2 ^ 16 * ((f 0 * c1 + f 1 * c0) + 2 ^ 16 * ((f 0 * c2 + f 1 * c1 + f 2 * c0)
      + 2 ^ 16 * ((f 0 * c3 + f 1 * c2 + f 2 * c1 + f 3 * c0) + 2 ^ 16 * ?r)))"
    by (simp add: lanes_def algebra_simps)
  show ?thesis
    unfolding of_nat_mult [symmetric] prod by (rule lane_hi [OF assms])
qed

lemma lane_pairs:
  assumes "\<And>i. p i < 2 ^ 16"
  shows "lane_word p AND 0xFFFF0000FFFF = of_nat (p 0 + 2 ^ 32 * p 2)"
    and "drop_bit 16 (lane_word p) AND 0xFFFF0000FFFF = of_nat (p 1 + 2 ^ 32 * p 3)"
proof -
  let ?m = "\<lambda>i::nat. if even i then 65535 else 0 :: nat"
  have mask: "(0xFFFF0000FFFF :: u64) = lane_word ?m" by (simp add: lanes_def)
  have keep: "x AND ?m i = (if even i then x else 0)" if "x < 2 ^ 16" for x i
    using nat_and_mask [OF that] by simp
  show "lane_word p AND 0xFFFF0000FFFF = of_nat (p 0 + 2 ^ 32 * p 2)"
    unfolding mask using assms by (subst lane_word_and) (simp_all only: keep, simp_all add: lanes_def)
  let ?h = "\<lambda>i. if i < 3 then p (Suc i) else 0"
  have h: "?h i < 2 ^ 16" for i using assms [of "Suc i"] by simp
  have "lanes p = p 0 + 2 ^ 16 * lanes ?h" by (simp add: lanes_def flip: numeral_2_eq_2)
  then have "unat (drop_bit 16 (lane_word p)) = lanes ?h"
    using assms [of 0] unfolding unat_drop_bit_div unat_lane_word [OF assms] by simp
  then have hi: "drop_bit 16 (lane_word p) = lane_word ?h"
    using unat_lane_word [OF h] by (intro word_unat_eq_iff [THEN iffD2]) (simp only:)
  show "drop_bit 16 (lane_word p) AND 0xFFFF0000FFFF = of_nat (p 1 + 2 ^ 32 * p 3)"
    unfolding mask hi by (subst lane_word_and [OF h]) (simp_all only: keep [OF h], simp_all add: lanes_def)
qed


lemma prefix_hi:
  assumes "a < 2 ^ 29" and "a + b < 2 ^ 29"
  shows "ucast (drop_bit 32 (of_nat (a + 2 ^ 32 * b) * 0x800000008 :: u64)) =
    (of_nat (8 * (a + b)) :: u32)"
proof -
  let ?n = "(a + 2 ^ 32 * b) * 0x800000008"
  have "?n = (8 * a + 2 ^ 32 * (8 * (a + b))) + 2 ^ 64 * (8 * b)" by simp
  moreover have "8 * a + 2 ^ 32 * (8 * (a + b)) < 2 ^ 64" using assms by simp
  ultimately have "?n mod 2 ^ 64 = 8 * a + 2 ^ 32 * (8 * (a + b))"
    by (metis mod_less mod_mult_self2)
  then have "unat (drop_bit 32 (of_nat ?n :: u64)) = (8 * a + 2 ^ 32 * (8 * (a + b))) div 2 ^ 32"
    by (simp only: unat_drop_bit_div unat_of_nat) simp
  also have "\<dots> = 8 * (a + b)" using assms by simp
  finally have "unat (drop_bit 32 (of_nat ?n :: u64)) = 8 * (a + b)" .
  moreover have "(of_nat ?n :: u64) = of_nat (a + 2 ^ 32 * b) * 0x800000008" by simp
  ultimately show ?thesis by (metis of_nat_unat)
qed

lemma swar_reduce:
  assumes inv: "swar_inv xs k (se, sd, pe, po)" and k: "k \<le> 23"
  shows "ucast (drop_bit 48 ((se + sd) * ADLER32_SWAR_HSUM)) = (of_nat (byte_sum xs) :: u32)"
    and "ucast (drop_bit 32 (((pe AND 0xFFFF0000FFFF) + (po AND 0xFFFF0000FFFF)
          + (drop_bit 16 pe AND 0xFFFF0000FFFF) + (drop_bit 16 po AND 0xFFFF0000FFFF)) * 0x800000008))
        + (2 * ucast (drop_bit 48 (se * 0x4000300020001)) + ucast (drop_bit 48 (sd * ADLER32_SWAR_HSUM))
           + 2 * ucast (drop_bit 48 (sd * 0x3000200010000)))
        = (of_nat (weighted_sum xs) :: u32)"
proof -
  from inv obtain e d p q where
    acc: "se = lane_word e" "sd = lane_word d" "pe = lane_word p" "po = lane_word q"
    and ed: "\<And>i. e i \<le> 255 * k" "\<And>i. d i \<le> 255 * k"
    and pq: "\<And>i. p i \<le> 255 * \<Sum>{..<k}" "\<And>i. q i \<le> 255 * \<Sum>{..<k}"
    and s: "byte_sum xs = (e 0 + d 0) + (e 1 + d 1) + (e 2 + d 2) + (e 3 + d 3)"
    and w: "weighted_sum xs =
       8 * ((p 0 + q 0) + (p 1 + q 1) + (p 2 + q 2) + (p 3 + q 3)) +
       (8 * e 0 + 7 * d 0) + (6 * e 1 + 5 * d 1) + (4 * e 2 + 3 * d 2) + (2 * e 3 + d 3)"
    unfolding swar_inv_def by auto
  have "\<Sum>{..<k} \<le> \<Sum>{..<23::nat}" using k by (intro sum_mono2) auto
  also have "\<dots> = 253" by (simp add: lessThan_nat_numeral lessThan_Suc)
  finally have sum: "\<Sum>{..<k} \<le> 253" .
  have b: "e i \<le> 5865" "d i \<le> 5865" "p i \<le> 64515" "q i \<le> 64515" for i
    using ed [of i] pq [of i] k sum by linarith+
  note bs = b [of 0] b [of 1] b [of 2] b [of 3]
  have "ucast (drop_bit 48 (lane_word (\<lambda>i. e i + d i) * of_nat (1 + 2 ^ 16 * (1 + 2 ^ 16 * (1 + 2 ^ 16 * 1)))))
    = (of_nat (byte_sum xs) :: u32)"
    unfolding s by (subst lane_mult_hi) (use bs in \<open>simp_all add: add.assoc\<close>)
  then show "ucast (drop_bit 48 ((se + sd) * ADLER32_SWAR_HSUM)) = (of_nat (byte_sum xs) :: u32)"
    by (simp add: acc lane_word_add ADLER32_SWAR_HSUM_def)
  have pl: "p i < 2 ^ 16" "q i < 2 ^ 16" for i using b(3,4) [of i] by simp_all
  have p1: "ucast (drop_bit 32 (((pe AND 0xFFFF0000FFFF) + (po AND 0xFFFF0000FFFF)
          + (drop_bit 16 pe AND 0xFFFF0000FFFF) + (drop_bit 16 po AND 0xFFFF0000FFFF)) * 0x800000008))
    = (of_nat (8 * ((p 0 + q 0 + p 1 + q 1) + (p 2 + q 2 + p 3 + q 3))) :: u32)"
    unfolding acc lane_pairs [OF pl(1)] lane_pairs [OF pl(2)] of_nat_add [symmetric]
    by (subst prefix_hi [symmetric])
       (use bs in \<open>simp_all add: algebra_simps\<close>)
  have p2: "ucast (drop_bit 48 (se * 0x4000300020001)) = (of_nat (e 0 * 4 + e 1 * 3 + e 2 * 2 + e 3 * 1) :: u32)"
    using lane_mult_hi [of e 1 2 3 4] bs by (simp add: acc)
  have p3: "ucast (drop_bit 48 (sd * ADLER32_SWAR_HSUM)) = (of_nat (d 0 * 1 + d 1 * 1 + d 2 * 1 + d 3 * 1) :: u32)"
    using lane_mult_hi [of d 1 1 1 1] bs by (simp add: acc ADLER32_SWAR_HSUM_def)
  have p4: "ucast (drop_bit 48 (sd * 0x3000200010000)) = (of_nat (d 0 * 3 + d 1 * 2 + d 2 * 1 + d 3 * 0) :: u32)"
    using lane_mult_hi [of d 0 1 2 3] bs by (simp add: acc)
  show "ucast (drop_bit 32 (((pe AND 0xFFFF0000FFFF) + (po AND 0xFFFF0000FFFF)
          + (drop_bit 16 pe AND 0xFFFF0000FFFF) + (drop_bit 16 po AND 0xFFFF0000FFFF)) * 0x800000008))
        + (2 * ucast (drop_bit 48 (se * 0x4000300020001)) + ucast (drop_bit 48 (sd * ADLER32_SWAR_HSUM))
           + 2 * ucast (drop_bit 48 (sd * 0x3000200010000)))
        = (of_nat (weighted_sum xs) :: u32)"
    unfolding p1 p2 p3 p4 w by simp
qed

lemma adler32_swar_eq:
  assumes "len = 8 * n" and "n \<le> 23" and "len \<le> length buf"
  shows "adler32_swar s dst buf len COPY =
    (do_bytes s (take len buf), if COPY then dst @ take len buf else dst)"
proof -
  obtain a s2 where s: "s = (a, s2)" by (cases s)
  obtain se sd pe po where
    loop: "swar_loop COPY (0, 0, 0, 0) dst buf len =
      ((se, sd, pe, po), if COPY then dst @ take len buf else dst)"
    and inv: "swar_inv (take len buf) n (se, sd, pe, po)"
    using swar_loop_inv [OF swar_inv_init assms(1,3), of COPY dst] by auto
  note red = swar_reduce [OF inv assms(2)]
  show ?thesis
    unfolding adler32_swar_def s prod.case loop Let_def
    using assms(3) by (simp add: do_bytes_closed red(1) add.assoc flip: red(2))
qed


section \<open>Alignment prefix, tail and blocks as byte loops\<close>

lemma opt_do1:
  assumes "a \<le> 1" and "a \<le> length buf"
  shows "(if a \<noteq> 0 then (ADLER_DO1 s buf 0, (if COPY then dst @ take 1 buf else dst), drop 1 buf)
          else (s, dst, buf)) =
    (do_bytes s (take a buf), (if COPY then dst @ take a buf else dst), drop a buf)"
  using assms by (cases "a = 0") (auto simp: do1_bytes [unfolded One_nat_def] le_Suc_eq Suc_le_eq)

lemma opt_do2:
  assumes "a = 0 \<or> a = 2" and "a \<le> length buf"
  shows "(if a \<noteq> 0 then (ADLER_DO2 s buf 0, (if COPY then dst @ take 2 buf else dst), drop 2 buf)
          else (s, dst, buf)) =
    (do_bytes s (take a buf), (if COPY then dst @ take a buf else dst), drop a buf)"
  using assms by (cases "a = 0") (simp_all add: do2_bytes)

lemma low_bits: "n = n mod 2 + (2 * (n div 2 mod 2) + (n - n mod 4))" for n :: nat
proof -
  have "n mod 4 = 2 * (n div 2 mod 2) + n mod 2" using mod_mult2_eq [of n 2 2] by simp
  moreover have "n mod 4 \<le> n" by simp
  ultimately show ?thesis by linarith
qed

lemma adler32_copy_align_eq:
  assumes "len \<le> length buf"
  shows "adler32_copy_align s dst buf len COPY =
    (do_bytes s (take len buf), if COPY then dst @ take len buf else dst)"
proof -
  define a b c where "a = len mod 2" and "b = 2 * (len div 2 mod 2)" and "c = len - len mod 4"
  have ab: "len AND 1 = a" "len AND 2 = b" by (simp_all add: a_def b_def nat_and_1 nat_and_2)
  have cases: "a \<le> 1" "b = 0 \<or> b = 2" unfolding a_def b_def by auto
  have sum: "len = a + (b + c)" unfolding a_def b_def c_def by (rule low_bits)
  have len: "a \<le> length buf" "b \<le> length (drop a buf)" using assms sum by simp_all
  have loop: "adler_do4_loop COPY s' dst' (drop b (drop a buf)) len =
    (do_bytes s' (take c (drop b (drop a buf))),
     (if COPY then dst' @ take c (drop b (drop a buf)) else dst'),
     drop c (drop b (drop a buf)), len mod 4)" for s' dst'
    by (rule adler_do4_loop_eq [of len, folded c_def]) (use assms sum in simp)
  have "take len buf = take a buf @ take b (drop a buf) @ take c (drop b (drop a buf))"
    unfolding sum by (simp only: take_add)
  then show ?thesis
    unfolding adler32_copy_align_def Let_def ab opt_do1 [OF cases(1) len(1)] prod.case
      opt_do2 [OF cases(2) len(2)] loop
    by simp
qed

lemma chunk_multiple:
  assumes "8 \<le> n"
  obtains k where "min (ALIGN_DOWN n 8) ADLER32_SWAR_MAX_BYTES = 8 * k" and "k \<le> 23"
    and "0 < k" and "8 * k \<le> n"
proof (rule that [of "min (n div 8) 23"])
  show "min (ALIGN_DOWN n 8) ADLER32_SWAR_MAX_BYTES = 8 * min (n div 8) 23"
    by (simp add: ALIGN_DOWN_8 ADLER32_SWAR_MAX_BYTES_def min_def)
  have "8 * (n div 8) \<le> n" by simp
  then show "8 * min (n div 8) 23 \<le> n" by linarith
qed (use assms in auto)

lemma tail_swar_loop_eq:
  assumes "len \<le> length buf"
  shows "\<exists>m \<le> len. tail_swar_loop COPY s dst addr buf len =
    (do_bytes s (take m buf), (if COPY then dst @ take m buf else dst), drop m buf, len - m)"
  using assms
proof (induction COPY s dst addr buf len rule: tail_swar_loop.induct)
  case (1 COPY s dst addr buf len)
  show ?case
  proof (cases "8 \<le> len \<and> addr AND 7 = 0")
    case True
    define c where "c = min (ALIGN_DOWN len 8) ADLER32_SWAR_MAX_BYTES"
    obtain k where k: "c = 8 * k" "k \<le> 23" "c \<le> len"
      using chunk_multiple [of len] True unfolding c_def by metis
    have swar: "adler32_swar s dst buf c COPY =
        (do_bytes s (take c buf), if COPY then dst @ take c buf else dst)"
      using k "1.prems" by (intro adler32_swar_eq) simp_all
    obtain m where m: "m \<le> len - c"
      and loop: "tail_swar_loop COPY (do_bytes s (take c buf)) (if COPY then dst @ take c buf else dst)
         (addr + c) (drop c buf) (len - c) =
       (do_bytes (do_bytes s (take c buf)) (take m (drop c buf)),
        (if COPY then (if COPY then dst @ take c buf else dst) @ take m (drop c buf)
         else (if COPY then dst @ take c buf else dst)), drop m (drop c buf), len - c - m)"
      using "1.IH" [OF True c_def refl swar [symmetric]] "1.prems" diff_le_mono by auto
    have "take (c + m) buf = take c buf @ take m (drop c buf)" by (rule take_add)
    then show ?thesis
      unfolding tail_swar_loop.simps [of COPY s dst addr buf len] if_P [OF True] Let_def
        c_def [symmetric] swar prod.case loop
      using m k(3) by (intro exI [of _ "c + m"]) (simp add: add.commute)
  next
    case False
    then show ?thesis
      unfolding tail_swar_loop.simps [of COPY s dst addr buf len] if_not_P [OF False]
      by (intro exI [of _ 0]) simp
  qed
qed

definition pack :: "bool \<Rightarrow> sums \<Rightarrow> u32" where
  "pack REBASE s = (let (a, b) = (if REBASE then (fst s mod of_nat BASE, snd s mod of_nat BASE) else s)
     in a OR push_bit 16 b)"

lemma adler32_copy_tail_eq:
  shows "adler32_copy_tail s dst addr buf (length buf) REBASE COPY =
    (pack REBASE (do_bytes s buf), if COPY then dst @ buf else dst)"
proof (cases "length buf = 0")
  case True
  then show ?thesis by (simp add: adler32_copy_tail_def pack_def split: prod.splits)
next
  case False
  obtain m where m: "m \<le> length buf" and swar: "tail_swar_loop COPY s dst addr buf (length buf) =
    (do_bytes s (take m buf), (if COPY then dst @ take m buf else dst), drop m buf, length buf - m)"
    using tail_swar_loop_eq [of "length buf" buf COPY s dst addr] by blast
  define n where "n = length buf - m"
  define a b c where "a = n mod 4 mod 2" and "b = 2 * (n mod 4 div 2 mod 2)" and "c = n - n mod 4"
  define p1 where "p1 = drop m buf"
  define p2 where "p2 = drop c p1"
  define p3 where "p3 = drop b p2"
  have ab: "n mod 4 AND 1 = a" "n mod 4 AND 2 = b" by (simp_all add: a_def b_def nat_and_1 nat_and_2)
  have cases: "a \<le> 1" "b = 0 \<or> b = 2" unfolding a_def b_def by auto
  have sum: "n = c + (b + a)"
    using low_bits [of "n mod 4"] mod_less_eq_dividend [of n 4]
    unfolding a_def b_def c_def mod_mod_trivial by linarith
  have len: "b \<le> length p2" "length p3 = a"
    using m sum n_def by (simp_all add: p1_def p2_def p3_def)
  have loop: "adler_do4_loop COPY s' dst' p1 n =
    (do_bytes s' (take c p1), (if COPY then dst' @ take c p1 else dst'), p2, n mod 4)" for s' dst'
    unfolding c_def p2_def by (rule adler_do4_loop_eq) (simp add: n_def p1_def)
  have opt: "(if a \<noteq> 0 then (ADLER_DO1 s p3 0, (if COPY then dst @ take 1 p3 else dst)) else (s, dst)) =
    (do_bytes s p3, (if COPY then dst @ p3 else dst))" for s dst
    using opt_do1 [OF cases(1), of p3 s COPY dst] len(2) by (cases "a = 0") auto
  have "buf = take m buf @ take c p1 @ take b p2 @ p3"
    unfolding p3_def p2_def p1_def by (metis append_take_drop_id)
  then have "do_bytes s buf = do_bytes (do_bytes (do_bytes (do_bytes s (take m buf)) (take c p1)) (take b p2)) p3"
    and "dst @ buf = (((dst @ take m buf) @ take c p1) @ take b p2) @ p3"
    by (metis fold_append o_apply, metis append_assoc)
  moreover have "length buf \<noteq> 0" using False .
  ultimately show ?thesis
    unfolding adler32_copy_tail_def Let_def if_P [OF False] swar prod.case n_def [symmetric]
      p1_def [symmetric] loop ab opt_do2 [OF cases(2) len(1)] p3_def [symmetric] opt pack_def
    by (auto simp del: append_assoc split: prod.splits)
qed


lemma block_swar_loop_eq:
  assumes "n = 8 * k" and "0 < k" and "n \<le> length buf"
  shows "block_swar_loop s buf n = (do_bytes s (take n buf), drop n buf)"
  using assms
proof (induction s buf n arbitrary: k rule: block_swar_loop.induct)
  case (1 s buf n)
  define c where "c = min (ALIGN_DOWN n 8) ADLER32_SWAR_MAX_BYTES"
  obtain j where j: "c = 8 * j" "j \<le> 23" "0 < j" "c \<le> n"
    using chunk_multiple [of n] "1.prems" unfolding c_def by (metis mult_le_cancel1 mult_1_right Suc_leI One_nat_def)
  have swar: "fst (adler32_swar s [] buf c False) = do_bytes s (take c buf)"
    using j "1.prems" by (subst adler32_swar_eq) simp_all
  show ?case
  proof (cases "8 \<le> n - c")
    case True
    have "block_swar_loop (do_bytes s (take c buf)) (drop c buf) (n - c) =
      (do_bytes (do_bytes s (take c buf)) (take (n - c) (drop c buf)), drop (n - c) (drop c buf))"
      using "1.prems" j True
      by (intro "1.IH" [OF c_def refl refl, unfolded swar, OF True, of "k - j"])
         (simp_all add: diff_mult_distrib2)
    moreover have "n = c + (n - c)" using j by simp
    ultimately show ?thesis
      using True unfolding block_swar_loop.simps [of s buf n] Let_def c_def [symmetric] swar
      by (metis (no_types, lifting) drop_drop fold_append o_apply take_add add.commute)
  next
    case False
    then have "n = c" using "1.prems" j by simp
    with False show ?thesis
      unfolding block_swar_loop.simps [of s buf n] Let_def c_def [symmetric] swar by simp
  qed
qed

section \<open>The checksum of RFC 1950\<close>

text \<open>Both sums are reduced after every byte, on unbounded numbers.\<close>

definition rfc_byte :: "u8 \<Rightarrow> nat \<times> nat \<Rightarrow> nat \<times> nat" where
  "rfc_byte b s = ((fst s + unat b) mod BASE, (snd s + (fst s + unat b)) mod BASE)"

definition rfc_sums :: "nat \<times> nat \<Rightarrow> bytes \<Rightarrow> nat \<times> nat" where
  "rfc_sums s bs = fold rfc_byte bs (fst s mod BASE, snd s mod BASE)"

definition adler32_rfc :: "u32 \<Rightarrow> bytes \<Rightarrow> nat" where
  "adler32_rfc adler bs =
    (let (s1, s2) = rfc_sums (unat adler mod 2 ^ 16, unat adler div 2 ^ 16) bs in s2 * 2 ^ 16 + s1)"

lemma rfc_sums_closed:
  "rfc_sums (a, s) bs = ((a + byte_sum bs) mod BASE, (s + length bs * a + weighted_sum bs) mod BASE)"
proof (induction bs arbitrary: a s rule: rev_induct)
  case (snoc b bs)
  have mod3: "(x mod BASE + (y mod BASE + z)) mod BASE = (x + (y + z)) mod BASE" for x y z
    by (metis mod_add_eq mod_add_left_eq)
  have "rfc_sums (a, s) (bs @ [b]) = rfc_byte b (rfc_sums (a, s) bs)" by (simp add: rfc_sums_def)
  also have "\<dots> = ((a + byte_sum (bs @ [b])) mod BASE,
      (s + length (bs @ [b]) * a + weighted_sum (bs @ [b])) mod BASE)"
    unfolding snoc rfc_byte_def fst_conv snd_conv mod3
    by (simp add: weighted_sum_append mod_simps algebra_simps)
  finally show ?case .
qed (simp add: rfc_sums_def)

lemma rfc_sums_append: "rfc_sums (rfc_sums s xs) ys = rfc_sums s (xs @ ys)"
proof -
  have "rfc_sums s xs = (fst (rfc_sums s xs) mod BASE, snd (rfc_sums s xs) mod BASE)"
    by (cases s) (simp add: rfc_sums_closed)
  then show ?thesis by (simp add: rfc_sums_def)
qed

definition small :: "sums \<Rightarrow> bool" where
  "small s \<longleftrightarrow> unat (fst s) < 2 ^ 16 \<and> unat (snd s) < 2 ^ 16"

abbreviation nats :: "sums \<Rightarrow> nat \<times> nat" where
  "nats s \<equiv> (unat (fst s), unat (snd s))"

lemma byte_sum_le: "byte_sum bs \<le> 255 * length bs"
  by (induction bs) (simp_all add: add_mono)

lemma weighted_sum_le: "2 * weighted_sum bs \<le> 255 * (length bs * Suc (length bs))"
proof (induction bs)
  case (Cons b bs)
  have "Suc (length bs) * unat b \<le> Suc (length bs) * 255" by (intro mult_le_mono2) simp
  with Cons show ?case by (simp add: algebra_simps)
qed simp

lemma do_bytes_no_overflow:
  assumes "small s" and "length bs \<le> NMAX"
  shows "nats (do_bytes s bs) = (unat (fst s) + byte_sum bs,
    unat (snd s) + length bs * unat (fst s) + weighted_sum bs)"
proof -
  obtain x y where s: "s = (x, y)" by (cases s)
  have xy: "unat x \<le> 65535" "unat y \<le> 65535" using assms(1) by (simp_all add: small_def s)
  have n: "length bs \<le> 5552" using assms(2) by (simp add: NMAX_def)
  have "length bs * unat x \<le> 5552 * 65535" using n xy by (intro mult_le_mono)
  moreover have "length bs * Suc (length bs) \<le> 5552 * 5553" using n by (intro mult_le_mono) simp_all
  ultimately have "unat x + byte_sum bs < 2 ^ 32"
    and "unat y + length bs * unat x + weighted_sum bs < 2 ^ 32"
    using xy n byte_sum_le [of bs] weighted_sum_le [of bs] by simp_all
  moreover have "do_bytes s bs = (of_nat (unat x + byte_sum bs),
      of_nat (unat y + length bs * unat x + weighted_sum bs))"
    by (simp add: s do_bytes_closed)
  ultimately show ?thesis by (simp add: s unat_of_nat del: of_nat_add of_nat_mult)
qed


lemma unat_BASE: "unat (of_nat BASE :: u32) = BASE"
  by (simp add: BASE_def unat_of_nat)

lemma rebase_rfc:
  assumes "small s" and "length bs \<le> NMAX" and "do_bytes s bs = (x, y)"
  shows "nats (x mod of_nat BASE, y mod of_nat BASE) = rfc_sums (nats s) bs"
  using do_bytes_no_overflow [OF assms(1,2)] assms(3)
  by (simp add: unat_mod_distrib unat_BASE rfc_sums_closed)

lemma rfc_sums_small:
  assumes "nats t = rfc_sums (nats s) bs"
  shows "small t"
  using assms mod_less_divisor [of BASE] by (auto simp: small_def rfc_sums_closed BASE_def intro: less_trans)

lemma rfc_sums_fixed: "nats t = rfc_sums (nats s) bs \<Longrightarrow> rfc_sums (nats t) [] = nats t"
  by (simp add: rfc_sums_closed)

lemma block_loop_rfc:
  assumes "small s" and "length pre + nmax \<le> NMAX" and "nmax = 8 * k" and "0 < k"
  shows "\<exists>t pre' addr' buf'.
    block_loop (do_bytes s pre) addr buf (length buf) nmax = (do_bytes t pre', addr', buf', length buf')
    \<and> small t \<and> length pre' + length buf' \<le> NMAX
    \<and> rfc_sums (nats t) (pre' @ buf') = rfc_sums (nats s) (pre @ buf)
    \<and> (buf' = [] \<longrightarrow> buf = [] \<or> pre' = [] \<and> rfc_sums (nats t) [] = nats t)"
  using assms
proof (induction "length buf" arbitrary: s pre addr buf nmax k rule: less_induct)
  case less
  show ?case
  proof (cases "nmax \<le> length buf")
    case True
    have pos: "0 < nmax" using less.prems by simp
    let ?pre = "pre @ take nmax buf"
    obtain x y where xy: "do_bytes s ?pre = (x, y)" by fastforce
    define t where "t = (x mod of_nat BASE, y mod of_nat BASE :: u32)"
    have t: "nats t = rfc_sums (nats s) ?pre"
      unfolding t_def using less.prems xy by (intro rebase_rfc) (simp_all add: True)
    note small = rfc_sums_small [OF t]
    have step: "block_loop (do_bytes s pre) addr buf (length buf) nmax =
      block_loop (do_bytes t []) (addr + nmax) (drop nmax buf) (length (drop nmax buf)) NMAX_ALIGNED8"
      using True pos less.prems(3,4) xy
      unfolding block_loop.simps [of "do_bytes s pre" addr buf "length buf" nmax]
      by (subst block_swar_loop_eq) (simp_all add: t_def)
    have nm: "length [] + NMAX_ALIGNED8 \<le> NMAX" "NMAX_ALIGNED8 = 8 * 694" "0 < (694::nat)"
      by (simp_all add: NMAX_ALIGNED8_def NMAX_def)
    have ref: "rfc_sums (nats t) ([] @ drop nmax buf) = rfc_sums (nats s) (pre @ buf)"
      unfolding t rfc_sums_append by simp
    have "length (drop nmax buf) < length buf" using True pos by simp
    from less.hyps [OF this small nm, of "addr + nmax"]
    obtain t' pre' addr' buf' where IH:
      "block_loop (do_bytes t []) (addr + nmax) (drop nmax buf) (length (drop nmax buf)) NMAX_ALIGNED8
         = (do_bytes t' pre', addr', buf', length buf')"
      "small t'" "length pre' + length buf' \<le> NMAX"
      "rfc_sums (nats t') (pre' @ buf') = rfc_sums (nats t) ([] @ drop nmax buf)"
      "buf' = [] \<longrightarrow> drop nmax buf = [] \<or> pre' = [] \<and> rfc_sums (nats t') [] = nats t'"
      by blast
    show ?thesis
    proof (cases "drop nmax buf = []")
      case True
      then have "block_loop (do_bytes s pre) addr buf (length buf) nmax
          = (do_bytes t [], addr + nmax, [], length [])"
        unfolding step block_loop.simps [of "do_bytes t []"] by (simp add: NMAX_ALIGNED8_def NMAX_def)
      moreover have "rfc_sums (nats t) ([] @ []) = rfc_sums (nats s) (pre @ buf)" using ref True by simp
      ultimately show ?thesis using small rfc_sums_fixed [OF t] by (metis add_0 le0 list.size(3))
    next
      case False
      then show ?thesis unfolding step using IH ref by metis
    qed
  next
    case False
    with less.prems show ?thesis
      unfolding block_loop.simps [of "do_bytes s pre" addr buf "length buf" nmax]
      by (intro exI [of _ s] exI [of _ pre] exI [of _ addr] exI [of _ buf]) simp
  qed
qed


lemma unat_pack:
  assumes "small s" and "length bs \<le> NMAX" and "do_bytes s bs = t"
    and "REBASE \<or> nats t = rfc_sums (nats s) bs"
  shows "unat (pack REBASE t) = (case rfc_sums (nats s) bs of (s1, s2) \<Rightarrow> s2 * 2 ^ 16 + s1)"
proof -
  obtain x y where t: "t = (x, y)" by (cases t)
  define r where "r = (if REBASE then (x mod of_nat BASE, y mod of_nat BASE) else t)"
  have r: "nats r = rfc_sums (nats s) bs"
    using assms rebase_rfc [of s bs x y] by (auto simp: r_def t)
  have "unat (fst r OR push_bit 16 (snd r)) = unat (fst r) + 2 ^ 16 * unat (snd r)"
    using rfc_sums_small [OF r] by (intro unat_or_push_bit [where n = 16]) (simp_all add: small_def)
  moreover have "pack REBASE t = fst r OR push_bit 16 (snd r)"
    by (simp add: pack_def r_def t)
  ultimately show ?thesis by (simp flip: r)
qed

lemma split_sums:
  "small (adler AND 0xffff, drop_bit 16 adler AND 0xffff)"
  "nats (adler AND 0xffff, drop_bit 16 adler AND 0xffff) = (unat adler mod 2 ^ 16, unat adler div 2 ^ 16)"
  for adler :: u32
proof -
  have m: "x AND 0xffff = take_bit 16 x" for x :: u32
    by (simp add: take_bit_eq_mask mask_eq_exp_minus_1)
  have "unat adler div 2 ^ 16 < 2 ^ 16" using unsigned_less [of adler, where ?'a = nat] by simp
  then show "nats (adler AND 0xffff, drop_bit 16 adler AND 0xffff) = (unat adler mod 2 ^ 16, unat adler div 2 ^ 16)"
    by (simp add: m unat_take_bit_mod unat_drop_bit_div)
  then show "small (adler AND 0xffff, drop_bit 16 adler AND 0xffff)"
    using \<open>unat adler div 2 ^ 16 < 2 ^ 16\<close> by (simp add: small_def)
qed

lemma adler32_c_rfc: "unat (adler32_c addr adler buf) = adler32_rfc adler buf"
proof -
  define s where "s = (adler AND 0xffff, drop_bit 16 adler AND 0xffff)"
  have s: "small s" and rfc: "adler32_rfc adler buf = (case rfc_sums (nats s) buf of (s1, s2) \<Rightarrow> s2 * 2 ^ 16 + s1)"
    using split_sums [of adler] by (simp_all add: s_def adler32_rfc_def)
  show ?thesis
  proof (cases "length buf < 16")
    case True
    then have "adler32_c addr adler buf = fst (adler32_copy_tail s [] addr buf (length buf) True False)"
      by (simp add: adler32_c_def s_def Let_def)
    with True s show ?thesis
      by (simp add: adler32_copy_tail_eq rfc unat_pack [OF s _ refl] NMAX_def)
  next
    case False
    define ad where "ad = ALIGN_DIFF addr 8"
    define nmax where "nmax = ALIGN_DOWN (NMAX_ALIGNED8 - ad) 8"
    have ad: "ad < 8" by (simp add: ad_def ALIGN_DIFF_8)
    then obtain k where k: "nmax = 8 * k" "0 < k" "ad + nmax \<le> NMAX"
      by (intro that [of "(5552 - ad) div 8"])
         (simp_all add: nmax_def ALIGN_DOWN_8 NMAX_ALIGNED8_def NMAX_def)
    have n0: "ad = 0 \<Longrightarrow> nmax = NMAX_ALIGNED8"
      by (simp add: nmax_def ALIGN_DOWN_8 NMAX_ALIGNED8_def)
    let ?s = "do_bytes s (take ad buf)" and ?buf = "drop ad buf"
    have align: "fst (adler32_copy_align s [] buf ad False) = ?s"
      using ad False by (subst adler32_copy_align_eq) simp_all
    have "small s" "length (take ad buf) + nmax \<le> NMAX" using s k ad False by simp_all
    from block_loop_rfc [OF this k(1,2), of "addr + ad" ?buf] obtain t pre' addr' buf' where
      loop: "block_loop ?s (addr + ad) ?buf (length ?buf) nmax = (do_bytes t pre', addr', buf', length buf')"
      and t: "small t" "length pre' + length buf' \<le> NMAX"
        "rfc_sums (nats t) (pre' @ buf') = rfc_sums (nats s) (take ad buf @ ?buf)"
        "buf' = [] \<longrightarrow> ?buf = [] \<or> pre' = [] \<and> rfc_sums (nats t) [] = nats t"
      by blast
    have "adler32_c addr adler buf =
      fst (adler32_copy_tail (do_bytes t pre') [] addr' buf' (length buf') (length buf' \<noteq> 0) False)"
      using False loop align n0
      by (cases "ad = 0") (simp_all add: adler32_c_def Let_def flip: s_def ad_def nmax_def)
    also have "\<dots> = pack (length buf' \<noteq> 0) (do_bytes t (pre' @ buf'))"
      by (simp add: adler32_copy_tail_eq)
    finally have pack: "adler32_c addr adler buf = pack (length buf' \<noteq> 0) (do_bytes t (pre' @ buf'))" .
    have "unat (adler32_c addr adler buf)
      = (case rfc_sums (nats t) (pre' @ buf') of (s1, s2) \<Rightarrow> s2 * 2 ^ 16 + s1)"
      unfolding pack using t ad False by (intro unat_pack) auto
    then show ?thesis unfolding t(3) by (simp add: rfc)
  qed
qed


section \<open>Combining two checksums\<close>

lemma cond_subtract:
  assumes "x < 2 ^ 32" and "c < 2 ^ 32"
  shows "(if (of_nat c :: u32) \<le> of_nat x then of_nat x - of_nat c else of_nat x) =
    (of_nat (if c \<le> x then x - c else x) :: u32)"
proof -
  have "(of_nat c :: u32) \<le> of_nat x \<longleftrightarrow> c \<le> x"
    using assms by (simp add: word_le_nat_alt unat_of_nat)
  then show ?thesis by (simp add: of_nat_diff)
qed

lemma reduce_twice:
  fixes x m :: nat
  assumes "x < 3 * m"
  shows "(let y = (if m \<le> x then x - m else x) in if m \<le> y then y - m else y) = x mod m"
proof -
  consider "x < m" | "m \<le> x" "x < 2 * m" | "2 * m \<le> x" by linarith
  then show ?thesis
    using assms by cases (auto simp: Let_def le_mod_geq)
qed

lemma reduce_double:
  fixes x m :: nat
  assumes "x < 4 * m"
  shows "(let y = (if 2 * m \<le> x then x - 2 * m else x) in if m \<le> y then y - m else y) = x mod m"
proof -
  consider "x < m" | "m \<le> x" "x < 2 * m" | "2 * m \<le> x" "x < 3 * m" | "3 * m \<le> x" by linarith
  then show ?thesis
    using assms by cases (auto simp: Let_def le_mod_geq)
qed

text \<open>The combination on the four reduced halves, as natural numbers.\<close>

lemma adler32_combine_halves:
  assumes "a1 < BASE" "b1 < BASE" "a2 < BASE" "b2 < BASE"
    and "unat adler1 = b1 * 2 ^ 16 + a1" and "unat adler2 = b2 * 2 ^ 16 + a2"
  shows "unat (adler32_combine adler1 adler2 (int n)) =
    ((n mod BASE * a1) mod BASE + (b1 + b2 + BASE - n mod BASE)) mod BASE * 2 ^ 16
      + (a1 + (a2 + BASE - 1)) mod BASE"
proof -
  define r where "r = n mod BASE"
  have r: "r < BASE" by (simp add: r_def BASE_def)
  have "unat adler1 mod 2 ^ 16 = a1" "unat adler1 div 2 ^ 16 = b1"
    "unat adler2 mod 2 ^ 16 = a2" "unat adler2 div 2 ^ 16 = b2"
    using assms by (simp_all add: BASE_def)
  then have halves: "adler1 AND 0xffff = of_nat a1" "drop_bit 16 adler1 AND 0xffff = of_nat b1"
    "adler2 AND 0xffff = of_nat a2" "drop_bit 16 adler2 AND 0xffff = of_nat b2"
    using split_sums(2) [of adler1] split_sums(2) [of adler2] by (metis Pair_inject fst_conv snd_conv of_nat_unat ucast_id)+
  have rem: "of_int (int n mod int BASE) = (of_nat r :: u32)"
    unfolding r_def by (metis of_int_of_nat_eq of_nat_mod)
  define q where "q = (r * a1) mod BASE"
  define x1 where "x1 = a1 + (a2 + BASE - 1)"
  define x2 where "x2 = q + (b1 + b2 + BASE - r)"
  have q: "q < BASE" by (simp add: q_def BASE_def)
  have "r * a1 \<le> 65520 * 65520" using r assms(1) by (intro mult_le_mono) (simp_all add: BASE_def)
  moreover have "q < 2 ^ 32" using q by (simp add: BASE_def)
  ultimately have m: "(of_nat r * of_nat a1) mod of_nat BASE = (of_nat q :: u32)"
    by (intro word_unat_eq_iff [THEN iffD2])
       (simp add: unat_mod_distrib unat_BASE unat_of_nat q_def BASE_def flip: of_nat_mult)
  have x1: "of_nat a1 + (of_nat a2 + of_nat BASE - 1) = (of_nat x1 :: u32)"
    by (simp add: x1_def of_nat_diff BASE_def)
  have x2: "of_nat q + (of_nat b1 + of_nat b2 + of_nat BASE - of_nat r) = (of_nat x2 :: u32)"
    using r by (simp add: x2_def of_nat_diff)
  have lt: "x1 < 3 * BASE" "x2 < 4 * BASE" "x1 < 2 ^ 32" "x2 < 2 ^ 32"
    using assms(1-4) q by (simp_all add: x1_def x2_def BASE_def)
  have double: "push_bit 1 (of_nat BASE :: u32) = of_nat (2 * BASE)" by (simp add: BASE_def)
  have sub: "(if (of_nat c :: u32) \<le> of_nat x then of_nat x - of_nat c else of_nat x) =
    (of_nat (if c \<le> x then x - c else x) :: u32)" if "x < 4 * BASE" "c \<le> 2 * BASE" for x c
    using that by (intro cond_subtract) (simp_all add: BASE_def)
  have y: "(if BASE \<le> x1 then x1 - BASE else x1) < 4 * BASE"
    "(if 2 * BASE \<le> x2 then x2 - 2 * BASE else x2) < 4 * BASE" "x1 < 4 * BASE"
    using lt by auto
  have le: "BASE \<le> 2 * BASE" "2 * BASE \<le> 2 * BASE" by simp_all
  have "adler32_combine adler1 adler2 (int n) = of_nat (x1 mod BASE) OR push_bit 16 (of_nat (x2 mod BASE))"
    unfolding adler32_combine_def Let_def halves rem m x1 x2 double sub [OF y(3) le(1)]
      sub [OF y(1) le(1)] sub [OF lt(2) le(2)] sub [OF y(2) le(1)]
      reduce_twice [OF lt(1), unfolded Let_def] reduce_double [OF lt(2), unfolded Let_def]
    by simp
  also have "unat \<dots> = x1 mod BASE + 2 ^ 16 * (x2 mod BASE)"
  proof -
    have "y mod BASE < 2 ^ 16" "y mod BASE < 2 ^ 32" for y
      using mod_less_divisor [of BASE y] by (simp_all add: BASE_def)
    then have "unat (of_nat (y mod BASE) :: u32) = y mod BASE" "y mod BASE < 2 ^ 16" for y
      by (simp_all add: unat_of_nat)
    then show ?thesis using unat_or_push_bit [of "of_nat (x1 mod BASE) :: u32" 16 "of_nat (x2 mod BASE)" 16] by simp
  qed
  finally show ?thesis by (simp add: x1_def x2_def q_def r_def)
qed


lemma rfc_sums_less: "fst (rfc_sums s bs) < BASE" "snd (rfc_sums s bs) < BASE"
  by (cases s; simp add: rfc_sums_closed BASE_def)+

lemma adler32_rfc_halves:
  "unat (adler32_c addr adler bs) =
     snd (rfc_sums (unat adler mod 2 ^ 16, unat adler div 2 ^ 16) bs) * 2 ^ 16
   + fst (rfc_sums (unat adler mod 2 ^ 16, unat adler div 2 ^ 16) bs)"
  by (simp add: adler32_c_rfc adler32_rfc_def case_prod_beta)


lemma adler32_update_append:
  "adler32_c q (adler32_c p adler xs) ys = adler32_c r adler (xs @ ys)"
proof -
  let ?s = "(unat adler mod 2 ^ 16, unat adler div 2 ^ 16)"
  let ?c = "adler32_c p adler xs"
  have "fst (rfc_sums ?s xs) < 2 ^ 16" "snd (rfc_sums ?s xs) < 2 ^ 16"
    using rfc_sums_less [of ?s xs] by (simp_all add: BASE_def)
  then have "(unat ?c mod 2 ^ 16, unat ?c div 2 ^ 16) = rfc_sums ?s xs"
    by (simp add: adler32_rfc_halves prod_eq_iff)
  then have "unat (adler32_c q ?c ys) = unat (adler32_c r adler (xs @ ys))"
    by (simp only: adler32_rfc_halves rfc_sums_append)
  then show ?thesis by (simp only: word_unat_eq_iff)
qed

lemma adler32_combine_concat:
  "adler32_combine (adler32_c p adler xs) (adler32_c q ADLER32_INITIAL_VALUE ys) (int (length ys))
     = adler32_c r adler (xs @ ys)"
proof -
  define s where "s = rfc_sums (unat adler mod 2 ^ 16, unat adler div 2 ^ 16) xs"
  define t where "t = rfc_sums (1, 0) ys"
  have s: "fst s < BASE" "snd s < BASE" "fst t < BASE" "snd t < BASE"
    unfolding s_def t_def by (rule rfc_sums_less)+
  have c1: "unat (adler32_c p adler xs) = snd s * 2 ^ 16 + fst s"
    by (simp add: adler32_rfc_halves s_def)
  have c2: "unat (adler32_c q ADLER32_INITIAL_VALUE ys) = snd t * 2 ^ 16 + fst t"
    by (simp add: adler32_rfc_halves t_def ADLER32_INITIAL_VALUE_def)
  let ?n = "length ys"
  have t: "t = ((1 + byte_sum ys) mod BASE, (?n + weighted_sum ys) mod BASE)"
    by (simp add: t_def rfc_sums_closed)
  have u: "rfc_sums s ys = ((fst s + byte_sum ys) mod BASE, (snd s + ?n * fst s + weighted_sum ys) mod BASE)"
    by (cases s) (simp add: rfc_sums_closed)
  have f: "(fst s + (fst t + BASE - 1)) mod BASE = fst (rfc_sums s ys)"
  proof -
    have "fst s + (fst t + BASE - 1) = fst s + (BASE - 1) + fst t" by (simp add: BASE_def)
    also have "\<dots> mod BASE = (fst s + (BASE - 1) + (1 + byte_sum ys)) mod BASE"
      unfolding t by (simp add: mod_simps)
    also have "fst s + (BASE - 1) + (1 + byte_sum ys) = (fst s + byte_sum ys) + BASE"
      by (simp add: BASE_def)
    finally show ?thesis by (simp add: u)
  qed
  have g: "((?n mod BASE * fst s) mod BASE + (snd s + snd t + BASE - ?n mod BASE)) mod BASE = snd (rfc_sums s ys)"
  proof -
    let ?r = "?n mod BASE"
    have r: "?r < BASE" by (simp add: BASE_def)
    have "(?r * fst s) mod BASE + (snd s + snd t + BASE - ?r)
      = (?r * fst s) mod BASE + ((snd s + (BASE - ?r)) + snd t)" using r by simp
    also have "\<dots> mod BASE = (?n * fst s + ((snd s + (BASE - ?r)) + (?n + weighted_sum ys))) mod BASE"
      unfolding t by (intro mod_add_cong) (simp_all add: mod_simps)
    also have "\<dots> = (?n * fst s + ((snd s + (BASE - ?r)) + (?r + weighted_sum ys))) mod BASE"
      by (intro mod_add_cong) (simp_all add: mod_simps)
    also have "?n * fst s + ((snd s + (BASE - ?r)) + (?r + weighted_sum ys))
      = (snd s + ?n * fst s + weighted_sum ys) + BASE" using r by simp
    finally show ?thesis by (simp add: u)
  qed
  have "unat (adler32_combine (adler32_c p adler xs) (adler32_c q ADLER32_INITIAL_VALUE ys) (int ?n))
    = unat (adler32_c r adler (xs @ ys))"
    unfolding adler32_combine_halves [OF s c1 c2] f g adler32_rfc_halves
    by (simp add: s_def rfc_sums_append)
  then show ?thesis by (simp only: word_unat_eq_iff)
qed

interpretation adler: combinable_checksum "adler32_c addr" ADLER32_INITIAL_VALUE adler32_combine for addr
  by unfold_locales (rule adler32_update_append, rule adler32_combine_concat)

section \<open>Properties\<close>

text \<open>
  C11: for every start address, every incoming checksum and every buffer, \<open>adler32_c\<close>
  returns the Adler-32 of RFC 1950, although it reduces the sums only once per 5552 bytes and
  adds the bytes in 16-bit lanes.
\<close>

theorem adler32_c_correct: "unat (adler32_c addr adler buf) = adler32_rfc adler buf"
  by (rule adler32_c_rfc)

text \<open>
  C14: \<open>adler32_combine\<close> of the checksums of two pieces, the second started afresh, is the
  checksum of their concatenation.
\<close>

theorem adler32_combine_correct:
  "adler32_combine (adler32_c p adler xs) (adler32_c q ADLER32_INITIAL_VALUE ys) (int (length ys))
     = adler32_c r adler (xs @ ys)"
  by (rule adler32_combine_concat)

text \<open>
  C15: on a chunk of at most 184 bytes, a multiple of eight, the lane arithmetic of
  \<open>adler32_swar\<close> leaves exactly the 32-bit sums of the byte loop, whether it only reads the chunk, as \<open>adler32_c\<close> has it do, or also copies it.
\<close>

theorem adler32_swar_correct:
  assumes "8 dvd len" and "len \<le> ADLER32_SWAR_MAX_BYTES" and "len \<le> length buf"
  shows "adler32_swar s dst buf len COPY = (do_bytes s (take len buf), if COPY then dst @ take len buf else dst)"
proof -
  from assms(1) obtain n where "len = 8 * n" by (auto elim: dvdE)
  with assms show ?thesis
    using adler32_swar_eq [of len n buf s dst COPY] by (simp add: ADLER32_SWAR_MAX_BYTES_def)
qed

theorem adler32_swar_witness:
  "adler32_swar (1, 0) [] (replicate 16 255) 16 False = (do_bytes (1, 0) (replicate 16 255), [])
    \<and> adler32_swar (1, 0) [] (replicate 16 255) 16 True = (do_bytes (1, 0) (replicate 16 255), replicate 16 255)"
  using adler32_swar_correct [of 16 "replicate 16 255" "(1, 0)" "[]" False] adler32_swar_correct [of 16 "replicate 16 255" "(1, 0)" "[]" True]
  by (simp add: ADLER32_SWAR_MAX_BYTES_def)

text \<open>
  C19: feeding \<open>adler32_c\<close> a stream in any non-empty sequence of pieces gives the checksum of the whole stream.
\<close>

theorem adler32_pieces:
  "fold (\<lambda>xs c. adler32_c addr c xs) (xs # pieces) adler = adler32_c addr adler (concat (xs # pieces))"
  by (rule adler.update_pieces) simp

end
