(* ===== verification/Crc32_Poly.thy ===== *)
theory Crc32_Poly
  imports Checksum
begin

text \<open>
  The polynomial arithmetic of the CRC-32 code (crc32_braid_comb_p.h). A 32-bit word stands
  for a polynomial over GF(2) modulo the CRC polynomial, with the lowest power in the most
  significant bit; \<open>xtimes\<close> multiplies by x. The lemmas show that \<open>multmodp\<close> is that
  multiplication (and diverges exactly on a zero first factor), that the table of the powers
  \<open>x ^ 2 ^ n\<close> is the generated one, and that \<open>x2nmodp\<close> is a power of x.
\<close>

section \<open>Multiplication modulo the CRC polynomial (crc32_braid_comb_p.h)\<close>

definition POLY :: u32 where "POLY = 0xedb88320"

definition xtimes :: "u32 \<Rightarrow> u32" where
  "xtimes b = (if b AND 1 \<noteq> 0 then drop_bit 1 b XOR POLY else drop_bit 1 b)"

text \<open>The endless loop of \<^verbatim>\<open>multmodp\<close>; \<open>None\<close> is not returning.\<close>

partial_function (option) multmodp_loop :: "u32 \<Rightarrow> u32 \<Rightarrow> u32 \<Rightarrow> u32 \<Rightarrow> u32 option" where
  "multmodp_loop a m p b =
     (if a AND m \<noteq> 0 then
        if a AND (m - 1) = 0 then Some (p XOR b)
        else multmodp_loop a (drop_bit 1 m) (p XOR b) (xtimes b)
      else multmodp_loop a (drop_bit 1 m) p (xtimes b))"

definition multmodp :: "u32 \<Rightarrow> u32 \<Rightarrow> u32 option" where
  "multmodp a b = multmodp_loop a (push_bit 31 1) 0 b"

section \<open>The table of powers (crc32_braid_tbl.h) and x2nmodp\<close>

definition x2n_table :: "u32 list" where
  "x2n_table = [
    0x40000000, 0x20000000, 0x8000000, 0x800000, 0x8000, 0xedb88320, 0xb1e6b092, 0xa06a2517,
    0xed627dae, 0x88d14467, 0xd7bbfe6a, 0xec447f11, 0x8e7ea170, 0x6427800e, 0x4d47bae0, 0x9fe548f,
    0x83852d0f, 0x30362f1a, 0x7b5a9cc3, 0x31fec169, 0x9fec022a, 0x6c8dedc4, 0x15d6874d, 0x5fde7a4e,
    0xbad90e37, 0x2e4e5eef, 0x4eaba214, 0xa8a472c0, 0x429a969e, 0x148d302a, 0xc40ba6d0, 0xc4e22c3c]"

text \<open>
  \<^verbatim>\<open>x2nmodp\<close>. The counter \<open>n\<close> is a signed 64-bit offset; a negative one never becomes zero
  under the arithmetic shift, so the loop diverges there.
\<close>

partial_function (option) x2nmodp_loop :: "int \<Rightarrow> nat \<Rightarrow> u32 \<Rightarrow> u32 option" where
  "x2nmodp_loop n k p =
     (if n = 0 then Some p
      else Option.bind (if n AND 1 \<noteq> 0 then multmodp (x2n_table ! (k AND 31)) p else Some p)
        (x2nmodp_loop (drop_bit 1 n) (k + 1)))"

definition x2nmodp :: "int \<Rightarrow> nat \<Rightarrow> u32 option" where
  "x2nmodp n k = x2nmodp_loop n k (push_bit 31 1)"

text \<open>The part of \<^verbatim>\<open>make_crc_table\<close> of utils/makecrct.c that fills \<^verbatim>\<open>x2n_table\<close>.\<close>

primrec make_x2n_rest :: "nat \<Rightarrow> u32 \<Rightarrow> u32 list option" where
  "make_x2n_rest 0 p = Some []"
| "make_x2n_rest (Suc n) p =
     Option.bind (multmodp p p) (\<lambda>q. map_option ((#) q) (make_x2n_rest n q))"

definition make_x2n_table :: "u32 list option" where
  "make_x2n_table = map_option ((#) (push_bit 30 1)) (make_x2n_rest 31 (push_bit 30 1))"

section \<open>xtimes is linear\<close>

lemma xtimes_0 [simp]: "xtimes 0 = 0"
  by (simp add: xtimes_def)

lemma xtimes_bit: "xtimes b = (if bit b 0 then drop_bit 1 b XOR POLY else drop_bit 1 b)"
  by (simp add: xtimes_def and_1_iff)

lemma xtimes_xor: "xtimes (a XOR b) = xtimes a XOR xtimes b"
  by (simp add: xtimes_bit bit_xor_iff drop_bit_xor ac_simps)

lemma xtimes_pow_0 [simp]: "(xtimes ^^ n) 0 = 0"
  by (induction n) simp_all

lemma xtimes_pow_xor: "(xtimes ^^ n) (a XOR b) = (xtimes ^^ n) a XOR (xtimes ^^ n) b"
  by (induction n arbitrary: a b) (simp_all add: xtimes_xor)

lemma xtimes_shift:
  assumes "take_bit n a = 0"
  shows "(xtimes ^^ n) a = drop_bit n a"
  using assms
proof (induction n arbitrary: a)
  case (Suc n)
  have "\<not> bit a 0" using Suc.prems by (metis bit_take_bit_iff bit_0_eq bot_apply bot_bool_def zero_less_Suc)
  then have "xtimes a = drop_bit 1 a" by (simp add: xtimes_bit)
  moreover have "take_bit n (drop_bit 1 a) = 0" using Suc.prems by (simp add: take_bit_drop_bit)
  ultimately show ?case by (simp add: funpow_Suc_right Suc.IH del: funpow.simps)
qed simp

section \<open>Multiplication as a linear combination of powers of x\<close>

definition x_power :: "nat \<Rightarrow> u32" where
  "x_power j = push_bit (31 - j) 1"

definition mult_terms :: "nat list \<Rightarrow> u32 \<Rightarrow> u32 \<Rightarrow> u32" where
  "mult_terms js a b = foldr (\<lambda>j p. (if bit a (31 - j) then (xtimes ^^ j) b else 0) XOR p) js 0"

abbreviation mulx :: "u32 \<Rightarrow> u32 \<Rightarrow> u32" where
  "mulx \<equiv> mult_terms [0..<32]"

lemma mult_terms_Nil [simp]: "mult_terms [] a b = 0"
  by (simp add: mult_terms_def)

lemma mult_terms_Cons [simp]:
  "mult_terms (j # js) a b = (if bit a (31 - j) then (xtimes ^^ j) b else 0) XOR mult_terms js a b"
  by (simp add: mult_terms_def)

lemma mult_terms_xor_left: "mult_terms js (a XOR a') b = mult_terms js a b XOR mult_terms js a' b"
  by (induction js) (simp_all add: bit_xor_iff ac_simps)

lemma mult_terms_xor_right: "mult_terms js a (b XOR b') = mult_terms js a b XOR mult_terms js a b'"
  by (induction js) (simp_all add: xtimes_pow_xor ac_simps)

lemma xtimes_pow_pow: "(xtimes ^^ m) ((xtimes ^^ n) b) = (xtimes ^^ (m + n)) b"
  by (simp add: funpow_add)

lemma mult_terms_xtimes: "mult_terms js a ((xtimes ^^ n) b) = (xtimes ^^ n) (mult_terms js a b)"
  by (induction js) (simp_all add: xtimes_pow_xor xtimes_pow_pow add.commute)

lemma mult_terms_no_bits: "(\<And>j. j \<in> set js \<Longrightarrow> \<not> bit a (31 - j)) \<Longrightarrow> mult_terms js a b = 0"
  by (induction js) simp_all

lemma bit_x_power: "bit (x_power j) n \<longleftrightarrow> n = 31 - j"
  by (auto simp: x_power_def bit_simps)

lemma mulx_x_power: "j < 32 \<Longrightarrow> mulx (x_power j) b = (xtimes ^^ j) b"
proof -
  assume j: "j < 32"
  have "mult_terms js (x_power j) b = (if j \<in> set js then (xtimes ^^ j) b else 0)"
    if "distinct js" "set js \<subseteq> {..<32}" for js
    using that
  proof (induction js)
    case (Cons i js)
    have "31 - i = 31 - j \<longleftrightarrow> i = j" using Cons.prems j by auto
    with Cons show ?case by (auto simp: bit_x_power)
  qed simp
  from this [of "[0..<32]"] show ?thesis using j by (simp add: atLeast0LessThan)
qed

lemma xtimes_x_power: "Suc j < 32 \<Longrightarrow> xtimes (x_power j) = x_power (Suc j)"
proof -
  assume j: "Suc j < 32"
  then have "\<not> bit (x_power j) 0" by (simp add: bit_x_power)
  then have "xtimes (x_power j) = drop_bit 1 (x_power j)" by (simp add: xtimes_bit)
  also have "\<dots> = x_power (Suc j)"
    using j by (intro bit_word_eqI) (auto simp: bit_drop_bit_eq bit_x_power)
  finally show ?thesis .
qed

lemma xtimes_pow_one: "j < 32 \<Longrightarrow> (xtimes ^^ j) (x_power 0) = x_power j"
  by (induction j) (simp_all add: xtimes_x_power)

text \<open>Every word is a sum of powers of x.\<close>

lemma x_power_induct [case_names zero power xor]:
  fixes a :: u32
  assumes "P 0" and "\<And>j. j < 32 \<Longrightarrow> P (x_power j)" and xor: "\<And>a b. P a \<Longrightarrow> P b \<Longrightarrow> P (a XOR b)"
  shows "P a"
proof -
  have "P a" if "\<forall>i < 32. bit a i \<longrightarrow> 32 \<le> i + n" and "n \<le> 32" for n
    using that
  proof (induction n arbitrary: a)
    case 0
    then have "a = 0" by (intro bit_word_eqI) auto
    with assms(1) show ?case by simp
  next
    case (Suc n)
    have P: "P b" if "\<forall>i < 32. bit b i \<longrightarrow> 32 \<le> i + n" for b
      using Suc.IH [OF that] Suc.prems by simp
    show ?case
    proof (cases "bit a (31 - n)")
      case True
      let ?b = "a XOR x_power n"
      have "32 \<le> i + n" if "i < 32" "bit ?b i" for i
        using that Suc.prems True by (cases "i = 31 - n") (auto simp: bit_xor_iff bit_x_power not_less_eq_eq le_Suc_eq)
      then have "P ?b" by (intro P) blast
      moreover have "P (x_power n)" using Suc.prems by (intro assms(2)) simp
      ultimately have "P (?b XOR x_power n)" by (rule xor)
      then show ?thesis by (simp add: ac_simps)
    next
      case False
      have "32 \<le> i + n" if "i < 32" "bit a i" for i
        using that Suc.prems False by (cases "i = 31 - n") (auto simp: le_Suc_eq)
      then show ?thesis by (intro P) auto
    qed
  qed
  from this [of 32] show ?thesis by simp
qed

lemma mulx_one_right: "mulx a (x_power 0) = a"
proof (induction a rule: x_power_induct)
  case zero
  show ?case by (rule mult_terms_no_bits) simp
next
  case (power j)
  then show ?case by (simp add: mulx_x_power xtimes_pow_one)
next
  case (xor a b)
  then show ?case by (simp only: mult_terms_xor_left)
qed


lemma x_power_poly: "xtimes (x_power 31) = POLY"
  by (simp add: x_power_def xtimes_def)

lemma xtimes_pow_32: "(xtimes ^^ 32) b = mulx POLY b"
proof (induction b rule: x_power_induct)
  case zero
  show ?case using mult_terms_xtimes [of "[0..<32]" POLY 0 0] mult_terms_xor_right [of _ POLY 0 0] by simp
next
  case (power j)
  have "(xtimes ^^ 32) (x_power j) = (xtimes ^^ 32) ((xtimes ^^ j) (x_power 0))"
    using power by (simp only: xtimes_pow_one)
  also have "\<dots> = (xtimes ^^ j) ((xtimes ^^ Suc 31) (x_power 0))"
    by (simp only: xtimes_pow_pow add.commute numeral_nat)
  also have "(xtimes ^^ Suc 31) (x_power 0) = mulx POLY (x_power 0)"
    unfolding funpow.simps o_apply using xtimes_pow_one [of 31] by (simp add: x_power_poly mulx_one_right)
  also have "(xtimes ^^ j) (mulx POLY (x_power 0)) = mulx POLY (x_power j)"
    using power by (simp only: xtimes_pow_one flip: mult_terms_xtimes)
  finally show ?case .
next
  case (xor a b)
  then show ?case by (simp only: xtimes_pow_xor mult_terms_xor_right)
qed

lemma mulx_xtimes_left: "mulx (xtimes a) b = xtimes (mulx a b)"
proof (induction a rule: x_power_induct)
  case zero
  have "mulx 0 b = 0" by (rule mult_terms_no_bits) simp
  then show ?case by simp
next
  case (power j)
  show ?case
  proof (cases "Suc j < 32")
    case True
    then show ?thesis by (simp add: xtimes_x_power mulx_x_power)
  next
    case False
    with power have j: "j = 31" by simp
    have "xtimes ((xtimes ^^ 31) b) = (xtimes ^^ Suc 31) b" by (simp only: funpow.simps o_apply)
    also have "\<dots> = mulx POLY b" using xtimes_pow_32 [of b] by (simp only: numeral_nat)
    finally show ?thesis by (simp only: j x_power_poly mulx_x_power)
  qed
next
  case (xor a a')
  then show ?case by (simp only: mult_terms_xor_left xtimes_xor)
qed

theorem mulx_power: "mulx ((xtimes ^^ n) (x_power 0)) b = (xtimes ^^ n) b"
  by (induction n) (simp_all add: mulx_xtimes_left mulx_x_power)

section \<open>multmodp\<close>

lemma multmodp_low_bits:
  assumes "j < 32"
  shows "a AND (x_power j - 1) = 0 \<longleftrightarrow> (\<forall>i. j < i \<and> i < 32 \<longrightarrow> \<not> bit a (31 - i))"
proof -
  have "a AND (x_power j - 1) = take_bit (31 - j) a"
    by (simp add: x_power_def take_bit_eq_mask mask_eq_exp_minus_1 push_bit_eq_mult)
  moreover have "take_bit (31 - j) a = 0 \<longleftrightarrow> (\<forall>k < 31 - j. \<not> bit a k)"
    by (auto simp: bit_eq_iff bit_take_bit_iff)
  moreover have "(\<forall>k < 31 - j. \<not> bit a k) \<longleftrightarrow> (\<forall>i. j < i \<and> i < 32 \<longrightarrow> \<not> bit a (31 - i))"
  proof (intro iffI allI impI)
    fix k assume "\<forall>i. j < i \<and> i < 32 \<longrightarrow> \<not> bit a (31 - i)" "k < 31 - j"
    moreover from this have "j < 31 - k" "31 - k < 32" "31 - (31 - k) = k" by linarith+
    ultimately show "\<not> bit a k" by metis
  qed auto
  ultimately show ?thesis by simp
qed

lemma multmodp_loop_terms:
  assumes "j < 32" and "\<exists>i. j \<le> i \<and> i < 32 \<and> bit a (31 - i)"
  shows "multmodp_loop a (x_power j) p ((xtimes ^^ j) b) = Some (p XOR mult_terms [j..<32] a b)"
  using assms
proof (induction "32 - j" arbitrary: j p)
  case (Suc d)
  have up: "[j..<32] = j # [Suc j..<32]" using Suc.prems by (simp add: upt_conv_Cons)
  have m: "a AND x_power j \<noteq> 0 \<longleftrightarrow> bit a (31 - j)"
    by (simp add: x_power_def push_bit_eq_mult and_exp_eq_0_iff_not_bit)
  have low: "a AND (x_power j - 1) = 0 \<longleftrightarrow> (\<forall>i. j < i \<and> i < 32 \<longrightarrow> \<not> bit a (31 - i))"
    using Suc.prems(1) by (rule multmodp_low_bits)
  have half: "drop_bit 1 (x_power j) = x_power (Suc j)" if "Suc j < 32"
    using that by (intro bit_word_eqI) (auto simp: bit_drop_bit_eq bit_x_power)
  have pow: "xtimes ((xtimes ^^ j) b) = (xtimes ^^ Suc j) b" by simp
  show ?case
  proof (cases "\<exists>i. Suc j \<le> i \<and> i < 32 \<and> bit a (31 - i)")
    case True
    then have "Suc j < 32" by auto
    with True Suc.hyps have IH: "multmodp_loop a (x_power (Suc j)) q ((xtimes ^^ Suc j) b)
        = Some (q XOR mult_terms [Suc j..<32] a b)" for q
      by (intro Suc.hyps(1)) auto
    have "a AND (x_power j - 1) \<noteq> 0" using True low by auto
    then show ?thesis
      unfolding multmodp_loop.simps [of a "x_power j"] half [OF \<open>Suc j < 32\<close>] pow IH up
      by (simp add: m ac_simps)
  next
    case False
    then have "a AND (x_power j - 1) = 0" "bit a (31 - j)"
      using low Suc.prems by (auto simp: Suc_le_eq le_less)
    moreover have "mult_terms [Suc j..<32] a b = 0"
      using False by (intro mult_terms_no_bits) auto
    ultimately show ?thesis
      unfolding multmodp_loop.simps [of a "x_power j"] up by (simp add: m)
  qed
qed simp

lemma multmodp_mulx: "a \<noteq> 0 \<Longrightarrow> multmodp a b = Some (mulx a b)"
proof -
  assume "a \<noteq> 0"
  then obtain n where n: "bit a n" using bit_eq_iff [of a 0] by auto
  then have "n < 32" using bit_imp_le_length [of a n] by simp
  with n have "0 \<le> 31 - n \<and> 31 - n < 32 \<and> bit a (31 - (31 - n))" by simp
  then show ?thesis
    using multmodp_loop_terms [of 0 a 0 b] by (auto simp: multmodp_def x_power_def)
qed


lemma xtimes_eq_0: "xtimes a = 0 \<longleftrightarrow> a = 0"
proof
  assume x: "xtimes a = 0"
  have "\<not> bit a 0"
  proof
    assume "bit a 0"
    then have "drop_bit 1 a = POLY" using x by (simp add: xtimes_bit xor_eq_0_iff)
    moreover have "\<not> bit (drop_bit 1 a) 31"
      using bit_imp_le_length [of a 32] by (auto simp: bit_drop_bit_eq)
    moreover have "bit POLY 31" by (simp add: POLY_def)
    ultimately show False by simp
  qed
  moreover from this have "drop_bit 1 a = 0" using x by (simp add: xtimes_bit)
  then have "\<not> bit (drop_bit 1 a) n" for n by simp
  then have "\<not> bit a (Suc n)" for n by (simp add: bit_drop_bit_eq)
  ultimately have "\<not> bit a n" for n by (cases n) simp_all
  then show "a = 0" by (intro bit_word_eqI) simp
qed simp

lemma xtimes_pow_eq_0: "(xtimes ^^ n) a = 0 \<longleftrightarrow> a = 0"
  by (induction n) (simp_all add: xtimes_eq_0)

lemma multmodp_power:
  "multmodp ((xtimes ^^ n) (x_power 0)) b = Some ((xtimes ^^ n) b)"
proof -
  have "x_power 0 \<noteq> 0" by (simp add: x_power_def)
  then have "(xtimes ^^ n) (x_power 0) \<noteq> 0" by (simp only: xtimes_pow_eq_0 not_False_eq_True)
  from multmodp_mulx [OF this] show ?thesis by (simp only: mulx_power)
qed

text \<open>With a zero factor no bit is ever found: every iterate of the loop is defined only by the next.\<close>

lemma multmodp_zero_diverges: "multmodp 0 b = None"
proof -
  have "multmodp_loop 0 m p b = None" for m p b
  proof -
    have "a \<noteq> 0" if "multmodp_loop a m p b = Some r" for a m p b r
      by (rule multmodp_loop.raw_induct [of "\<lambda>a m p b r. a \<noteq> 0", OF _ that]) (auto split: if_splits)
    then show ?thesis by (metis not_None_eq)
  qed
  then show ?thesis by (simp add: multmodp_def)
qed

section \<open>The x2n table and x2nmodp\<close>

lemma make_x2n_rest_power:
  "make_x2n_rest n ((xtimes ^^ m) (x_power 0)) =
     Some (map (\<lambda>i. (xtimes ^^ (m * 2 ^ Suc i)) (x_power 0)) [0..<n])"
proof (induction n arbitrary: m)
  case (Suc n)
  have "[0..<Suc n] = 0 # map Suc [0..<n]" by (simp add: upt_conv_Cons map_Suc_upt del: upt_Suc)
  moreover have "(m + m) * 2 ^ Suc i = m * 2 ^ Suc (Suc i)" for i by simp
  moreover have "m + m = m * 2 ^ Suc 0" by simp
  ultimately show ?case
    by (simp only: make_x2n_rest.simps multmodp_power xtimes_pow_pow Suc.IH Option.bind.simps option.map list.map
        map_map o_def)
qed simp

lemma make_x2n_rest_numeral:
  "make_x2n_rest (numeral n) p =
     Option.bind (multmodp p p) (\<lambda>q. map_option ((#) q) (make_x2n_rest (pred_numeral n) q))"
  by (simp add: numeral_eq_Suc)

lemma make_x2n_rest_eval: "make_x2n_rest 32 0x40000000 = Some (tl x2n_table @ [0x40000000])"
  by (simp add: make_x2n_rest_numeral multmodp_def multmodp_loop.simps xtimes_def POLY_def x2n_table_def)


lemma make_x2n_table_eval: "make_x2n_table = Some x2n_table"
  by (simp add: make_x2n_table_def make_x2n_rest_numeral multmodp_def multmodp_loop.simps xtimes_def
      POLY_def x2n_table_def)

abbreviation x_to :: "nat \<Rightarrow> u32" where
  "x_to n \<equiv> (xtimes ^^ n) (x_power 0)"

lemma x_to_1: "0x40000000 = x_to 1"
  by (simp add: x_power_def xtimes_def)

lemma x2n_table_powers: "x2n_table @ [0x40000000] = map (\<lambda>i. x_to (2 ^ i)) [0..<33]"
proof -
  have "Some (tl x2n_table @ [0x40000000]) = Some (map (\<lambda>i. x_to (1 * 2 ^ Suc i)) [0..<32])"
    using make_x2n_rest_eval make_x2n_rest_power [of 32 1] unfolding x_to_1 [symmetric] by metis
  then have t: "tl x2n_table @ [0x40000000] = map (\<lambda>i. x_to (2 ^ i)) (map Suc [0..<32])"
    by (simp only: option.inject mult_1 map_map o_def)
  have h: "x2n_table = x_to (2 ^ 0) # tl x2n_table"
    unfolding power_0 x_to_1 [symmetric] by (simp add: x2n_table_def)
  have u: "[0..<33] = 0 # map Suc [0..<32]"
    by (simp only: map_Suc_upt) (simp add: upt_conv_Cons)
  have "x2n_table @ [0x40000000] = x_to (2 ^ 0) # (tl x2n_table @ [0x40000000])"
    by (subst h) (rule append_Cons)
  then show ?thesis by (simp only: t u list.map)
qed

lemma x2n_table_nth: "k < 32 \<Longrightarrow> x2n_table ! k = x_to (2 ^ k)"
proof -
  assume k: "k < 32"
  have "length x2n_table = 32" by (simp add: x2n_table_def)
  with k have "x2n_table ! k = (x2n_table @ [0x40000000]) ! k" by (simp add: nth_append)
  also have "\<dots> = x_to (2 ^ k)" using k by (simp only: x2n_table_powers) (simp add: nth_map_upt)
  finally show ?thesis .
qed

text \<open>The order of x divides \<open>2 ^ 32 - 1\<close>, so the exponents of the table wrap around at 32.\<close>

lemma xtimes_pow_wrap: "xtimes ^^ (2 ^ 32) = xtimes"
proof
  fix b
  have "(x2n_table @ [0x40000000]) ! 32 = x_to (2 ^ 32)"
    by (simp only: x2n_table_powers) (simp add: nth_map_upt)
  moreover have "(x2n_table @ [0x40000000]) ! 32 = 0x40000000" by (simp add: x2n_table_def)
  ultimately have "x_to (2 ^ 32) = x_to 1" by (simp only: x_to_1)
  then have "(xtimes ^^ (2 ^ 32)) b = (xtimes ^^ 1) b"
    by (metis mulx_power)
  then show "(xtimes ^^ (2 ^ 32)) b = xtimes b" by (simp only: One_nat_def funpow.simps o_apply id_apply)
qed

lemma x_to_wrap: "x_to (2 ^ (k AND 31)) = x_to (2 ^ k)"
proof (induction k rule: less_induct)
  case (less k)
  have m: "k AND 31 = k mod 32" for k :: nat
    using take_bit_eq_mask [of 5 k] by (simp add: take_bit_eq_mod mask_eq_exp_minus_1)
  show ?case
  proof (cases "k < 32")
    case False
    then have k: "k = (k - 32) + 32" by simp
    have "xtimes ^^ (2 ^ k) = (xtimes ^^ (2 ^ 32)) ^^ (2 ^ (k - 32))"
      by (subst k) (simp only: power_add funpow_mult mult.commute)
    then have "x_to (2 ^ k) = x_to (2 ^ (k - 32))" by (simp only: xtimes_pow_wrap)
    also have "\<dots> = x_to (2 ^ ((k - 32) AND 31))" using False by (intro less.IH [symmetric]) simp
    also have "(k - 32) AND 31 = k AND 31" using False by (simp add: m le_mod_geq)
    finally show ?thesis by simp
  qed (simp add: m)
qed

lemma x2nmodp_loop_power:
  "x2nmodp_loop (int n) k (x_to m) = Some (x_to (m + n * 2 ^ k))"
proof (induction n arbitrary: k m rule: less_induct)
  case (less n)
  show ?case
  proof (cases "n = 0")
    case False
    have half: "drop_bit 1 (int n) = int (n div 2)" by (simp add: drop_bit_eq_div of_nat_div)
    have "k AND 31 < 32" for k :: nat
      using take_bit_eq_mask [of 5 k] by (simp add: take_bit_eq_mod mask_eq_exp_minus_1)
    then have tab: "x2n_table ! (k AND 31) = x_to (2 ^ k)" by (simp only: x2n_table_nth x_to_wrap)
    have even_odd: "n = n mod 2 + 2 * (n div 2)" by simp
    have IH: "x2nmodp_loop (int (n div 2)) (k + 1) (x_to m') = Some (x_to (m' + (n div 2) * 2 ^ (k + 1)))" for m'
      using False by (intro less.IH) simp
    show ?thesis
    proof (cases "even n")
      case True
      then have "int n AND 1 = 0" by (simp add: and_one_eq flip: even_iff_mod_2_eq_zero)
      then have "x2nmodp_loop (int n) k (x_to m) = Some (x_to (m + (n div 2) * 2 ^ (k + 1)))"
        using False unfolding x2nmodp_loop.simps [of "int n"] half by (simp only: if_False Option.bind.simps IH of_nat_eq_0_iff simp_thms)
      moreover have "(n div 2) * 2 ^ (k + 1) = n * 2 ^ k" using True by auto
      ultimately show ?thesis by (simp only:)
    next
      case odd: False
      then have "int n AND 1 = 1" by (simp add: and_one_eq flip: odd_iff_mod_2_eq_one)
      then have "int n AND 1 \<noteq> 0" by simp
      then have "x2nmodp_loop (int n) k (x_to m) = Some (x_to (2 ^ k + m + (n div 2) * 2 ^ (k + 1)))"
        using False unfolding x2nmodp_loop.simps [of "int n"] half tab multmodp_power xtimes_pow_pow
        by (simp only: if_False if_True Option.bind.simps IH of_nat_eq_0_iff simp_thms)
      moreover have "2 ^ k + m + (n div 2) * 2 ^ (k + 1) = m + n * 2 ^ k"
        using odd by (elim oddE) (simp add: algebra_simps)
      ultimately show ?thesis by (simp only:)
    qed
  qed (simp add: x2nmodp_loop.simps)
qed


lemma x2nmodp_power: "0 \<le> n \<Longrightarrow> x2nmodp n k = Some (x_to (nat n * 2 ^ k))"
  using x2nmodp_loop_power [of "nat n" k 0] by (simp add: x2nmodp_def x_power_def)



end
