(* ===== verification/Crc32.thy ===== *)
theory Crc32
  imports Crc32_Tables
begin

text \<open>
  The CRC-32 routines: the byte loop crc32_copy_small (crc32_p.h), the entry points of
  crc32.c, the braided routine of arch/generic/crc32_braid_c.c and the combination functions
  of crc32_braid_comb.c. The lemmas show that all of them compute the bit-serial CRC, for
  every alignment of the buffer, and that \<open>crc32_combine\<close> gives the CRC of a
  concatenation. The function table is taken as filled by functable.c without Chorba and
  without CPU specific variants, so that \<^verbatim>\<open>FUNCTABLE_CALL(crc32)\<close> is \<open>crc32_braid\<close>.
\<close>

section \<open>Byte loop (crc32_p.h)\<close>

definition CRC_DO1 :: "u32 \<Rightarrow> bytes \<Rightarrow> nat \<Rightarrow> u32" where
  "CRC_DO1 c buf i = crc_table ! unat ((c XOR ucast (buf ! i)) AND 0xff) XOR drop_bit 8 c"

definition CRC_DO2 :: "u32 \<Rightarrow> bytes \<Rightarrow> nat \<Rightarrow> u32" where
  "CRC_DO2 c buf i = CRC_DO1 (CRC_DO1 c buf i) buf (i + 1)"

definition CRC_DO4 :: "u32 \<Rightarrow> bytes \<Rightarrow> nat \<Rightarrow> u32" where
  "CRC_DO4 c buf i = CRC_DO2 (CRC_DO2 c buf i) buf (i + 2)"

definition CRC_DO8 :: "u32 \<Rightarrow> bytes \<Rightarrow> nat \<Rightarrow> u32" where
  "CRC_DO8 c buf i = CRC_DO4 (CRC_DO4 c buf i) buf (i + 4)"

text \<open>The \<^verbatim>\<open>while (len >= 8)\<close> loop; the second component is what was written to \<open>dst\<close>.\<close>

function crc_do8_loop :: "bool \<Rightarrow> u32 \<Rightarrow> bytes \<Rightarrow> bytes \<Rightarrow> nat \<Rightarrow> u32 \<times> bytes \<times> bytes \<times> nat" where
  "crc_do8_loop COPY crc dst buf len =
     (if len \<ge> 8 then
        crc_do8_loop COPY (CRC_DO8 crc buf 0) (if COPY then dst @ take 8 buf else dst)
          (drop 8 buf) (len - 8)
      else (crc, dst, buf, len))"
  by pat_completeness auto
termination by (relation "measure (\<lambda>(_, _, _, _, len). len)") auto

declare crc_do8_loop.simps [simp del]

definition crc32_copy_small :: "u32 \<Rightarrow> bytes \<Rightarrow> bytes \<Rightarrow> nat \<Rightarrow> nat \<Rightarrow> bool \<Rightarrow> u32 \<times> bytes" where
  "crc32_copy_small crc dst buf len MAX_LEN COPY =
    (let (crc, dst, buf, len) =
           (if MAX_LEN \<ge> 8 then crc_do8_loop COPY crc dst buf len else (crc, dst, buf, len));
         (crc, dst, buf) = (if len AND 4 \<noteq> 0
           then (CRC_DO4 crc buf 0, (if COPY then dst @ take 4 buf else dst), drop 4 buf)
           else (crc, dst, buf));
         (crc, dst, buf) = (if len AND 2 \<noteq> 0
           then (CRC_DO2 crc buf 0, (if COPY then dst @ take 2 buf else dst), drop 2 buf)
           else (crc, dst, buf));
         (crc, dst, buf) = (if len AND 1 \<noteq> 0
           then (CRC_DO1 crc buf 0, (if COPY then dst @ take 1 buf else dst), drop 1 buf)
           else (crc, dst, buf))
     in (crc, dst))"

section \<open>Braided CRC (arch/generic/crc32_braid_c.c)\<close>

definition BRAID_N :: nat where "BRAID_N = 5"
definition BRAID_W :: nat where "BRAID_W = 8"

primrec crc_word_loop :: "nat \<Rightarrow> u64 \<Rightarrow> u64" where
  "crc_word_loop 0 data = data"
| "crc_word_loop (Suc k) data =
     crc_word_loop k (drop_bit 8 data XOR ucast (crc_table ! unat (data AND 0xff)))"

definition crc_word :: "u64 \<Rightarrow> u32" where
  "crc_word data = ucast (crc_word_loop BRAID_W data)"

text \<open>The new CRC of one braid from its word: entry 0, then \<^verbatim>\<open>for (k = 1; k < BRAID_W; k++)\<close>.\<close>

definition braid_word :: "u64 \<Rightarrow> u64" where
  "braid_word word =
     fold (\<lambda>k crc. crc XOR ucast (crc_braid_table ! k ! unat (drop_bit (k * 8) word AND 0xff)))
       [1..<BRAID_W] (ucast (crc_braid_table ! 0 ! unat (word AND 0xff)))"

definition words :: "nat \<Rightarrow> bytes \<Rightarrow> u64 list" where
  "words n buf = map (\<lambda>i. zng_memread_8 (drop (i * BRAID_W) buf)) [0..<n]"

text \<open>
  The \<^verbatim>\<open>while (--blks)\<close> loop over the list of the braid registers \<^verbatim>\<open>crc0\<close> ... \<^verbatim>\<open>crc4\<close>,
  and the last block, whose words are chained through \<open>comb\<close>.
\<close>

primrec braid_loop :: "nat \<Rightarrow> u64 list \<Rightarrow> bytes \<Rightarrow> u64 list \<times> bytes" where
  "braid_loop 0 crcs buf = (crcs, buf)"
| "braid_loop (Suc n) crcs buf =
     braid_loop n (map2 (\<lambda>crc w. braid_word (crc XOR w)) crcs (words BRAID_N buf))
       (drop (BRAID_N * BRAID_W) buf)"

definition braid_last :: "u64 list \<Rightarrow> bytes \<Rightarrow> u32" where
  "braid_last crcs buf =
     fold (\<lambda>(crc, w) comb. crc_word (crc XOR w XOR ucast comb)) (zip crcs (words BRAID_N buf)) 0"

definition crc32_braid :: "nat \<Rightarrow> u32 \<Rightarrow> bytes \<Rightarrow> u32" where
  "crc32_braid addr crc buf =
    (let len = length buf;
         crc = NOT crc;
         (crc, buf, len) =
          (if len \<ge> BRAID_N * BRAID_W + BRAID_W - 1 then
             let align_diff = min (ALIGN_DIFF addr BRAID_W) len;
                 (crc, buf, len) = (if align_diff \<noteq> 0
                   then (fst (crc32_copy_small crc [] buf align_diff (BRAID_W - 1) False),
                         drop align_diff buf, len - align_diff)
                   else (crc, buf, len));
                 blks = len div (BRAID_N * BRAID_W);
                 len = len - blks * BRAID_N * BRAID_W;
                 (crcs, buf) = braid_loop (blks - 1) [ucast crc, 0, 0, 0, 0] buf
             in (braid_last crcs buf, drop (BRAID_N * BRAID_W) buf, len)
           else (crc, buf, len))
     in NOT (fst (crc32_copy_small crc [] buf len (BRAID_N * BRAID_W - 1) False)))"

definition crc32_copy_braid :: "nat \<Rightarrow> u32 \<Rightarrow> bytes \<Rightarrow> u32 \<times> bytes" where
  "crc32_copy_braid addr crc src = (crc32_braid addr crc src, src)"

section \<open>Entry points (crc32.c)\<close>

definition CRC32_INITIAL_VALUE :: u32 where "CRC32_INITIAL_VALUE = 0"

definition get_crc_table :: "u32 list" where "get_crc_table = crc_table"

definition crc32_small :: "nat \<Rightarrow> u32 \<Rightarrow> bytes \<Rightarrow> u32" where
  "crc32_small addr crc buf =
     (if length buf \<ge> 32 then crc32_braid addr crc buf
      else NOT (fst (crc32_copy_small (NOT crc) [] buf (length buf) 32 False)))"

definition crc32_z :: "nat \<Rightarrow> u32 \<Rightarrow> bytes option \<Rightarrow> u32" where
  "crc32_z addr crc buf =
     (case buf of None \<Rightarrow> CRC32_INITIAL_VALUE | Some b \<Rightarrow> crc32_braid addr crc b)"

section \<open>Combining CRCs (crc32_braid_comb.c)\<close>

definition crc32_combine :: "u32 \<Rightarrow> u32 \<Rightarrow> int \<Rightarrow> u32 option" where
  "crc32_combine crc1 crc2 len2 =
     (if len2 < 0 then Some 0
      else Option.bind (x2nmodp len2 3)
        (\<lambda>op. map_option (\<lambda>p. p XOR crc2) (multmodp op crc1)))"

definition crc32_combine_gen :: "int \<Rightarrow> u32 option" where
  "crc32_combine_gen len2 = (if len2 < 0 then Some 0 else x2nmodp len2 3)"

definition crc32_combine_op :: "u32 \<Rightarrow> u32 \<Rightarrow> u32 \<Rightarrow> u32 option" where
  "crc32_combine_op crc1 crc2 op = map_option (\<lambda>p. p XOR crc2) (multmodp op crc1)"

section \<open>The bit-serial CRC\<close>

definition crc_byte :: "u8 \<Rightarrow> u32 \<Rightarrow> u32" where
  "crc_byte b c = (xtimes ^^ 8) (c XOR ucast b)"

definition crc_bytes :: "u32 \<Rightarrow> bytes \<Rightarrow> u32" where
  "crc_bytes c bs = fold crc_byte bs c"

definition crc32_ref :: "u32 \<Rightarrow> bytes \<Rightarrow> u32" where
  "crc32_ref crc bs = NOT (crc_bytes (NOT crc) bs)"

lemma crc_bytes_simps [simp]:
  "crc_bytes c [] = c"
  "crc_bytes c (b # bs) = crc_bytes (crc_byte b c) bs"
  "crc_bytes c (xs @ ys) = crc_bytes (crc_bytes c xs) ys"
  by (simp_all add: crc_bytes_def)

lemma and_ff: "x AND 0xff = take_bit 8 x" for x :: "'a::len word"
  by (simp add: take_bit_eq_mask mask_eq_exp_minus_1)

lemma xtimes8_split: "(xtimes ^^ 8) x = (xtimes ^^ 8) (take_bit 8 x) XOR drop_bit 8 x"
proof -
  have x: "x = take_bit 8 x XOR push_bit 8 (drop_bit 8 x)"
    by (rule bit_word_eqI) (auto simp: bit_simps)
  have "take_bit 8 (push_bit 8 (drop_bit 8 x)) = 0"
    by (rule bit_word_eqI) (auto simp: bit_simps)
  then have "(xtimes ^^ 8) (push_bit 8 (drop_bit 8 x)) = drop_bit 8 (push_bit 8 (drop_bit 8 x))"
    by (rule xtimes_shift)
  also have "\<dots> = drop_bit 8 x"
    by (rule bit_word_eqI) (auto simp: bit_simps dest: bit_imp_le_length)
  finally show ?thesis by (subst x) (simp only: xtimes_pow_xor)
qed

lemma crc_table_nth: "crc_table ! unat (take_bit 8 x) = (xtimes ^^ 8) (take_bit 8 x)" for x :: u32
proof -
  have "unat (take_bit 8 x) < 256" by (simp add: unat_take_bit_mod)
  then show ?thesis by (simp add: crc_table_generated make_crc_table_def nth_map_upt)
qed

lemma CRC_DO1_byte: "CRC_DO1 c buf i = crc_byte (buf ! i) c"
proof -
  have "drop_bit 8 (ucast (buf ! i) :: u32) = 0"
    by (rule bit_word_eqI) (auto simp: bit_simps dest: bit_imp_le_length)
  then show ?thesis
    unfolding CRC_DO1_def crc_byte_def and_ff crc_table_nth
    by (subst (2) xtimes8_split) (simp add: drop_bit_xor)
qed

lemma drop_nth_Suc: "i < length buf \<Longrightarrow> take (Suc n) (drop i buf) = buf ! i # take n (drop (Suc i) buf)"
  by (simp add: Cons_nth_drop_Suc [symmetric])

lemma CRC_DO_bytes [checksum_simps]:
  "i + 1 \<le> length buf \<Longrightarrow> CRC_DO1 c buf i = crc_bytes c (take 1 (drop i buf))"
  "i + 2 \<le> length buf \<Longrightarrow> CRC_DO2 c buf i = crc_bytes c (take 2 (drop i buf))"
  "i + 4 \<le> length buf \<Longrightarrow> CRC_DO4 c buf i = crc_bytes c (take 4 (drop i buf))"
  "i + 8 \<le> length buf \<Longrightarrow> CRC_DO8 c buf i = crc_bytes c (take 8 (drop i buf))"
  by (simp_all add: CRC_DO1_byte CRC_DO2_def CRC_DO4_def CRC_DO8_def numeral_nat drop_nth_Suc)

lemma crc_do8_loop_eq:
  assumes "len \<le> length buf"
  shows "crc_do8_loop COPY c dst buf len =
    (crc_bytes c (take (len div 8 * 8) buf), (if COPY then dst @ take (len div 8 * 8) buf else dst),
     drop (len div 8 * 8) buf, len mod 8)"
  using assms
proof (induction COPY c dst buf len rule: crc_do8_loop.induct)
  case (1 COPY c dst buf len)
  show ?case
  proof (cases "8 \<le> len")
    case True
    define k where "k = (len - 8) div 8 * 8"
    have k: "len div 8 * 8 = 8 + k" "(len - 8) mod 8 = len mod 8"
      using True unfolding k_def by (simp_all add: le_div_geq le_mod_geq)
    have do8: "CRC_DO8 c buf 0 = crc_bytes c (take 8 buf)"
      using True "1.prems" CRC_DO_bytes(4) [of 0 buf c] by simp
    have IH: "crc_do8_loop COPY (CRC_DO8 c buf 0) (if COPY then dst @ take 8 buf else dst)
        (drop 8 buf) (len - 8) =
      (crc_bytes (CRC_DO8 c buf 0) (take k (drop 8 buf)),
       (if COPY then (if COPY then dst @ take 8 buf else dst) @ take k (drop 8 buf)
        else (if COPY then dst @ take 8 buf else dst)), drop k (drop 8 buf), len mod 8)"
      using "1.IH" [OF True] "1.prems" unfolding k_def [symmetric] k(2) by simp
    show ?thesis
      unfolding crc_do8_loop.simps [of COPY c dst buf len] if_P [OF True] IH k(1) take_add
      by (simp add: do8 add.commute)
  next
    case False
    then show ?thesis by (simp add: crc_do8_loop.simps [of COPY c dst buf len])
  qed
qed

lemma opt_crc:
  assumes "a = 0 \<or> a = n \<and> f = crc_bytes c (take n buf)"
  shows "(if a \<noteq> 0 then (f, (if COPY then dst @ take n buf else dst), drop n buf) else (c, dst, buf)) =
    (crc_bytes c (take a buf), (if COPY then dst @ take a buf else dst), drop a buf)"
  using assms by auto

lemma crc32_copy_small_eq:
  assumes "len \<le> length buf" and "8 \<le> MAX_LEN \<or> len < 8"
  shows "crc32_copy_small c dst buf len MAX_LEN COPY =
    (crc_bytes c (take len buf), if COPY then dst @ take len buf else dst)"
proof -
  define m where "m = len div 8 * 8"
  define r where "r = len mod 8"
  define x y z where "x = 4 * (r div 4 mod 2)" and "y = 2 * (r div 2 mod 2)" and "z = r mod 2"
  define p1 where "p1 = drop m buf"
  define p2 where "p2 = drop x p1"
  define p3 where "p3 = drop y p2"
  have loop: "(if 8 \<le> MAX_LEN then crc_do8_loop COPY c dst buf len else (c, dst, buf, len)) =
    (crc_bytes c (take m buf), (if COPY then dst @ take m buf else dst), p1, r)"
    using assms crc_do8_loop_eq [OF assms(1), of COPY c dst] by (auto simp: m_def r_def p1_def)
  have bits: "r AND 4 = x" "r AND 2 = y" "r AND 1 = z"
    by (simp_all add: x_def y_def z_def nat_and_1 nat_and_2 nat_and_4)
  have "r = x + (y + z)" using mod_8_bits [of r] unfolding x_def y_def z_def r_def mod_mod_trivial .
  moreover have "len = m + r" by (simp add: m_def r_def)
  ultimately have sum: "len = m + (x + (y + z))" by simp
  have lens: "x \<le> length p1" "y \<le> length p2" "z \<le> length p3"
    using assms(1) sum by (simp_all add: p1_def p2_def p3_def)
  have x: "x = 0 \<or> x = 4 \<and> CRC_DO4 c p1 0 = crc_bytes c (take 4 p1)" for c
    using lens(1) CRC_DO_bytes(3) [of 0 p1 c] by (auto simp: x_def)
  have y: "y = 0 \<or> y = 2 \<and> CRC_DO2 c p2 0 = crc_bytes c (take 2 p2)" for c
    using lens(2) CRC_DO_bytes(2) [of 0 p2 c] by (auto simp: y_def)
  have z: "z = 0 \<or> z = 1 \<and> CRC_DO1 c p3 0 = crc_bytes c (take 1 p3)" for c
    using lens(3) CRC_DO_bytes(1) [of 0 p3 c] by (auto simp: z_def)
  have "take len buf = take m buf @ take x p1 @ take y p2 @ take z p3"
    unfolding sum take_add p3_def p2_def p1_def by (rule refl)
  then show ?thesis
    unfolding crc32_copy_small_def Let_def loop prod.case bits opt_crc [OF x] p2_def [symmetric]
      opt_crc [OF y] p3_def [symmetric] opt_crc [OF z]
    by simp
qed

section \<open>Words and braids\<close>

lemma le_nat_Cons_xor:
  assumes "length bs \<le> 7"
  shows "(of_nat (le_nat (b # bs)) :: u64) = ucast b XOR push_bit 8 (of_nat (le_nat bs))"
proof -
  have "(ucast b :: u64) AND push_bit 8 (of_nat (le_nat bs)) = 0"
    by (rule bit_word_eqI) (auto simp: bit_simps dest: bit_imp_le_length)
  then have "(ucast b :: u64) XOR push_bit 8 (of_nat (le_nat bs)) = ucast b + push_bit 8 (of_nat (le_nat bs))"
    by (rule disjunctive_add_eq_xor [symmetric])
  then show ?thesis by (simp add: push_bit_eq_mult)
qed

lemma of_nat_le_nat_high:
  assumes "length bs \<le> 7" and "56 \<le> n"
  shows "\<not> bit (of_nat (le_nat bs) :: u64) n"
proof -
  have "le_nat bs < 256 ^ length bs" by (rule le_nat_less)
  also have "(256 :: nat) ^ length bs \<le> 256 ^ 7" using assms by (intro power_increasing) simp_all
  also have "\<dots> = 2 ^ 56" by simp
  also have "\<dots> \<le> 2 ^ n" using assms by (intro power_increasing) simp_all
  finally have "\<not> bit (le_nat bs) n" by (simp add: bit_iff_odd)
  then show ?thesis by (simp add: bit_of_nat_iff)
qed

lemma crc_word_step:
  assumes "length bs \<le> 7"
  shows "drop_bit 8 (ucast c XOR of_nat (le_nat (b # bs)))
      XOR ucast (crc_table ! unat ((ucast c XOR of_nat (le_nat (b # bs)) :: u64) AND 0xff))
    = (ucast (crc_byte b c) XOR of_nat (le_nat bs) :: u64)"
proof -
  define x where "x = (of_nat (le_nat bs) :: u64)"
  have "n < 56" if "bit x n" for n
    using of_nat_le_nat_high [OF assms, of n] that unfolding x_def by (metis not_less)
  then have x: "drop_bit 8 (push_bit 8 x) = x"
    by (intro bit_word_eqI) (auto simp: bit_simps)
  have d: "drop_bit 8 (ucast c :: u64) = ucast (drop_bit 8 c)" "drop_bit 8 (ucast b :: u64) = 0"
    by (rule bit_word_eqI; auto simp: bit_simps dest: bit_imp_le_length)+
  have e: "drop_bit 8 (ucast b :: u32) = 0"
    by (rule bit_word_eqI) (auto simp: bit_simps dest: bit_imp_le_length)
  have "unat ((ucast c XOR of_nat (le_nat (b # bs)) :: u64) AND 0xff) = unat (take_bit 8 (c XOR ucast b))"
  proof -
    have "take_bit 8 (ucast c XOR (ucast b XOR push_bit 8 x)) = (ucast (take_bit 8 (c XOR ucast b)) :: u64)"
      by (rule bit_word_eqI) (auto simp: bit_simps dest: bit_imp_le_length)
    moreover have "unat (ucast y :: u64) = unat y" for y :: u32
      using unsigned_less [of y, where ?'a = nat] by (simp add: unsigned_ucast_eq take_bit_nat_eq_self)
    ultimately show ?thesis unfolding le_nat_Cons_xor [OF assms] and_ff x_def by simp
  qed
  then have t: "crc_table ! unat ((ucast c XOR of_nat (le_nat (b # bs)) :: u64) AND 0xff)
      = (xtimes ^^ 8) (take_bit 8 (c XOR ucast b))"
    by (simp only: crc_table_nth)
  have "drop_bit 8 (ucast c XOR of_nat (le_nat (b # bs)) :: u64) = ucast (drop_bit 8 c) XOR x"
    unfolding le_nat_Cons_xor [OF assms] x_def [symmetric] by (simp only: drop_bit_xor d x xor.left_neutral)
  moreover have "drop_bit 8 (c XOR ucast b) = drop_bit 8 c" by (simp only: drop_bit_xor e xor.right_neutral)
  ultimately show ?thesis
    unfolding t crc_byte_def xtimes8_split [of "c XOR ucast b"] x_def [symmetric]
    by (simp only: unsigned_xor_eq ac_simps)
qed

lemma crc_word_loop_bytes:
  "length bs \<le> 8 \<Longrightarrow>
    crc_word_loop (length bs) (ucast c XOR of_nat (le_nat bs)) = ucast (crc_bytes c bs)"
proof (induction bs arbitrary: c)
  case (Cons b bs)
  then have "length bs \<le> 7" by simp
  then show ?case
    using Cons.IH [of "crc_byte b c"]
    unfolding list.size add_Suc_right add_0_right crc_word_loop.simps crc_word_step [OF \<open>length bs \<le> 7\<close>]
    by simp
qed simp

lemma crc_word_bytes:
  assumes "8 \<le> length buf"
  shows "crc_word (ucast c XOR zng_memread_8 buf) = crc_bytes c (take 8 buf)"
proof -
  have "crc_word_loop (length (take 8 buf)) (ucast c XOR of_nat (le_nat (take 8 buf))) = ucast (crc_bytes c (take 8 buf))"
    by (rule crc_word_loop_bytes) simp
  moreover have "(ucast (ucast x :: u64) :: u32) = x" for x :: u32
    by (rule bit_word_eqI) (simp add: bit_simps)
  ultimately show ?thesis
    using assms by (simp add: crc_word_def BRAID_W_def zng_memread_8_def)
qed

lemma crc_word_le_bytes: "crc_word (ucast c XOR w) = crc_bytes c (le_bytes 8 w)"
  using crc_word_bytes [of "le_bytes 8 w" c] by (simp add: memread_le_bytes_8)

lemma crc_byte_xor: "crc_byte (a XOR b) (c XOR d) = crc_byte a c XOR crc_byte b d"
proof -
  have "(c XOR d) XOR ucast (a XOR b) = (c XOR ucast a) XOR (d XOR ucast b)"
    by (simp only: unsigned_xor_eq ac_simps)
  then show ?thesis by (simp only: crc_byte_def xtimes_pow_xor)
qed

lemma crc_bytes_xor:
  "length xs = length ys \<Longrightarrow>
    crc_bytes (c XOR d) (map2 (XOR) xs ys) = crc_bytes c xs XOR crc_bytes d ys"
  by (induction xs ys arbitrary: c d rule: list_induct2) (simp_all add: crc_byte_xor)

lemma le_bytes_xor: "le_bytes n (a XOR b) = map2 (XOR) (le_bytes n a) (le_bytes n b)"
  by (rule nth_equalityI) (simp_all add: le_bytes_def drop_bit_xor unsigned_xor_eq)

lemma crc_word_xor: "crc_word (a XOR b) = crc_word a XOR crc_word b"
  using crc_bytes_xor [of "le_bytes 8 a" "le_bytes 8 b" 0 0]
    crc_word_le_bytes [of 0 "a XOR b"] crc_word_le_bytes [of 0 a] crc_word_le_bytes [of 0 b]
  by (simp add: le_bytes_xor)

lemma crc_bytes_zeros: "crc_bytes c (replicate n 0) = (xtimes ^^ (8 * n)) c"
proof (induction n arbitrary: c)
  case (Suc n)
  have "crc_byte 0 c = (xtimes ^^ 8) c" by (simp add: crc_byte_def)
  then show ?case by (simp only: replicate_Suc crc_bytes_simps Suc.IH xtimes_pow_pow) (simp add: add.commute)
qed simp

lemma crc_bytes_split: "crc_bytes c bs = (xtimes ^^ (8 * length bs)) c XOR crc_bytes 0 bs"
proof -
  have "map2 (XOR) (replicate (length bs) 0) bs = bs" by (rule nth_equalityI) simp_all
  then show ?thesis
    using crc_bytes_xor [of "replicate (length bs) 0" bs c 0] by (simp add: crc_bytes_zeros)
qed

lemma crc_word_ucast: "crc_word (ucast c) = (xtimes ^^ 64) c"
proof -
  have "le_bytes 8 (0 :: u64) = replicate 8 0" by (rule nth_equalityI) (simp_all add: le_bytes_def)
  then show ?thesis using crc_word_le_bytes [of c 0] crc_bytes_zeros [of c 8] by simp
qed

definition chain :: "u32 \<Rightarrow> u64 list \<Rightarrow> u32" where
  "chain c ws = fold (\<lambda>w c. crc_word (ucast c XOR w)) ws c"

lemma chain_simps [simp]:
  "chain c [] = c" "chain c (w # ws) = chain (crc_word (ucast c XOR w)) ws"
  by (simp_all add: chain_def)

lemma chain_xor:
  "length vs = length ws \<Longrightarrow>
    chain (c XOR d) (map2 (XOR) vs ws) = chain c vs XOR chain d ws"
proof (induction vs ws arbitrary: c d rule: list_induct2)
  case (Cons v vs w ws)
  have "ucast (c XOR d) XOR (v XOR w) = (ucast c XOR v) XOR (ucast d XOR w)"
    by (simp only: unsigned_xor_eq ac_simps)
  then show ?case
    by (simp only: zip_Cons_Cons list.map prod.case chain_simps crc_word_xor Cons.IH)
qed simp

lemma chain_split: "chain c ws = (xtimes ^^ (64 * length ws)) c XOR chain 0 ws"
proof (induction ws arbitrary: c)
  case (Cons w ws)
  have "chain c (w # ws) = chain ((xtimes ^^ 64) c XOR crc_word w) ws"
    by (simp add: crc_word_xor crc_word_ucast)
  also have "\<dots> = (xtimes ^^ (64 * length ws)) ((xtimes ^^ 64) c XOR crc_word w) XOR chain 0 ws"
    by (rule Cons.IH)
  also have "\<dots> = (xtimes ^^ (64 * length ws + 64)) c XOR
      ((xtimes ^^ (64 * length ws)) (crc_word w) XOR chain 0 ws)"
    by (simp only: xtimes_pow_xor xtimes_pow_pow ac_simps)
  also have "(xtimes ^^ (64 * length ws)) (crc_word w) XOR chain 0 ws = chain 0 (w # ws)"
    using Cons.IH [of "crc_word w"] by simp
  finally show ?case by (simp add: add.commute)
qed simp

lemma words_Suc: "words (Suc n) buf = zng_memread_8 buf # words n (drop 8 buf)"
proof -
  have "[0..<Suc n] = 0 # map Suc [0..<n]" by (simp add: upt_conv_Cons map_Suc_upt del: upt_Suc)
  then show ?thesis by (simp add: words_def BRAID_W_def add.commute del: upt_Suc)
qed

lemma length_words [simp]: "length (words n buf) = n"
  by (simp add: words_def)

lemma chain_words: "8 * n \<le> length buf \<Longrightarrow> chain c (words n buf) = crc_bytes c (take (8 * n) buf)"
proof (induction n arbitrary: c buf)
  case (Suc n)
  have "take (8 * Suc n) buf = take 8 buf @ take (8 * n) (drop 8 buf)"
    using take_add [of 8 "8 * n" buf] by (simp add: add.commute)
  then show ?case using Suc by (simp add: words_Suc crc_word_bytes)
qed (simp add: words_def)

lemma crc_braid_table_nth:
  assumes "k < 8"
  shows "crc_braid_table ! k ! unat (b :: u8) = (xtimes ^^ (8 * (40 - k))) (ucast b)"
proof -
  define n where "n = 8 * (40 - k)"
  have n: "8 * (43 - k) = n + 24" using assms by (simp add: n_def)
  have gen: "crc_braid_table ! k = map (\<lambda>i. (xtimes ^^ (n + 24)) (push_bit 24 (of_nat i))) [0..<256]"
    using braid_map [OF assms] crc_braid_table_generated [OF assms] by (simp add: n)
  have "(xtimes ^^ 24) (push_bit 24 (ucast b)) = (ucast b :: u32)"
  proof (subst xtimes_shift)
    show "take_bit 24 (push_bit 24 (ucast b :: u32)) = 0" by (rule bit_word_eqI) (auto simp: bit_simps)
    show "drop_bit 24 (push_bit 24 (ucast b)) = (ucast b :: u32)"
      by (rule bit_word_eqI) (auto simp: bit_simps dest: bit_imp_le_length)
  qed
  moreover have "crc_braid_table ! k ! unat b = (xtimes ^^ n) ((xtimes ^^ 24) (push_bit 24 (ucast b)))"
    using unat_lt_256 [of b] unfolding gen xtimes_pow_pow by (subst nth_map) simp_all
  ultimately show ?thesis by (simp only: n_def)
qed

lemma byte_of_word: "unat (drop_bit n w AND 0xff) = unat (ucast (drop_bit n w) :: u8)" for w :: u64
  by (simp add: and_ff unsigned_take_bit_eq unsigned_ucast_eq)

lemma braid_word_crc: "braid_word w = ucast ((xtimes ^^ 256) (crc_word w))"
proof -
  let ?b = "\<lambda>k. ucast (drop_bit (k * 8) w) :: u8"
  let ?t = "\<lambda>n k. (xtimes ^^ (8 * (n - k))) (ucast (?b k)) :: u32"
  have "braid_word w = ucast (?t 40 0 XOR ?t 40 1 XOR ?t 40 2 XOR ?t 40 3 XOR ?t 40 4 XOR ?t 40 5 XOR ?t 40 6 XOR ?t 40 7)"
    unfolding braid_word_def BRAID_W_def
    using byte_of_word [of 0 w]
    by (simp only: upt_conv_Cons) (simp add: byte_of_word crc_braid_table_nth unsigned_xor_eq ac_simps)
  moreover have "crc_word w = ?t 8 0 XOR ?t 8 1 XOR ?t 8 2 XOR ?t 8 3 XOR ?t 8 4 XOR ?t 8 5 XOR ?t 8 6 XOR ?t 8 7"
  proof -
    have "le_bytes 8 w = [?b 0, ?b 1, ?b 2, ?b 3, ?b 4, ?b 5, ?b 6, ?b 7]"
      by (simp add: le_bytes_def upt_conv_Cons)
    then show ?thesis
      using crc_word_le_bytes [of 0 w] by (simp add: crc_byte_def xtimes_pow_xor xtimes_pow_pow xor.assoc)
  qed
  moreover have "(xtimes ^^ 256) (?t 8 k) = ?t 40 k" if "k < 8" for k
    using that by (simp add: xtimes_pow_pow diff_mult_distrib2)
  ultimately show ?thesis by (simp only: xtimes_pow_xor) 
qed

lemma chain_braid_words:
  "chain ((xtimes ^^ 320) c) (map braid_word vs) = (xtimes ^^ 320) (chain c vs)"
proof (induction vs arbitrary: c)
  case (Cons v vs)
  have "crc_word (ucast ((xtimes ^^ 320) c) XOR braid_word v) =
      (xtimes ^^ 320) (crc_word (ucast c XOR v))"
    by (simp only: braid_word_crc crc_word_xor crc_word_ucast xtimes_pow_xor xtimes_pow_pow) simp
  then show ?case by (simp only: list.map chain_simps Cons.IH)
qed simp

text \<open>The CRC after the current block, which the braid registers stand for.\<close>

definition block_crc :: "u64 list \<Rightarrow> bytes \<Rightarrow> u32" where
  "block_crc crcs buf = chain 0 (map2 (XOR) crcs (words 5 buf))"

lemma block_crc_step:
  assumes "length crcs = 5" and "80 \<le> length buf"
  shows "block_crc (map2 (\<lambda>crc w. braid_word (crc XOR w)) crcs (words 5 buf)) (drop 40 buf)
    = crc_bytes (block_crc crcs buf) (take 40 (drop 40 buf))"
proof -
  let ?vs = "map2 (XOR) crcs (words 5 buf)" and ?ws = "words 5 (drop 40 buf)"
  have m: "map2 (\<lambda>crc w. braid_word (crc XOR w)) crcs (words 5 buf) = map braid_word ?vs"
    by (simp add: case_prod_beta o_def)
  have len: "length (map braid_word ?vs) = length ?ws" using assms(1) by simp
  have "block_crc (map braid_word ?vs) (drop 40 buf) = chain 0 (map braid_word ?vs) XOR chain 0 ?ws"
    unfolding block_crc_def using chain_xor [OF len, of 0 0] by simp
  also have "\<dots> = (xtimes ^^ 320) (chain 0 ?vs) XOR chain 0 ?ws"
    using chain_braid_words [of 0 ?vs] by (simp only: xtimes_pow_0)
  also have "\<dots> = chain (chain 0 ?vs) ?ws"
    by (subst (2) chain_split) simp
  also have "\<dots> = crc_bytes (block_crc crcs buf) (take 40 (drop 40 buf))"
    using chain_words [of 5 "drop 40 buf"] assms(2) by (simp add: block_crc_def)
  finally show ?thesis by (simp only: m)
qed

lemma braid_loop_eq:
  assumes "length crcs = 5" and "40 * Suc n \<le> length buf"
  shows "\<exists>crcs'. braid_loop n crcs buf = (crcs', drop (40 * n) buf) \<and> length crcs' = 5 \<and>
    block_crc crcs' (drop (40 * n) buf) = crc_bytes (block_crc crcs buf) (take (40 * n) (drop 40 buf))"
  using assms
proof (induction n arbitrary: crcs buf)
  case (Suc n)
  let ?crcs = "map2 (\<lambda>crc w. braid_word (crc XOR w)) crcs (words 5 buf)"
  have "length ?crcs = 5" "40 * Suc n \<le> length (drop 40 buf)" using Suc.prems by simp_all
  from Suc.IH [OF this] obtain crcs' where
    loop: "braid_loop n ?crcs (drop 40 buf) = (crcs', drop (40 * n) (drop 40 buf))"
    and len: "length crcs' = 5"
    and crc: "block_crc crcs' (drop (40 * n) (drop 40 buf)) =
       crc_bytes (block_crc ?crcs (drop 40 buf)) (take (40 * n) (drop 40 (drop 40 buf)))"
    by blast
  have step: "block_crc ?crcs (drop 40 buf) = crc_bytes (block_crc crcs buf) (take 40 (drop 40 buf))"
    using Suc.prems by (intro block_crc_step) simp_all
  have "take (40 * Suc n) (drop 40 buf) = take 40 (drop 40 buf) @ take (40 * n) (drop 40 (drop 40 buf))"
    using take_add [of 40 "40 * n" "drop 40 buf"] by simp
  then have "block_crc crcs' (drop (40 * Suc n) buf) = crc_bytes (block_crc crcs buf) (take (40 * Suc n) (drop 40 buf))"
    using crc by (simp add: step add.commute)
  with loop len show ?case by (simp add: BRAID_N_def BRAID_W_def add.commute)
qed simp

lemma braid_last_eq:
  assumes "length crcs = 5"
  shows "braid_last crcs buf = block_crc crcs buf"
proof -
  have "fold (\<lambda>(crc, w) comb. crc_word (crc XOR w XOR ucast comb)) (zip vs ws) c
    = chain c (map2 (XOR) vs ws)" if "length vs = length ws" for vs ws c
    using that by (induction vs ws arbitrary: c rule: list_induct2) (simp_all add: ac_simps)
  from this [of crcs "words 5 buf"] assms show ?thesis
    by (simp add: braid_last_def block_crc_def BRAID_N_def)
qed

lemma block_crc_init:
  assumes "40 \<le> length buf"
  shows "block_crc [ucast c, 0, 0, 0, 0] buf = crc_bytes c (take 40 buf)"
proof -
  have "words 5 buf = hd (words 5 buf) # tl (words 5 buf)" "length (tl (words 5 buf)) = 4"
    by (simp_all add: words_def upt_conv_Cons)
  moreover have "map2 (XOR) [ucast c, 0, 0, 0, 0] (w # ws) = (ucast c XOR w) # ws" if "length ws = 4" for w ws
    using that by (auto simp: length_Suc_conv numeral_nat)
  ultimately have "block_crc [ucast c, 0, 0, 0, 0] buf = chain c (words 5 buf)"
    unfolding block_crc_def by (metis chain_simps(2) ucast_0 xor.left_neutral)
  with chain_words [of 5 buf c] assms show ?thesis by simp
qed

section \<open>The routines compute the bit-serial CRC\<close>

lemma crc32_braid_ref: "crc32_braid addr crc buf = crc32_ref crc buf"
proof (cases "47 \<le> length buf")
  case True
  define ad where "ad = min (ALIGN_DIFF addr 8) (length buf)"
  define p where "p = drop ad buf"
  define blks where "blks = length p div 40"
  define c where "c = crc_bytes (NOT crc) (take ad buf)"
  have ad: "ad < 8" "ad \<le> length buf" by (simp_all add: ad_def ALIGN_DIFF_8)
  have align: "(if ad \<noteq> 0 then (fst (crc32_copy_small (NOT crc) [] buf ad 7 False), drop ad buf, length buf - ad)
      else (NOT crc, buf, length buf)) = (c, p, length p)"
    using ad by (simp add: crc32_copy_small_eq c_def p_def)
  have blks: "40 * Suc (blks - 1) \<le> length p" "1 \<le> blks"
    using True ad by (simp_all add: blks_def p_def)
  from braid_loop_eq [OF _ blks(1), of "[ucast c, 0, 0, 0, 0]"] obtain crcs where
    loop: "braid_loop (blks - 1) [ucast c, 0, 0, 0, 0] p = (crcs, drop (40 * (blks - 1)) p)"
    and len: "length crcs = 5"
    and crc: "block_crc crcs (drop (40 * (blks - 1)) p) =
      crc_bytes (block_crc [ucast c, 0, 0, 0, 0] p) (take (40 * (blks - 1)) (drop 40 p))"
    by auto
  have rest: "drop 40 (drop (40 * (blks - 1)) p) = drop (40 * blks) p"
    using blks(2) by (simp add: algebra_simps)
  have "take (40 * blks) p = take 40 p @ take (40 * (blks - 1)) (drop 40 p)"
    using take_add [of 40 "40 * (blks - 1)" p] blks(2) by (simp add: algebra_simps)
  then have crc': "block_crc crcs (drop (40 * (blks - 1)) p) = crc_bytes c (take (40 * blks) p)"
    unfolding crc using block_crc_init [of p c] blks by simp
  have len': "length p - blks * 5 * 8 = length (drop (40 * blks) p)" by simp
  have nums: "(5::nat) * 8 = 40" "40 + 8 - (1::nat) = 47" "8 - (1::nat) = 7" "40 - (1::nat) = 39"
    by simp_all
  have "crc32_braid addr crc buf =
    NOT (fst (crc32_copy_small (crc_bytes c (take (40 * blks) p)) [] (drop (40 * blks) p)
      (length (drop (40 * blks) p)) 39 False))"
    unfolding crc32_braid_def Let_def BRAID_N_def BRAID_W_def nums ad_def [symmetric] if_P [OF True]
      align prod.case blks_def [symmetric] loop braid_last_eq [OF len] crc' rest len' ..
  also have "\<dots> = NOT (crc_bytes (crc_bytes c (take (40 * blks) p)) (drop (40 * blks) p))"
    by (simp add: crc32_copy_small_eq)
  also have "crc_bytes (crc_bytes c (take (40 * blks) p)) (drop (40 * blks) p) = crc_bytes c p"
    by (metis append_take_drop_id crc_bytes_simps(3))
  also have "crc_bytes c p = crc_bytes (NOT crc) buf"
    unfolding c_def p_def by (metis append_take_drop_id crc_bytes_simps(3))
  finally show ?thesis by (simp only: crc32_ref_def)
next
  case False
  then show ?thesis
    by (simp add: crc32_braid_def BRAID_N_def BRAID_W_def crc32_copy_small_eq crc32_ref_def)
qed

lemma crc32_small_ref: "crc32_small addr crc buf = crc32_ref crc buf"
  by (simp add: crc32_small_def crc32_braid_ref crc32_copy_small_eq crc32_ref_def)

lemma crc32_ref_append: "crc32_ref (crc32_ref c xs) ys = crc32_ref c (xs @ ys)"
  by (simp add: crc32_ref_def)

section \<open>Combination\<close>

lemma crc32_combine_total:
  assumes "0 \<le> len2"
  shows "crc32_combine crc1 crc2 len2 = Some ((xtimes ^^ (8 * nat len2)) crc1 XOR crc2)"
  using assms x2nmodp_power [OF assms, of 3]
  by (simp add: crc32_combine_def multmodp_power mult.commute)

lemma crc32_combine_concat:
  "crc32_combine (crc32_ref c xs) (crc32_ref CRC32_INITIAL_VALUE ys) (int (length ys))
     = Some (crc32_ref c (xs @ ys))"
proof -
  let ?n = "8 * length ys" and ?a = "crc_bytes (NOT c) xs"
  have "crc32_combine (crc32_ref c xs) (crc32_ref CRC32_INITIAL_VALUE ys) (int (length ys))
    = Some ((xtimes ^^ ?n) (NOT ?a) XOR NOT (crc_bytes (NOT 0) ys))"
    by (simp add: crc32_combine_total crc32_ref_def CRC32_INITIAL_VALUE_def)
  also have "(xtimes ^^ ?n) (NOT ?a) = (xtimes ^^ ?n) ?a XOR (xtimes ^^ ?n) (NOT 0)"
  proof -
    have "NOT ?a = ?a XOR NOT 0" by (rule bit_word_eqI) (auto simp: bit_simps)
    then show ?thesis by (simp only: xtimes_pow_xor)
  qed
  also have "crc_bytes (NOT 0) ys = (xtimes ^^ ?n) (NOT 0) XOR crc_bytes 0 ys" by (rule crc_bytes_split)
  also have "((xtimes ^^ ?n) ?a XOR (xtimes ^^ ?n) (NOT 0)) XOR NOT ((xtimes ^^ ?n) (NOT 0) XOR crc_bytes 0 ys)
    = NOT ((xtimes ^^ ?n) ?a XOR crc_bytes 0 ys)"
    by (rule bit_word_eqI) (auto simp: bit_simps)
  also have "(xtimes ^^ ?n) ?a XOR crc_bytes 0 ys = crc_bytes ?a ys" by (rule crc_bytes_split [symmetric])
  finally show ?thesis by (simp add: crc32_ref_def)
qed

interpretation crc: combinable_checksum "crc32_braid addr" CRC32_INITIAL_VALUE
    "\<lambda>crc1 crc2 len2. the (crc32_combine crc1 crc2 len2)" for addr
  by unfold_locales (simp_all add: crc32_braid_ref crc32_ref_append crc32_combine_concat)

section \<open>Properties\<close>

text \<open>
  C12: for every start address, register and buffer the braided routine, which runs five
  interleaved CRCs on 64-bit words, returns the bit-serial CRC of the buffer, and so do the
  entry points for a buffer.
\<close>

theorem crc32_braid_correct:
  "crc32_braid addr crc buf = crc32_ref crc buf \<and> crc32_small addr crc buf = crc32_ref crc buf
     \<and> crc32_z addr crc (Some buf) = crc32_ref crc buf"
  by (simp_all add: crc32_z_def crc32_braid_ref crc32_small_ref)

text \<open>
  C16: the tables of crc32_braid_tbl.h are the ones utils/makecrct.c generates: the byte
  table, the eight braid tables for five braids of eight bytes, and the powers of x.
\<close>

theorem crc_tables_generated:
  "crc_table = make_crc_table \<and> map (braid 5 8) [0..<8] = map Some crc_braid_table
     \<and> make_x2n_table = Some x2n_table"
proof (intro conjI)
  show "crc_table = make_crc_table" by (rule crc_table_generated)
  show "map (braid 5 8) [0..<8] = map Some crc_braid_table"
  proof -
    have len: "length crc_braid_table = 8" by (simp add: crc_braid_table_def)
    then have "map (braid 5 8) [0..<8] = map (\<lambda>k. Some (crc_braid_table ! k)) [0..<length crc_braid_table]"
      by (intro map_cong) (simp_all add: crc_braid_table_generated)
    also have "\<dots> = map Some (map ((!) crc_braid_table) [0..<length crc_braid_table])"
      by (simp only: map_map o_def)
    finally show ?thesis by (simp only: map_nth)
  qed
  show "make_x2n_table = Some x2n_table" by (rule make_x2n_table_eval)
qed

text \<open>
  C17: \<open>multmodp\<close> returns the product modulo the CRC polynomial for a non-zero first factor,
  and never returns for a zero one.
\<close>

theorem multmodp_spec: "multmodp a b = (if a = 0 then None else Some (mulx a b))"
  by (simp add: multmodp_zero_diverges multmodp_mulx)

text \<open>
  C13: on the CRCs of two pieces, the second started afresh, \<open>crc32_combine\<close> terminates and
  returns the CRC of their concatenation.
\<close>

theorem crc32_combine_correct:
  "crc32_combine (crc32_braid p crc xs) (crc32_braid q CRC32_INITIAL_VALUE ys) (int (length ys))
     = Some (crc32_braid r crc (xs @ ys))"
  by (simp only: crc32_braid_ref crc32_combine_concat)

text \<open>
  C18: for a negative length \<open>crc32_combine\<close> returns 0, but passing the operator that
  \<open>crc32_combine_gen\<close> returns for it to \<open>crc32_combine_op\<close> never returns.
\<close>

theorem crc32_combine_op_negative:
  assumes "len2 < 0"
  shows "crc32_combine crc1 crc2 len2 = Some 0
    \<and> Option.bind (crc32_combine_gen len2) (crc32_combine_op crc1 crc2) = None"
  using assms
  by (simp_all add: crc32_combine_def crc32_combine_gen_def crc32_combine_op_def multmodp_zero_diverges)

theorem crc32_combine_op_negative_witness:
  "crc32_combine 1 2 (-5) = Some 0
     \<and> Option.bind (crc32_combine_gen (-5)) (crc32_combine_op 1 2) = None"
  using crc32_combine_op_negative [of "-5" 1 2] by simp

end
