(* ===== verification/Builtins.thy ===== *)
theory Builtins
  imports Zlib_Prelude
begin

text \<open>
  The portable bit-scan and bit-reversal fallbacks of fallback_builtins.h: de Bruijn
  multiplication for the number of trailing zeros, smearing for the leading ones, and the
  multiplication trick that reverses a byte. The lemmas show that they compute the position
  of the lowest and highest set bit and the reversed word.
\<close>

section \<open>Definitions (fallback_builtins.h)\<close>

definition debruijn_ctz32 :: "nat list" where
  "debruijn_ctz32 = [
    0, 1, 28, 2, 29, 14, 24, 3, 30, 22, 20, 15, 25, 17, 4, 8,
    31, 27, 13, 23, 21, 19, 16, 7, 26, 12, 18, 6, 11, 5, 10, 9]"

definition zng_ctz32 :: "u32 \<Rightarrow> nat" where
  "zng_ctz32 value =
    (let lsb = value AND (NOT value + 1) in debruijn_ctz32 ! unat (drop_bit 27 (lsb * 0x077CB531)))"

definition debruijn_ctz64 :: "nat list" where
  "debruijn_ctz64 = [
    63, 0, 1, 52, 2, 6, 53, 26, 3, 37, 40, 7, 33, 54, 47, 27,
    61, 4, 38, 45, 43, 41, 21, 8, 23, 34, 58, 55, 48, 17, 28, 10,
    62, 51, 5, 25, 36, 39, 32, 46, 60, 44, 42, 20, 22, 57, 16, 9,
    50, 24, 35, 31, 59, 19, 56, 15, 49, 30, 18, 14, 29, 13, 12, 11]"

definition zng_ctz64 :: "u64 \<Rightarrow> nat" where
  "zng_ctz64 value =
    (let lsb = value AND (NOT value + 1)
     in debruijn_ctz64 ! unat (drop_bit 58 (lsb * 0x045FBAC7992A70DA)))"

definition zng_clz32 :: "u32 \<Rightarrow> nat" where
  "zng_clz32 value =
    (let value = value OR drop_bit 1 value;
         value = value OR drop_bit 2 value;
         value = value OR drop_bit 4 value;
         value = value OR drop_bit 8 value;
         value = value OR drop_bit 16 value
     in 31 - zng_ctz32 (drop_bit 1 value + 1))"

definition zng_clz64 :: "u64 \<Rightarrow> nat" where
  "zng_clz64 value =
    (let value = value OR drop_bit 1 value;
         value = value OR drop_bit 2 value;
         value = value OR drop_bit 4 value;
         value = value OR drop_bit 8 value;
         value = value OR drop_bit 16 value;
         value = value OR drop_bit 32 value
     in 63 - zng_ctz64 (drop_bit 1 value + 1))"

definition zng_first_diff_byte64 :: "u64 \<Rightarrow> nat" where
  "zng_first_diff_byte64 diff = zng_ctz64 diff div 8"

definition zng_first_bytes_mask64 :: "nat \<Rightarrow> u64" where
  "zng_first_bytes_mask64 n = drop_bit ((8 - n) * 8) (- 1)"

definition bitrev8 :: "u16 \<Rightarrow> u8" where
  "bitrev8 value =
     ucast (drop_bit 32 ((((ucast (ucast value :: u8) :: u64) * 0x80200802) AND 0x0884422110) * 0x0101010101))"

definition zng_bitreverse16 :: "u16 \<Rightarrow> u16" where
  "zng_bitreverse16 value = ucast (bitrev8 (drop_bit 8 value)) OR push_bit 8 (ucast (bitrev8 value))"

section \<open>The lowest set bit\<close>

lemma lowest_bit_exists:
  assumes "w \<noteq> (0 :: 'a::len word)"
  obtains k where "bit w k" and "\<And>i. i < k \<Longrightarrow> \<not> bit w i" and "k < LENGTH('a)"
proof -
  have "\<exists>k. bit w k" using assms by (auto simp: bit_eq_iff)
  then obtain k where "bit w k" "\<And>i. i < k \<Longrightarrow> \<not> bit w i" using exists_least_iff [of "bit w"] by blast
  with that bit_imp_le_length show thesis by blast
qed

lemma lowest_bit_isolate:
  fixes w :: "'a::len word"
  assumes "bit w k" and low: "\<And>i. i < k \<Longrightarrow> \<not> bit w i"
  shows "w AND (NOT w + 1) = 2 ^ k"
proof -
  have k: "k < LENGTH('a)" using assms(1) by (rule bit_imp_le_length)
  define h where "h = w AND NOT (push_bit k 1)"
  have "h AND push_bit k 1 = 0" by (rule bit_word_eqI) (auto simp: h_def bit_simps)
  then have "h + push_bit k 1 = h OR push_bit k 1" by (rule disjunctive_add_eq_or)
  also have "\<dots> = w" by (rule bit_word_eqI) (use assms(1) in \<open>auto simp: h_def bit_simps\<close>)
  finally have w: "w = h + push_bit k 1" by simp
  have "h AND mask k = 0" by (rule bit_word_eqI) (use low in \<open>auto simp: h_def bit_simps\<close>)
  then have "h + mask k = h OR mask k" by (rule disjunctive_add_eq_or)
  moreover have "w - 1 = h + mask k" by (simp add: w mask_eq_exp_minus_1 push_bit_eq_mult)
  ultimately have "w - 1 = h OR mask k" by simp
  moreover have "NOT w + 1 = NOT (w - 1)" by (simp add: not_eq_complement)
  ultimately have "NOT w + 1 = NOT (h OR mask k)" by simp
  then show ?thesis
    by (intro bit_word_eqI) (use assms k in \<open>auto simp: h_def bit_simps not_less\<close>)
qed

lemma debruijn_check64:
  "map (\<lambda>k. debruijn_ctz64 ! unat (drop_bit 58 (2 ^ k * 0x045FBAC7992A70DA :: u64))) [0..<64] = [0..<64]"
  by (simp add: debruijn_ctz64_def upt_conv_Cons)

lemma debruijn_check32:
  "map (\<lambda>k. debruijn_ctz32 ! unat (drop_bit 27 (2 ^ k * 0x077CB531 :: u32))) [0..<32] = [0..<32]"
  by (simp add: debruijn_ctz32_def upt_conv_Cons)

lemma map_upt_id: "map f [0..<n] = [0..<n] \<Longrightarrow> k < n \<Longrightarrow> f k = k"
  by (metis add_0 nth_map_upt nth_upt diff_zero length_upt)

lemma zng_ctz64_lowest:
  assumes "bit w k" and "\<And>i. i < k \<Longrightarrow> \<not> bit w i"
  shows "zng_ctz64 w = k"
proof -
  have "k < 64" using bit_imp_le_length [OF assms(1)] by simp
  with map_upt_id [OF debruijn_check64, of k] show ?thesis
    by (simp add: zng_ctz64_def lowest_bit_isolate [OF assms])
qed

lemma zng_ctz32_lowest:
  assumes "bit w k" and "\<And>i. i < k \<Longrightarrow> \<not> bit w i"
  shows "zng_ctz32 w = k"
proof -
  have "k < 32" using bit_imp_le_length [OF assms(1)] by simp
  with map_upt_id [OF debruijn_check32, of k] show ?thesis
    by (simp add: zng_ctz32_def lowest_bit_isolate [OF assms])
qed

section \<open>The highest set bit\<close>

text \<open>Smearing: every bit of \<open>v\<close> tells whether \<open>w\<close> has one among the \<open>n\<close> bits from there on.\<close>

definition smeared :: "nat \<Rightarrow> 'a::len word \<Rightarrow> 'a word \<Rightarrow> bool" where
  "smeared n w v \<longleftrightarrow> (\<forall>i. bit v i \<longleftrightarrow> (\<exists>j. i \<le> j \<and> j < i + n \<and> bit w j))"

lemma smeared_start: "smeared 1 w w"
  by (auto simp: smeared_def less_Suc_eq_le)

lemma smeared_step:
  assumes "smeared n w v"
  shows "smeared (2 * n) w (v OR drop_bit n v)"
  unfolding smeared_def
proof (intro allI iffI)
  fix i assume "bit (v OR drop_bit n v) i"
  then have "bit v i \<or> bit v (n + i)" by (simp add: bit_or_iff bit_drop_bit_eq)
  then show "\<exists>j. i \<le> j \<and> j < i + 2 * n \<and> bit w j" using assms unfolding smeared_def by fastforce
next
  fix i assume "\<exists>j. i \<le> j \<and> j < i + 2 * n \<and> bit w j"
  then obtain j where j: "i \<le> j" "j < i + 2 * n" "bit w j" by blast
  then have "bit v i \<or> bit v (n + i)" using assms unfolding smeared_def by (cases "j < i + n") auto
  then show "bit (v OR drop_bit n v) i" by (simp add: bit_or_iff bit_drop_bit_eq)
qed

lemma smeared_all:
  fixes w :: "'a::len word"
  assumes v: "smeared n w v" "LENGTH('a) \<le> n" and k: "bit w k" "\<And>j. k < j \<Longrightarrow> \<not> bit w j"
  shows "drop_bit 1 v + 1 = 2 ^ k"
proof -
  have b: "bit v i \<longleftrightarrow> i \<le> k" for i
  proof
    assume "bit v i"
    then obtain j where "i \<le> j" "bit w j" using v(1) unfolding smeared_def by blast
    then show "i \<le> k" using k(2) by (meson not_less order_trans)
  next
    assume "i \<le> k"
    moreover have "k < i + n" using bit_imp_le_length [OF k(1)] v(2) by simp
    ultimately show "bit v i" using v(1) k(1) unfolding smeared_def by blast
  qed
  have "drop_bit 1 v = mask k" by (rule bit_word_eqI) (simp add: bit_drop_bit_eq bit_mask_iff b less_eq_Suc_le)
  then show ?thesis by (simp add: mask_eq_exp_minus_1)
qed

lemma highest_bit_exists:
  assumes "w \<noteq> (0 :: 'a::len word)"
  obtains k where "bit w k" and "\<And>j. k < j \<Longrightarrow> \<not> bit w j" and "k < LENGTH('a)"
proof -
  have ne: "{k. bit w k} \<noteq> {}" using assms by (auto simp: bit_eq_iff)
  have fin: "finite {k. bit w k}" by (rule finite_bit_word)
  let ?k = "Max {k. bit w k}"
  have "bit w ?k" using Max_in [OF fin ne] by simp
  moreover have "j \<le> ?k" if "bit w j" for j using Max_ge [OF fin, of j] that by simp
  ultimately show thesis using that [of ?k] bit_imp_le_length by (meson not_less)
qed

lemma zng_clz32_highest:
  assumes k: "bit w k" "\<And>j. k < j \<Longrightarrow> \<not> bit w j"
  shows "zng_clz32 w = 31 - k"
proof -
  have kl: "k < 32" using bit_imp_le_length [OF k(1)] by simp
  define v1 v2 v3 v4 v5 where v: "v1 = w OR drop_bit 1 w" "v2 = v1 OR drop_bit 2 v1" "v3 = v2 OR drop_bit 4 v2"
    "v4 = v3 OR drop_bit 8 v3" "v5 = v4 OR drop_bit 16 v4"
  have "smeared 2 w v1" using smeared_step [OF smeared_start] by (simp add: v)
  then have "smeared 4 w v2" using smeared_step [of 2 w v1] by (simp add: v)
  then have "smeared 8 w v3" using smeared_step [of 4 w v2] by (simp add: v)
  then have "smeared 16 w v4" using smeared_step [of 8 w v3] by (simp add: v)
  then have "smeared 32 w v5" using smeared_step [of 16 w v4] by (simp add: v)
  then have "drop_bit 1 v5 + 1 = 2 ^ k" by (rule smeared_all [OF _ _ k]) simp
  moreover have "zng_ctz32 (2 ^ k) = k" by (rule zng_ctz32_lowest) (use kl in \<open>simp_all add: bit_exp_iff\<close>)
  moreover have "zng_clz32 w = 31 - zng_ctz32 (drop_bit 1 v5 + 1)" by (simp only: zng_clz32_def Let_def v)
  ultimately show ?thesis by simp
qed

lemma zng_clz64_highest:
  assumes k: "bit w k" "\<And>j. k < j \<Longrightarrow> \<not> bit w j"
  shows "zng_clz64 w = 63 - k"
proof -
  have kl: "k < 64" using bit_imp_le_length [OF k(1)] by simp
  define v1 v2 v3 v4 v5 v6 where v: "v1 = w OR drop_bit 1 w" "v2 = v1 OR drop_bit 2 v1" "v3 = v2 OR drop_bit 4 v2"
    "v4 = v3 OR drop_bit 8 v3" "v5 = v4 OR drop_bit 16 v4" "v6 = v5 OR drop_bit 32 v5"
  have "smeared 2 w v1" using smeared_step [OF smeared_start] by (simp add: v)
  then have "smeared 4 w v2" using smeared_step [of 2 w v1] by (simp add: v)
  then have "smeared 8 w v3" using smeared_step [of 4 w v2] by (simp add: v)
  then have "smeared 16 w v4" using smeared_step [of 8 w v3] by (simp add: v)
  then have "smeared 32 w v5" using smeared_step [of 16 w v4] by (simp add: v)
  then have "smeared 64 w v6" using smeared_step [of 32 w v5] by (simp add: v)
  then have "drop_bit 1 v6 + 1 = 2 ^ k" by (rule smeared_all [OF _ _ k]) simp
  moreover have "zng_ctz64 (2 ^ k) = k" by (rule zng_ctz64_lowest) (use kl in \<open>simp_all add: bit_exp_iff\<close>)
  moreover have "zng_clz64 w = 63 - zng_ctz64 (drop_bit 1 v6 + 1)" by (simp only: zng_clz64_def Let_def v)
  ultimately show ?thesis by simp
qed

section \<open>Reversal\<close>

definition reversed_bytes :: "u8 list" where
  "reversed_bytes = [
    0, 128, 64, 192, 32, 160, 96, 224, 16, 144, 80, 208, 48, 176, 112, 240,
    8, 136, 72, 200, 40, 168, 104, 232, 24, 152, 88, 216, 56, 184, 120, 248,
    4, 132, 68, 196, 36, 164, 100, 228, 20, 148, 84, 212, 52, 180, 116, 244,
    12, 140, 76, 204, 44, 172, 108, 236, 28, 156, 92, 220, 60, 188, 124, 252,
    2, 130, 66, 194, 34, 162, 98, 226, 18, 146, 82, 210, 50, 178, 114, 242,
    10, 138, 74, 202, 42, 170, 106, 234, 26, 154, 90, 218, 58, 186, 122, 250,
    6, 134, 70, 198, 38, 166, 102, 230, 22, 150, 86, 214, 54, 182, 118, 246,
    14, 142, 78, 206, 46, 174, 110, 238, 30, 158, 94, 222, 62, 190, 126, 254,
    1, 129, 65, 193, 33, 161, 97, 225, 17, 145, 81, 209, 49, 177, 113, 241,
    9, 137, 73, 201, 41, 169, 105, 233, 25, 153, 89, 217, 57, 185, 121, 249,
    5, 133, 69, 197, 37, 165, 101, 229, 21, 149, 85, 213, 53, 181, 117, 245,
    13, 141, 77, 205, 45, 173, 109, 237, 29, 157, 93, 221, 61, 189, 125, 253,
    3, 131, 67, 195, 35, 163, 99, 227, 19, 147, 83, 211, 51, 179, 115, 243,
    11, 139, 75, 203, 43, 171, 107, 235, 27, 155, 91, 219, 59, 187, 123, 251,
    7, 135, 71, 199, 39, 167, 103, 231, 23, 151, 87, 215, 55, 183, 119, 247,
    15, 143, 79, 207, 47, 175, 111, 239, 31, 159, 95, 223, 63, 191, 127, 255]"

lemma bitrev8_table: "map (\<lambda>n. bitrev8 (of_nat n)) [0..<256] = reversed_bytes"
  by (simp add: bitrev8_def reversed_bytes_def upt_conv_Cons)

lemma all_less_8: "(\<forall>i < 8. P i) \<longleftrightarrow> P 0 \<and> P 1 \<and> P 2 \<and> P 3 \<and> P 4 \<and> P 5 \<and> P 6 \<and> P (7::nat)"
  unfolding numeral_nat All_less_Suc by auto

lemma reversed_bytes_bits:
  "list_all2 (\<lambda>n v. \<forall>i < 8. bit v i = bit (n :: u16) (7 - i)) (map of_nat [0..<256]) reversed_bytes"
  by (simp add: reversed_bytes_def upt_conv_Cons all_less_8)

lemma bitrev8_bit:
  assumes "i < 8"
  shows "bit (bitrev8 v) i = bit v (7 - i)"
proof -
  define n where "n = unat (take_bit 8 v)"
  have n: "n < 256" by (simp add: n_def unat_take_bit_mod)
  have eq: "of_nat n = take_bit 8 v" by (simp add: n_def)
  have "bitrev8 v = bitrev8 (of_nat n)"
  proof -
    have "(ucast (take_bit 8 v) :: u8) = ucast v"
      by (rule bit_word_eqI) (auto simp: bit_simps)
    then show ?thesis by (simp add: bitrev8_def eq)
  qed
  moreover have "bit (bitrev8 (of_nat n)) i = bit (of_nat n :: u16) (7 - i)"
    using list_all2_nthD [OF reversed_bytes_bits, of n] n assms
    by (simp flip: bitrev8_table)
  moreover have "bit (of_nat n :: u16) (7 - i) = bit v (7 - i)"
    unfolding eq using assms by (auto simp: bit_take_bit_iff)
  ultimately show ?thesis by simp
qed

lemma zng_bitreverse16_bit:
  assumes "i < 16"
  shows "bit (zng_bitreverse16 v) i = bit v (15 - i)"
proof (cases "i < 8")
  case True
  then have "bit (zng_bitreverse16 v) i = bit (bitrev8 (drop_bit 8 v)) i"
    by (simp add: zng_bitreverse16_def bit_simps)
  also have "\<dots> = bit (drop_bit 8 v) (7 - i)" using True by (rule bitrev8_bit)
  also have "\<dots> = bit v (15 - i)" using True by (simp add: bit_drop_bit_eq)
  finally show ?thesis .
next
  case False
  then have "bit (zng_bitreverse16 v) i = bit (bitrev8 v) (i - 8)"
    using assms by (auto simp: zng_bitreverse16_def bit_simps dest: bit_imp_le_length)
  also have "\<dots> = bit v (7 - (i - 8))" using assms by (intro bitrev8_bit) simp
  finally show ?thesis using False by simp
qed

section \<open>Properties\<close>

text \<open>
  C23: for a non-zero value the de Bruijn fallbacks return the position of the lowest set bit, the smearing fallbacks the number of zeros
  above the highest set bit, and \<open>zng_bitreverse16\<close> reverses its sixteen bits.
\<close>

theorem bit_scan_correct:
  "(w \<noteq> 0 \<longrightarrow> bit w (zng_ctz64 w) \<and> (\<forall>i < zng_ctz64 w. \<not> bit w i))
   \<and> (v \<noteq> 0 \<longrightarrow> bit v (zng_ctz32 v) \<and> (\<forall>i < zng_ctz32 v. \<not> bit v i))
   \<and> (w \<noteq> 0 \<longrightarrow> zng_clz64 w \<le> 63 \<and> bit w (63 - zng_clz64 w) \<and> (\<forall>i > 63 - zng_clz64 w. \<not> bit w i))
   \<and> (v \<noteq> 0 \<longrightarrow> zng_clz32 v \<le> 31 \<and> bit v (31 - zng_clz32 v) \<and> (\<forall>i > 31 - zng_clz32 v. \<not> bit v i))
   \<and> (\<forall>i < 16. bit (zng_bitreverse16 u) i = bit u (15 - i))"
proof (intro conjI impI)
  assume "w \<noteq> 0"
  then obtain k where "bit w k" "\<And>i. i < k \<Longrightarrow> \<not> bit w i" using lowest_bit_exists by blast
  with zng_ctz64_lowest [of w k] show "bit w (zng_ctz64 w)" "\<forall>i < zng_ctz64 w. \<not> bit w i" by auto
next
  assume "v \<noteq> 0"
  then obtain k where "bit v k" "\<And>i. i < k \<Longrightarrow> \<not> bit v i" using lowest_bit_exists by blast
  with zng_ctz32_lowest [of v k] show "bit v (zng_ctz32 v)" "\<forall>i < zng_ctz32 v. \<not> bit v i" by auto
next
  assume "w \<noteq> 0"
  then obtain k where k: "bit w k" "\<And>j. k < j \<Longrightarrow> \<not> bit w j" "k < 64" using highest_bit_exists [of w] by auto
  with zng_clz64_highest [of w k]
  show "zng_clz64 w \<le> 63" "bit w (63 - zng_clz64 w)" "\<forall>i > 63 - zng_clz64 w. \<not> bit w i" by auto
next
  assume "v \<noteq> 0"
  then obtain k where k: "bit v k" "\<And>j. k < j \<Longrightarrow> \<not> bit v j" "k < 32" using highest_bit_exists [of v] by auto
  with zng_clz32_highest [of v k]
  show "zng_clz32 v \<le> 31" "bit v (31 - zng_clz32 v)" "\<forall>i > 31 - zng_clz32 v. \<not> bit v i" by auto
qed (simp add: zng_bitreverse16_bit)

theorem bit_scan_witness:
  "bit (80 :: u64) (zng_ctz64 80) \<and> bit (12 :: u32) (zng_ctz32 12) \<and> bit (80 :: u64) (63 - zng_clz64 80) \<and> bit (12 :: u32) (31 - zng_clz32 12)"
  using bit_scan_correct [of 80 12 0] by simp

end
