(* ===== verification/Bit_Writer.thy ===== *)
theory Bit_Writer
  imports Zlib_Prelude
begin

text \<open>
  The output side of deflate: the pending buffer (the put functions of deflate.h) and the
  64-bit bit buffer in front of it (trees_emit.h, zng_tr_flush_bits of trees.c). The lemmas
  abstract the state to the list of all bits written so far: the operations append bits, move
  bits from the buffer to the bytes, or pad to a byte boundary, and nothing else.

  \<open>pending_buf\<close> holds the bytes written below \<^verbatim>\<open>s->pending\<close>; \<open>pending\<close> is its length. The list has no capacity: the
  functions modelled here do not test pending_buf_size either, and their callers see to it that the buffer is large enough.
\<close>

section \<open>State and byte output (deflate.h)\<close>

record bit_state =
  pending_buf :: bytes
  bi_buf :: u64
  bi_valid :: int
  bi_used :: int

definition put_byte :: "u8 \<Rightarrow> 'a bit_state_scheme \<Rightarrow> 'a bit_state_scheme" where
  "put_byte c s = s\<lparr>pending_buf := pending_buf s @ [c]\<rparr>"

definition put_short :: "u16 \<Rightarrow> 'a bit_state_scheme \<Rightarrow> 'a bit_state_scheme" where
  "put_short w s = s\<lparr>pending_buf := pending_buf s @ le_bytes 2 w\<rparr>"

definition put_short_msb :: "u16 \<Rightarrow> 'a bit_state_scheme \<Rightarrow> 'a bit_state_scheme" where
  "put_short_msb w s = s\<lparr>pending_buf := pending_buf s @ rev (le_bytes 2 w)\<rparr>"

definition put_uint32 :: "u32 \<Rightarrow> 'a bit_state_scheme \<Rightarrow> 'a bit_state_scheme" where
  "put_uint32 dw s = s\<lparr>pending_buf := pending_buf s @ le_bytes 4 dw\<rparr>"

definition put_uint32_msb :: "u32 \<Rightarrow> 'a bit_state_scheme \<Rightarrow> 'a bit_state_scheme" where
  "put_uint32_msb dw s = s\<lparr>pending_buf := pending_buf s @ rev (le_bytes 4 dw)\<rparr>"

definition put_uint64 :: "u64 \<Rightarrow> 'a bit_state_scheme \<Rightarrow> 'a bit_state_scheme" where
  "put_uint64 lld s = s\<lparr>pending_buf := pending_buf s @ le_bytes 8 lld\<rparr>"

section \<open>Bit output (trees_emit.h, trees.c)\<close>

definition send_bits :: "u64 \<Rightarrow> nat \<Rightarrow> 'a bit_state_scheme \<Rightarrow> 'a bit_state_scheme" where
  "send_bits val len s =
    (let total_bits = bi_valid s + int len;
         buf = bi_buf s OR push_bit (nat (bi_valid s)) val
     in if total_bits \<ge> 64
        then put_uint64 buf s
          \<lparr>bi_buf := drop_bit (63 - nat (bi_valid s)) (drop_bit 1 val), bi_valid := total_bits - 64\<rparr>
        else s\<lparr>bi_buf := buf, bi_valid := total_bits\<rparr>)"

definition send_bits_merge :: "u64 \<Rightarrow> nat \<Rightarrow> 'a bit_state_scheme \<Rightarrow> 'a bit_state_scheme" where
  "send_bits_merge val len s =
     s\<lparr>bi_buf := bi_buf s OR push_bit (nat (bi_valid s)) val, bi_valid := bi_valid s + int len\<rparr>"

text \<open>
  The store writes all eight bytes, but only the complete ones lie below the new
  \<^verbatim>\<open>pending\<close>; a later store overwrites the rest.
\<close>

definition send_bits_flush :: "'a bit_state_scheme \<Rightarrow> 'a bit_state_scheme" where
  "send_bits_flush s =
     s\<lparr>pending_buf := pending_buf s @ take (nat (bi_valid s) div 8) (le_bytes 8 (bi_buf s)),
       bi_buf := drop_bit (nat (bi_valid s) div 8 * 8) (bi_buf s),
       bi_valid := bi_valid s mod 8\<rparr>"

definition bi_windup :: "'a bit_state_scheme \<Rightarrow> 'a bit_state_scheme" where
  "bi_windup s =
    (let s = (if bi_valid s > 56 then put_uint64 (bi_buf s) s
       else
         let s = (if bi_valid s > 24
               then put_uint32 (ucast (bi_buf s)) s
                 \<lparr>bi_buf := drop_bit 32 (bi_buf s), bi_valid := bi_valid s - 32\<rparr> else s);
             s = (if bi_valid s > 8
               then put_short (ucast (bi_buf s)) s
                 \<lparr>bi_buf := drop_bit 16 (bi_buf s), bi_valid := bi_valid s - 16\<rparr> else s)
         in if bi_valid s > 0 then put_byte (ucast (bi_buf s)) s else s)
     in s\<lparr>bi_used := (bi_valid s - 1) mod 8 + 1, bi_buf := 0, bi_valid := 0\<rparr>)"

definition zng_tr_flush_bits :: "'a bit_state_scheme \<Rightarrow> 'a bit_state_scheme" where
  "zng_tr_flush_bits s =
    (let s = (if bi_valid s \<ge> 48
           then put_short (ucast (drop_bit 32 (bi_buf s))) (put_uint32 (ucast (bi_buf s)) s)
             \<lparr>bi_buf := drop_bit 48 (bi_buf s), bi_valid := bi_valid s - 48\<rparr>
         else if bi_valid s \<ge> 32
           then put_uint32 (ucast (bi_buf s)) s
             \<lparr>bi_buf := drop_bit 32 (bi_buf s), bi_valid := bi_valid s - 32\<rparr>
         else s);
         s = (if bi_valid s \<ge> 16
           then put_short (ucast (bi_buf s)) s
             \<lparr>bi_buf := drop_bit 16 (bi_buf s), bi_valid := bi_valid s - 16\<rparr> else s)
     in if bi_valid s \<ge> 8
        then put_byte (ucast (bi_buf s)) s
          \<lparr>bi_buf := drop_bit 8 (bi_buf s), bi_valid := bi_valid s - 8\<rparr> else s)"

section \<open>The bits written\<close>

definition word_bits :: "nat \<Rightarrow> 'a::len word \<Rightarrow> bool list" where
  "word_bits n w = map (bit w) [0..<n]"

definition bytes_bits :: "bytes \<Rightarrow> bool list" where
  "bytes_bits bs = concat (map (word_bits 8) bs)"

definition written :: "'a bit_state_scheme \<Rightarrow> bool list" where
  "written s = bytes_bits (pending_buf s) @ word_bits (nat (bi_valid s)) (bi_buf s)"

text \<open>All bits of the buffer above the valid ones are zero.\<close>

definition bit_inv :: "'a bit_state_scheme \<Rightarrow> bool" where
  "bit_inv s \<longleftrightarrow> 0 \<le> bi_valid s \<and> bi_valid s < 64 \<and> take_bit (nat (bi_valid s)) (bi_buf s) = bi_buf s"

lemma length_word_bits [simp]: "length (word_bits n w) = n"
  by (simp add: word_bits_def)

lemma word_bits_0 [simp]: "word_bits 0 w = []"
  by (simp add: word_bits_def)

lemma bytes_bits_simps [simp]:
  "bytes_bits [] = []" "bytes_bits (b # bs) = word_bits 8 b @ bytes_bits bs"
  "bytes_bits (xs @ ys) = bytes_bits xs @ bytes_bits ys"
  by (simp_all add: bytes_bits_def)

lemma length_bytes_bits [simp]: "length (bytes_bits bs) = 8 * length bs"
  by (induction bs) simp_all

lemma word_bits_add: "word_bits (m + n) w = word_bits m w @ word_bits n (drop_bit m w)"
  by (rule nth_equalityI) (auto simp: word_bits_def nth_append bit_drop_bit_eq not_less)

lemma word_bits_cong: "(\<And>i. i < n \<Longrightarrow> bit v i = bit w i) \<Longrightarrow> word_bits n v = word_bits n w"
  by (simp add: word_bits_def)

lemma word_bits_ucast: "n \<le> LENGTH('b) \<Longrightarrow> word_bits n (ucast w :: 'b::len word) = word_bits n (w :: 'a::len word)"
  by (rule word_bits_cong) (auto simp: bit_ucast_iff)

lemma bytes_bits_le_bytes: "bytes_bits (le_bytes n w) = word_bits (8 * n) w"
proof (induction n arbitrary: w)
  case (Suc n)
  have "word_bits (8 * Suc n) w = word_bits 8 w @ word_bits (8 * n) (drop_bit 8 w)"
    using word_bits_add [of 8 "8 * n" w] by simp
  then show ?case by (simp add: le_bytes_Suc Suc.IH word_bits_ucast)
qed simp

lemma word_bits_zero: "word_bits n 0 = replicate n False"
  by (rule nth_equalityI) (simp_all add: word_bits_def)

lemma bit_fits: "take_bit n w = w \<Longrightarrow> n \<le> i \<Longrightarrow> \<not> bit w i" for w :: "'a::len word"
  by (metis bit_take_bit_iff linorder_not_less)

lemma take_bit_iff_bits: "take_bit n w = w \<longleftrightarrow> (\<forall>i \<ge> n. \<not> bit w i)" for w :: "'a::len word"
  by (metis bit_fits bit_take_bit_iff bit_word_eqI linorder_not_less)

text \<open>Bits above the valid ones read as zero.\<close>

lemma word_bits_pad:
  fixes w :: "'a::len word"
  assumes "take_bit n w = w"
  shows "word_bits (n + m) w = word_bits n w @ replicate m False"
proof -
  have "drop_bit n w = 0"
    by (rule bit_word_eqI) (use bit_fits [OF assms] in \<open>auto simp: bit_simps\<close>)
  then show ?thesis by (simp add: word_bits_add word_bits_zero)
qed

section \<open>Every operation on the bit list\<close>

lemma written_put [stream_simps]:
  "pending_buf (put_byte c s) = pending_buf s @ [c]"
  "pending_buf (put_short w s) = pending_buf s @ le_bytes 2 w"
  "pending_buf (put_uint32 dw s) = pending_buf s @ le_bytes 4 dw"
  "pending_buf (put_uint64 q s) = pending_buf s @ le_bytes 8 q"
  "bi_buf (put_byte c s) = bi_buf s" "bi_valid (put_byte c s) = bi_valid s"
  "bi_buf (put_short w s) = bi_buf s" "bi_valid (put_short w s) = bi_valid s"
  "bi_buf (put_uint32 dw s) = bi_buf s" "bi_valid (put_uint32 dw s) = bi_valid s"
  "bi_buf (put_uint64 q s) = bi_buf s" "bi_valid (put_uint64 q s) = bi_valid s"
  by (simp_all add: put_byte_def put_short_def put_uint32_def put_uint64_def)

lemma word_bits_or:
  fixes b v :: "'a::len word"
  assumes "take_bit n b = b" and "n + m \<le> LENGTH('a)"
  shows "word_bits (n + m) (b OR push_bit n v) = word_bits n b @ word_bits m v"
proof (rule nth_equalityI)
  fix i assume "i < length (word_bits (n + m) (b OR push_bit n v))"
  then show "word_bits (n + m) (b OR push_bit n v) ! i = (word_bits n b @ word_bits m v) ! i"
    using assms bit_fits [OF assms(1), of i]
    by (cases "i < n") (auto simp: word_bits_def nth_append bit_simps)
qed simp

lemma or_push_fits:
  fixes b v :: "'a::len word"
  assumes "take_bit n b = b" and "take_bit m v = v"
  shows "take_bit (n + m) (b OR push_bit n v) = b OR push_bit n v"
  using assms unfolding take_bit_iff_bits by (auto simp: bit_simps)

lemma send_bits_written:
  assumes "bit_inv s" and "len \<le> 64" and "take_bit len val = val"
  shows "written (send_bits val len s) = written s @ word_bits len val \<and> bit_inv (send_bits val len s)"
proof -
  define n where "n = nat (bi_valid s)"
  have n: "bi_valid s = int n" "n < 64" and b: "take_bit n (bi_buf s) = bi_buf s"
    using assms(1) by (auto simp: bit_inv_def n_def)
  let ?buf = "bi_buf s OR push_bit n val"
  show ?thesis
  proof (cases "64 \<le> n + len")
    case True
    define k where "k = n + len - 64"
    have len: "len = (64 - n) + k" using True n by (simp add: k_def)
    have hi: "drop_bit (63 - n) (drop_bit 1 val) = drop_bit (64 - n) val"
      using n(2) by (simp add: drop_bit_drop_bit Suc_diff_le [symmetric])
    have send: "send_bits val len s =
      put_uint64 ?buf s\<lparr>bi_buf := drop_bit (64 - n) val, bi_valid := int k\<rparr>"
      using True n hi by (simp add: send_bits_def Let_def k_def)
    have "word_bits 64 ?buf = word_bits n (bi_buf s) @ word_bits (64 - n) val"
      using word_bits_or [OF b, of "64 - n" val] n(2) by simp
    moreover have "word_bits len val = word_bits (64 - n) val @ word_bits k (drop_bit (64 - n) val)"
      unfolding len by (rule word_bits_add)
    moreover have "take_bit k (drop_bit (64 - n) val) = drop_bit (64 - n) val"
      using assms(3) unfolding take_bit_iff_bits len by (auto simp: bit_drop_bit_eq)
    ultimately show ?thesis
      unfolding send using n assms(2)
      by (simp add: written_def bit_inv_def stream_simps bytes_bits_le_bytes k_def)
  next
    case False
    then have send: "send_bits val len s = s\<lparr>bi_buf := ?buf, bi_valid := int (n + len)\<rparr>"
      using n by (simp add: send_bits_def Let_def)
    show ?thesis
      unfolding send using False n word_bits_or [OF b, of len val] or_push_fits [OF b assms(3)]
      by (simp add: written_def bit_inv_def nat_add_distrib)
  qed
qed

lemma send_bits_merge_written:
  assumes "bit_inv s" and "bi_valid s + int len < 64" and "take_bit len val = val"
  shows "written (send_bits_merge val len s) = written s @ word_bits len val
    \<and> bit_inv (send_bits_merge val len s)"
proof -
  have "send_bits_merge val len s = send_bits val len s"
    using assms(2) by (simp add: send_bits_merge_def send_bits_def Let_def)
  then show ?thesis using send_bits_written [OF assms(1) _ assms(3)] assms by (simp add: bit_inv_def)
qed

lemma move_bits:
  assumes "take_bit n b = b" and "8 * k \<le> n"
  shows "bytes_bits (le_bytes k b) @ word_bits (n - 8 * k) (drop_bit (8 * k) b) = word_bits n b"
    and "take_bit (n - 8 * k) (drop_bit (8 * k) b) = drop_bit (8 * k) b"
proof -
  show "bytes_bits (le_bytes k b) @ word_bits (n - 8 * k) (drop_bit (8 * k) b) = word_bits n b"
    using word_bits_add [of "8 * k" "n - 8 * k" b] assms(2) by (simp add: bytes_bits_le_bytes)
  show "take_bit (n - 8 * k) (drop_bit (8 * k) b) = drop_bit (8 * k) b"
    using assms unfolding take_bit_iff_bits by (auto simp: bit_drop_bit_eq)
qed

text \<open>Moving \<open>k\<close> complete bytes from the bit buffer to the pending buffer.\<close>

definition spill :: "nat \<Rightarrow> 'a bit_state_scheme \<Rightarrow> 'a bit_state_scheme" where
  "spill k s = s\<lparr>pending_buf := pending_buf s @ le_bytes k (bi_buf s),
     bi_buf := drop_bit (8 * k) (bi_buf s), bi_valid := bi_valid s - int (8 * k)\<rparr>"

lemma spill_written:
  assumes "bit_inv s" and "int (8 * k) \<le> bi_valid s"
  shows "written (spill k s) = written s \<and> bit_inv (spill k s)"
proof -
  define n where "n = nat (bi_valid s)"
  have n: "bi_valid s = int n" "n < 64" "8 * k \<le> n" and b: "take_bit n (bi_buf s) = bi_buf s"
    using assms by (auto simp: bit_inv_def n_def)
  then show ?thesis
    using move_bits [OF b n(3)]
    by (simp add: written_def bit_inv_def spill_def nat_diff_distrib' del: of_nat_mult)
qed

lemma le_bytes_add: "le_bytes (m + n) w = le_bytes m w @ le_bytes n (drop_bit (8 * m) w)"
proof (rule nth_equalityI)
  fix i assume "i < length (le_bytes (m + n) w)"
  moreover have "8 * (i - m) + 8 * m = 8 * i" if "m \<le> i" using that by simp
  ultimately show "le_bytes (m + n) w ! i = (le_bytes m w @ le_bytes n (drop_bit (8 * m) w)) ! i"
    by (cases "i < m") (simp_all add: le_bytes_def nth_append drop_bit_drop_bit)
qed simp

lemma le_bytes_ucast:
  assumes "8 * n \<le> LENGTH('b)"
  shows "le_bytes n (ucast w :: 'b::len word) = le_bytes n (w :: 'a::len word)"
proof (rule nth_equalityI)
  fix i assume "i < length (le_bytes n (ucast w :: 'b word))"
  then have "8 * i + 8 \<le> LENGTH('b)" using assms by simp
  moreover from this have "(ucast (drop_bit (8 * i) (ucast w :: 'b word)) :: u8) = ucast (drop_bit (8 * i) w)"
    by (intro bit_word_eqI) (auto simp: bit_simps)
  ultimately show "le_bytes n (ucast w :: 'b word) ! i = le_bytes n w ! i"
    using \<open>i < length (le_bytes n (ucast w :: 'b word))\<close> by (simp add: le_bytes_def)
qed simp

lemma take_le_bytes: "k \<le> n \<Longrightarrow> take k (le_bytes n w) = le_bytes k w"
  by (simp add: le_bytes_def take_map)

lemma send_bits_flush_spill:
  assumes "bit_inv s"
  shows "send_bits_flush s = spill (nat (bi_valid s) div 8) s"
proof -
  define n where "n = nat (bi_valid s)"
  have n: "bi_valid s = int n" "n div 8 \<le> 8" using assms by (auto simp: bit_inv_def n_def)
  have "int n mod 8 = int n - 8 * int (n div 8)"
    by (simp add: zdiv_int minus_mult_div_eq_mod [symmetric])
  then show ?thesis
    using n by (simp add: send_bits_flush_def spill_def take_le_bytes mult.commute)
qed

lemma send_bits_flush_written:
  assumes "bit_inv s"
  shows "written (send_bits_flush s) = written s \<and> bit_inv (send_bits_flush s)
    \<and> bi_valid (send_bits_flush s) < 8"
proof -
  have "int (8 * (nat (bi_valid s) div 8)) \<le> bi_valid s" using assms by (auto simp: bit_inv_def)
  from spill_written [OF assms this] show ?thesis
    unfolding send_bits_flush_spill [OF assms, symmetric] by (simp add: send_bits_flush_def)
qed

lemma flush_steps:
  "put_byte (ucast (bi_buf s)) s\<lparr>bi_buf := drop_bit 8 (bi_buf s), bi_valid := bi_valid s - 8\<rparr> = spill 1 s"
  "put_short (ucast (bi_buf s)) s\<lparr>bi_buf := drop_bit 16 (bi_buf s), bi_valid := bi_valid s - 16\<rparr> = spill 2 s"
  "put_uint32 (ucast (bi_buf s)) s\<lparr>bi_buf := drop_bit 32 (bi_buf s), bi_valid := bi_valid s - 32\<rparr> = spill 4 s"
  "put_short (ucast (drop_bit 32 (bi_buf s))) (put_uint32 (ucast (bi_buf s)) s)
     \<lparr>bi_buf := drop_bit 48 (bi_buf s), bi_valid := bi_valid s - 48\<rparr> = spill 6 s"
proof -
  have "le_bytes 1 w = [ucast w]" for w :: u64 by (simp add: le_bytes_def)
  then show "put_byte (ucast (bi_buf s)) s\<lparr>bi_buf := drop_bit 8 (bi_buf s), bi_valid := bi_valid s - 8\<rparr> = spill 1 s"
    by (simp add: put_byte_def spill_def)
  show "put_short (ucast (bi_buf s)) s\<lparr>bi_buf := drop_bit 16 (bi_buf s), bi_valid := bi_valid s - 16\<rparr> = spill 2 s"
    by (simp add: put_short_def spill_def le_bytes_ucast)
  show "put_uint32 (ucast (bi_buf s)) s\<lparr>bi_buf := drop_bit 32 (bi_buf s), bi_valid := bi_valid s - 32\<rparr> = spill 4 s"
    by (simp add: put_uint32_def spill_def le_bytes_ucast)
  show "put_short (ucast (drop_bit 32 (bi_buf s))) (put_uint32 (ucast (bi_buf s)) s)
     \<lparr>bi_buf := drop_bit 48 (bi_buf s), bi_valid := bi_valid s - 48\<rparr> = spill 6 s"
    using le_bytes_add [of 4 2 "bi_buf s"]
    by (simp add: put_uint32_def put_short_def spill_def le_bytes_ucast)
qed

lemma zng_tr_flush_bits_written:
  assumes "bit_inv s"
  shows "written (zng_tr_flush_bits s) = written s \<and> bit_inv (zng_tr_flush_bits s)
    \<and> bi_valid (zng_tr_flush_bits s) < 8"
proof -
  define s1 where "s1 = (if bi_valid s \<ge> 48 then spill 6 s else if bi_valid s \<ge> 32 then spill 4 s else s)"
  define s2 where "s2 = (if bi_valid s1 \<ge> 16 then spill 2 s1 else s1)"
  define s3 where "s3 = (if bi_valid s2 \<ge> 8 then spill 1 s2 else s2)"
  have eq: "zng_tr_flush_bits s = s3"
    unfolding zng_tr_flush_bits_def flush_steps Let_def s1_def s2_def s3_def ..
  have 1: "written s1 = written s \<and> bit_inv s1 \<and> bi_valid s1 < 32"
    using assms spill_written [OF assms, of 6] spill_written [OF assms, of 4]
    by (auto simp: s1_def spill_def bit_inv_def)
  then have 2: "written s2 = written s \<and> bit_inv s2 \<and> bi_valid s2 < 16"
    using spill_written [of s1 2] by (auto simp: s2_def spill_def)
  then have "written s3 = written s \<and> bit_inv s3 \<and> bi_valid s3 < 8"
    using spill_written [of s2 1] by (auto simp: s3_def spill_def)
  then show ?thesis by (simp only: eq)
qed

lemma le_bytes_1: "le_bytes 1 w = [ucast w]"
  by (simp add: le_bytes_def)

text \<open>The three conditional stores of \<open>bi_windup\<close> and its final reset, one at a time.\<close>

definition wind4 :: "'a bit_state_scheme \<Rightarrow> 'a bit_state_scheme" where
  "wind4 s = (if bi_valid s > 24 then put_uint32 (ucast (bi_buf s)) s
     \<lparr>bi_buf := drop_bit 32 (bi_buf s), bi_valid := bi_valid s - 32\<rparr> else s)"

definition wind2 :: "'a bit_state_scheme \<Rightarrow> 'a bit_state_scheme" where
  "wind2 s = (if bi_valid s > 8 then put_short (ucast (bi_buf s)) s
     \<lparr>bi_buf := drop_bit 16 (bi_buf s), bi_valid := bi_valid s - 16\<rparr> else s)"

definition wind1 :: "'a bit_state_scheme \<Rightarrow> 'a bit_state_scheme" where
  "wind1 s = (if bi_valid s > 0 then put_byte (ucast (bi_buf s)) s else s)"

definition wind_reset :: "'a bit_state_scheme \<Rightarrow> 'a bit_state_scheme" where
  "wind_reset s = s\<lparr>bi_used := (bi_valid s - 1) mod 8 + 1, bi_buf := 0, bi_valid := 0\<rparr>"

lemma bi_windup_winds:
  "bi_windup s = wind_reset (if bi_valid s > 56 then put_uint64 (bi_buf s) s else wind1 (wind2 (wind4 s)))"
  by (simp only: bi_windup_def Let_def wind4_def wind2_def wind1_def wind_reset_def)

text \<open>The state a wind-up should reach when \<open>v\<close> bits of \<open>b\<close> are left.\<close>

definition wound :: "int \<Rightarrow> u64 \<Rightarrow> 'a bit_state_scheme \<Rightarrow> 'a bit_state_scheme" where
  "wound v b s = s\<lparr>pending_buf := pending_buf s @ le_bytes (nat ((v + 7) div 8)) b,
     bi_buf := 0, bi_valid := 0, bi_used := (v - 1) mod 8 + 1\<rparr>"

lemma wind1_wound:
  assumes "- 8 \<le> bi_valid s" and "bi_valid s \<le> 8"
  shows "wind_reset (wind1 s) = wound (bi_valid s) (bi_buf s) s"
proof (cases "bi_valid s > 0")
  case True
  with assms have "(bi_valid s + 7) div 8 = 1"
    by (intro int_div_pos_eq [where r = "bi_valid s - 1"]) linarith+
  with True show ?thesis
    by (simp add: wind1_def wind_reset_def wound_def put_byte_def le_bytes_1 [unfolded One_nat_def])
next
  case False
  with assms have "(bi_valid s + 7) div 8 \<le> 0"
    using zdiv_mono1 [of "bi_valid s + 7" 7 8] by simp
  with False show ?thesis by (simp add: wind1_def wind_reset_def wound_def)
qed

lemma wound_shift:
  assumes "int (8 * k) - 8 < v"
  shows "wound (v - int (8 * k)) (drop_bit (8 * k) b)
      (s\<lparr>pending_buf := pending_buf s @ le_bytes k b, bi_buf := x, bi_valid := y\<rparr>) = wound v b s"
proof -
  define q where "q = nat ((v + 7) div 8)"
  have "(v - int (8 * k) + 7) div 8 = (v + 7) div 8 - int k"
  proof -
    have "v - int (8 * k) + 7 = (v + 7) + (- int k) * 8" by simp
    also have "\<dots> div 8 = - int k + (v + 7) div 8" by (rule div_mult_self1) simp
    finally show ?thesis by (simp only: uminus_add_conv_diff)
  qed
  then have "nat ((v - int (8 * k) + 7) div 8) = q - k" unfolding q_def by linarith
  moreover have "k \<le> q"
  proof -
    have "int k * 8 \<le> v + 7" using assms by simp
    then have "int k * 8 div 8 \<le> (v + 7) div 8" by (rule zdiv_mono1) simp
    then have "int k \<le> (v + 7) div 8" by (simp only: nonzero_mult_div_cancel_right zero_neq_numeral [symmetric] not_False_eq_True)
    then show ?thesis unfolding q_def by linarith
  qed
  then have "le_bytes q b = le_bytes k b @ le_bytes (q - k) (drop_bit (8 * k) b)"
    using le_bytes_add [of k "q - k" b] by simp
  moreover have "(v - int (8 * k) - 1) mod 8 = (v - 1) mod 8"
  proof -
    have "v - int (8 * k) - 1 = (v - 1) + (- int k) * 8" by simp
    then show ?thesis by (simp only: mod_mult_self1)
  qed
  ultimately show ?thesis by (simp add: wound_def q_def)
qed

lemma wind2_wound:
  assumes "- 8 \<le> bi_valid s" and "bi_valid s \<le> 24"
  shows "wind_reset (wind1 (wind2 s)) = wound (bi_valid s) (bi_buf s) s"
proof (cases "bi_valid s > 8")
  case True
  then have w: "wind2 s = s\<lparr>pending_buf := pending_buf s @ le_bytes 2 (bi_buf s),
      bi_buf := drop_bit 16 (bi_buf s), bi_valid := bi_valid s - 16\<rparr>"
    by (simp add: wind2_def put_short_def le_bytes_ucast)
  have "wind_reset (wind1 (wind2 s)) = wound (bi_valid (wind2 s)) (bi_buf (wind2 s)) (wind2 s)"
    using True assms by (intro wind1_wound) (simp_all add: w)
  then show ?thesis using wound_shift [where k = 2 and v = "bi_valid s" and b = "bi_buf s" and s = s] True by (simp add: w)
next
  case False
  then have "wind2 s = s" by (simp add: wind2_def)
  with False assms wind1_wound [of s] show ?thesis by simp
qed

lemma wind4_wound:
  assumes "- 8 \<le> bi_valid s" and "bi_valid s \<le> 56"
  shows "wind_reset (wind1 (wind2 (wind4 s))) = wound (bi_valid s) (bi_buf s) s"
proof (cases "bi_valid s > 24")
  case True
  then have w: "wind4 s = s\<lparr>pending_buf := pending_buf s @ le_bytes 4 (bi_buf s),
      bi_buf := drop_bit 32 (bi_buf s), bi_valid := bi_valid s - 32\<rparr>"
    by (simp add: wind4_def put_uint32_def le_bytes_ucast)
  have "wind_reset (wind1 (wind2 (wind4 s))) = wound (bi_valid (wind4 s)) (bi_buf (wind4 s)) (wind4 s)"
    using True assms by (intro wind2_wound) (simp_all add: w)
  then show ?thesis using wound_shift [where k = 4 and v = "bi_valid s" and b = "bi_buf s" and s = s] True by (simp add: w)
next
  case False
  then have "wind4 s = s" by (simp add: wind4_def)
  with False assms wind2_wound [of s] show ?thesis by simp
qed

lemma bi_windup_bytes:
  assumes "bit_inv s"
  shows "bi_windup s = wound (bi_valid s) (bi_buf s) s"
proof (cases "bi_valid s > 56")
  case True
  moreover have "bi_valid s < 64" using assms by (simp add: bit_inv_def)
  ultimately have "(bi_valid s + 7) div 8 = 8"
    by (intro int_div_pos_eq [where r = "bi_valid s - 57"]) linarith+
  with True show ?thesis by (simp add: bi_windup_winds wind_reset_def wound_def put_uint64_def)
next
  case False
  with assms show ?thesis by (simp add: bi_windup_winds wind4_wound bit_inv_def)
qed

lemma bi_windup_written:
  assumes "bit_inv s"
  shows "written (bi_windup s) = written s @ replicate (nat (- bi_valid s mod 8)) False
    \<and> bit_inv (bi_windup s) \<and> bi_valid (bi_windup s) = 0"
proof -
  define n where "n = nat (bi_valid s)"
  have n: "bi_valid s = int n" "n < 64" and b: "take_bit n (bi_buf s) = bi_buf s"
    using assms by (auto simp: bit_inv_def n_def)
  have "- int n div 8 = - ((int n + 7) div 8)"
    using zdiv_zminus1_eq_if [of 8 "int n"] by (auto simp: div_plus_div_distrib_dvd_left)
  then have "8 * ((int n + 7) div 8) = int n + (- int n mod 8)" "0 \<le> - int n mod 8"
    using div_mult_mod_eq [of "- int n" 8] by simp_all
  then have "8 * nat ((int n + 7) div 8) = n + nat (- int n mod 8)" by linarith
  then have "bytes_bits (le_bytes (nat ((int n + 7) div 8)) (bi_buf s)) =
      word_bits n (bi_buf s) @ replicate (nat (- int n mod 8)) False"
    using word_bits_pad [OF b] by (simp add: bytes_bits_le_bytes)
  then show ?thesis
    unfolding bi_windup_bytes [OF assms] by (simp add: written_def bit_inv_def wound_def n)
qed

section \<open>The contract of a bit writer\<close>

text \<open>
  What the encoders of trees.c and deflate_quick.c rely on: a field of at most \<open>limit\<close> bits
  is appended to the output. \<open>send_bits\<close> provides it, and so does the pair of a flush and an
  unchecked merge that compress_block uses.
\<close>

locale bit_sink =
  fixes inv :: "'s \<Rightarrow> bool" and out :: "'s \<Rightarrow> bool list"
    and send :: "u64 \<Rightarrow> nat \<Rightarrow> 's \<Rightarrow> 's" and limit :: nat
  assumes send: "inv s \<Longrightarrow> len \<le> limit \<Longrightarrow> take_bit len val = val \<Longrightarrow>
    out (send val len s) = out s @ word_bits len val \<and> inv (send val len s)"
begin

lemma send_fields:
  assumes "inv s" and "\<forall>(val, len) \<in> set fs. len \<le> limit \<and> take_bit len val = val"
  shows "out (fold (\<lambda>(val, len). send val len) fs s) =
      out s @ concat (map (\<lambda>(val, len). word_bits len val) fs)
    \<and> inv (fold (\<lambda>(val, len). send val len) fs s)"
  using assms
proof (induction fs arbitrary: s)
  case (Cons f fs)
  obtain val len where f: "f = (val, len)" by (cases f)
  with Cons.prems have "out (send val len s) = out s @ word_bits len val" "inv (send val len s)"
    using send [of s len val] by auto
  with Cons f show ?case by simp
qed simp

end

interpretation send_bits: bit_sink bit_inv written send_bits 64
  by unfold_locales (rule send_bits_written)

interpretation flush_merge: bit_sink bit_inv written "\<lambda>val len s. send_bits_merge val len (send_bits_flush s)" 56
proof unfold_locales
  fix s :: "'a bit_state_scheme" and len :: nat and val :: u64
  assume s: "bit_inv s" and len: "len \<le> 56" and val: "take_bit len val = val"
  have f: "written (send_bits_flush s) = written s" "bit_inv (send_bits_flush s)" "bi_valid (send_bits_flush s) < 8"
    using send_bits_flush_written [OF s] by simp_all
  with len send_bits_merge_written [OF f(2) _ val]
  show "written (send_bits_merge val len (send_bits_flush s)) = written s @ word_bits len val
    \<and> bit_inv (send_bits_merge val len (send_bits_flush s))" by simp
qed

section \<open>Properties\<close>

text \<open>
  C20: \<open>send_bits\<close> appends exactly the \<open>len\<close> low bits of its value to the bits written so
  far, whether or not the 64-bit buffer overflows, and keeps the buffer clean above its valid
  bits.
\<close>

theorem send_bits_correct:
  assumes "bit_inv s" and "len \<le> 64" and "take_bit len val = val"
  shows "written (send_bits val len s) = written s @ word_bits len val \<and> bit_inv (send_bits val len s)"
  using assms by (rule send_bits_written)

theorem send_bits_witness:
  "written (send_bits 0x155 9 \<lparr>pending_buf = [7], bi_buf = 1, bi_valid = 60, bi_used = 0\<rparr>) =
     written \<lparr>pending_buf = [7], bi_buf = 1, bi_valid = 60, bi_used = 0\<rparr> @ word_bits 9 (0x155 :: u64)"
  using send_bits_correct [of "\<lparr>pending_buf = [7], bi_buf = 1, bi_valid = 60, bi_used = 0\<rparr>" 9 "0x155"]
  by (simp add: bit_inv_def take_bit_eq_mod)

text \<open>
  C21: \<open>zng_tr_flush_bits\<close> and \<open>send_bits_flush\<close> move bits to the pending bytes without
  changing what has been written, and leave at most seven bits in the buffer.
\<close>

theorem flush_bits_correct:
  assumes "bit_inv s"
  shows "written (zng_tr_flush_bits s) = written s \<and> bi_valid (zng_tr_flush_bits s) < 8
    \<and> bit_inv (zng_tr_flush_bits s) \<and> written (send_bits_flush s) = written s
    \<and> bi_valid (send_bits_flush s) < 8 \<and> bit_inv (send_bits_flush s)"
  using zng_tr_flush_bits_written [OF assms] send_bits_flush_written [OF assms] by blast

theorem flush_bits_witness:
  "bi_valid (zng_tr_flush_bits \<lparr>pending_buf = [], bi_buf = 0xabcdef, bi_valid = 50, bi_used = 0\<rparr>) < 8"
  using flush_bits_correct [of "\<lparr>pending_buf = [], bi_buf = 0xabcdef, bi_valid = 50, bi_used = 0\<rparr>"]
  by (simp add: bit_inv_def take_bit_eq_mod)

text \<open>
  C22: \<open>bi_windup\<close> pads what has been written with zero bits to the next byte boundary,
  empties the bit buffer and records how many bits of the last byte are used.
\<close>

theorem bi_windup_correct:
  assumes "bit_inv s"
  shows "written (bi_windup s) = written s @ replicate (nat (- bi_valid s mod 8)) False
    \<and> bi_valid (bi_windup s) = 0 \<and> bi_used (bi_windup s) = (bi_valid s - 1) mod 8 + 1"
  using bi_windup_written [OF assms] bi_windup_bytes [OF assms] by (simp add: wound_def)

theorem bi_windup_witness:
  "bi_used (bi_windup \<lparr>pending_buf = [1], bi_buf = 5, bi_valid = 27, bi_used = 0\<rparr>) = 3"
  using bi_windup_correct [of "\<lparr>pending_buf = [1], bi_buf = 5, bi_valid = 27, bi_used = 0\<rparr>"]
  by (simp add: bit_inv_def take_bit_eq_mod)

end
