(* ===== verification/Trees_Codes.thy ===== *)
theory Trees_Codes
  imports Builtins Bit_Writer "HOL-Library.Sublist"
begin

text \<open>
  Canonical Huffman codes: the tree element of deflate.h, bit reversal (deflate_p.h) and
  gen_codes (trees.c). The lemmas show that the codes given to a tree whose lengths satisfy
  the Kraft inequality fill disjoint intervals, so that no 16-bit counter overflows and the bit
  strings, in the order they are sent, are prefix-free. The locale \<open>prefix_code\<close> states
  what a decoder relies on.
\<close>

section \<open>Tree elements and code generation\<close>

text \<open>The two unions of \<^verbatim>\<open>ct_data\<close>: \<open>fc\<close> is Freq or Code, \<open>dl\<close> is Dad or Len.\<close>

record ct_data =
  fc :: u16
  dl :: u16

abbreviation Freq :: "ct_data \<Rightarrow> u16" where "Freq \<equiv> fc"
abbreviation Code :: "ct_data \<Rightarrow> u16" where "Code \<equiv> fc"
abbreviation Dad :: "ct_data \<Rightarrow> u16" where "Dad \<equiv> dl"
abbreviation Len :: "ct_data \<Rightarrow> u16" where "Len \<equiv> dl"

type_synonym tree = "ct_data list"

definition MAX_BITS :: nat where "MAX_BITS = 15"
definition MAX_BL_BITS :: nat where "MAX_BL_BITS = 7"

definition bi_reverse :: "u16 \<Rightarrow> nat \<Rightarrow> u16" where
  "bi_reverse code len = drop_bit (16 - len) (zng_bitreverse16 code)"

text \<open>
  The first loop of \<^verbatim>\<open>gen_codes\<close>. Element \<open>bits\<close> of the result is \<^verbatim>\<open>next_code[bits]\<close>;
  element 0 is never read.
\<close>

definition gen_next_code :: "u16 list \<Rightarrow> u16 list" where
  "gen_next_code bl_count =
     snd (fold (\<lambda>bits (code, next_code).
            let code = push_bit 1 (code + bl_count ! (bits - 1)) in (code, next_code @ [code]))
       [1..<MAX_BITS + 1] (0, [0]))"

definition gen_code_step :: "nat \<Rightarrow> tree \<times> u16 list \<Rightarrow> tree \<times> u16 list" where
  "gen_code_step n st = (case st of (tree, next_code) \<Rightarrow>
     let len = unat (Len (tree ! n))
     in if len = 0 then (tree, next_code)
        else (tree[n := (tree ! n)\<lparr>fc := bi_reverse (next_code ! len) len\<rparr>],
              next_code[len := next_code ! len + 1]))"

definition gen_codes :: "tree \<Rightarrow> int \<Rightarrow> u16 list \<Rightarrow> tree" where
  "gen_codes tree max_code bl_count =
     fst (fold gen_code_step [0..<nat (max_code + 1)] (tree, gen_next_code bl_count))"

section \<open>Prefix-free codes\<close>

locale prefix_code =
  fixes syms :: "'a set" and code :: "'a \<Rightarrow> bool list"
  assumes prefix_free: "a \<in> syms \<Longrightarrow> b \<in> syms \<Longrightarrow> prefix (code a) (code b) \<Longrightarrow> a = b"
begin

lemma next_symbol:
  assumes "a \<in> syms" and "b \<in> syms" and "code a @ r = code b @ r'"
  shows "a = b \<and> r = r'"
proof -
  have "prefix (code a) (code b) \<or> prefix (code b) (code a)"
    using assms(3) by (metis prefixI prefix_same_cases)
  with assms prefix_free [of a b] prefix_free [of b a] have "a = b" by blast
  with assms(3) show ?thesis by simp
qed

text \<open>A message with an end marker that occurs only at its end is decoded uniquely.\<close>

lemma unique_message:
  assumes "set xs \<subseteq> syms - {e}" and "set ys \<subseteq> syms - {e}" and "e \<in> syms"
    and "concat (map code (xs @ [e])) @ r = concat (map code (ys @ [e])) @ r'"
  shows "xs = ys \<and> r = r'"
  using assms
proof (induction xs arbitrary: ys)
  case Nil
  show ?case
  proof (cases ys)
    case (Cons y ys')
    have "code e @ r = code y @ (concat (map code (ys' @ [e])) @ r')"
      using Nil.prems(4) by (simp add: Cons)
    moreover have "y \<in> syms" "y \<noteq> e" using Nil.prems(2) by (simp_all add: Cons)
    ultimately show ?thesis using next_symbol [OF \<open>e \<in> syms\<close>] by metis
  qed (use Nil.prems(4) in simp)
next
  case (Cons x xs)
  show ?case
  proof (cases ys)
    case Nil
    have "code x @ (concat (map code (xs @ [e])) @ r) = code e @ r'"
      using Cons.prems(4) by (simp add: Nil)
    moreover have "x \<in> syms" "x \<noteq> e" using Cons.prems(1) by simp_all
    ultimately show ?thesis using next_symbol [OF _ \<open>e \<in> syms\<close>] by metis
  next
    case (Cons y ys')
    have "x \<in> syms" "y \<in> syms" using Cons.prems \<open>ys = y # ys'\<close> by simp_all
    moreover have "code x @ (concat (map code (xs @ [e])) @ r) = code y @ (concat (map code (ys' @ [e])) @ r')"
      using Cons.prems(4) \<open>ys = y # ys'\<close> by simp
    ultimately have "x = y \<and> concat (map code (xs @ [e])) @ r = concat (map code (ys' @ [e])) @ r'"
      by (rule next_symbol)
    with Cons.IH [of ys'] Cons.prems \<open>ys = y # ys'\<close> show ?thesis by simp
  qed
qed

end

section \<open>The bits of a code\<close>

lemma bi_reverse_bits:
  assumes "0 < len" and "len \<le> 16"
  shows "word_bits len (bi_reverse c len) = rev (word_bits len c)"
proof (rule nth_equalityI)
  fix i assume "i < length (word_bits len (bi_reverse c len))"
  then have i: "i < len" by simp
  have "bit (bi_reverse c len) i = bit (zng_bitreverse16 c) (16 - len + i)"
    by (simp add: bi_reverse_def bit_drop_bit_eq)
  also have "\<dots> = bit c (15 - (16 - len + i))"
    using i assms by (intro zng_bitreverse16_bit) simp
  also have "15 - (16 - len + i) = len - Suc i" using i assms by simp
  finally show "word_bits len (bi_reverse c len) ! i = rev (word_bits len c) ! i"
    using i by (simp add: word_bits_def rev_nth)
qed simp

lemma bi_reverse_fits:
  assumes "len \<le> 16"
  shows "take_bit len (bi_reverse c len) = bi_reverse c len"
proof -
  have "\<not> bit (bi_reverse c len) i" if "len \<le> i" for i
    using that assms bit_imp_le_length [of "zng_bitreverse16 c" "16 - len + i"]
    by (auto simp: bi_reverse_def bit_drop_bit_eq)
  then show ?thesis by (simp add: take_bit_iff_bits)
qed

text \<open>The most significant bits first: a prefix is an initial segment of the binary fraction.\<close>

definition msb_bits :: "nat \<Rightarrow> nat \<Rightarrow> bool list" where
  "msb_bits len c = rev (map (bit c) [0..<len])"

lemma msb_bits_word: "c < 2 ^ 16 \<Longrightarrow> len \<le> 16 \<Longrightarrow> rev (word_bits len (of_nat c :: u16)) = msb_bits len c"
  by (auto simp: msb_bits_def word_bits_def bit_of_nat_iff)

lemma msb_bits_prefix:
  assumes "prefix (msb_bits l c) (msb_bits m d)" and "c < 2 ^ l" and "d < 2 ^ m"
  shows "l \<le> m \<and> c = d div 2 ^ (m - l)"
proof -
  have lm: "l \<le> m" using prefix_length_le [OF assms(1)] by (simp add: msb_bits_def)
  have "bit c i = bit (drop_bit (m - l) d) i" for i
  proof (cases "i < l")
    case True
    have "msb_bits l c ! (l - Suc i) = msb_bits m d ! (l - Suc i)"
      using assms(1) True by (auto simp: prefix_def nth_append msb_bits_def)
    then show ?thesis using True lm by (simp add: msb_bits_def rev_nth bit_drop_bit_eq)
  next
    case False
    have "(2::nat) ^ l \<le> 2 ^ i" "(2::nat) ^ m \<le> 2 ^ (m - l + i)"
      using False lm by (intro power_increasing; simp)+
    then have "c < 2 ^ i" "d < 2 ^ (m - l + i)" using assms(2,3) by linarith+
    then show ?thesis by (simp add: bit_drop_bit_eq bit_iff_odd)
  qed
  then have "c = drop_bit (m - l) d" by (simp add: bit_eq_iff)
  with lm show ?thesis by (simp add: drop_bit_eq_div)
qed

section \<open>Canonical code values\<close>

text \<open>
  The specification: the codes of RFC 1951, 3.2.2, on natural numbers. \<open>first_code lens b\<close> is
  the smallest code of length \<open>b\<close>; the codes of one length are consecutive in symbol order.
\<close>

definition first_code :: "nat list \<Rightarrow> nat \<Rightarrow> nat" where
  "first_code lens b = (\<Sum>j = 1..<b. count_list lens j * 2 ^ (b - j))"

definition canonical :: "nat list \<Rightarrow> nat \<Rightarrow> nat" where
  "canonical lens n = first_code lens (lens ! n) + count_list (take n lens) (lens ! n)"

definition kraft_sum :: "nat list \<Rightarrow> nat" where
  "kraft_sum lens = (\<Sum>j = 1..15. count_list lens j * 2 ^ (15 - j))"

lemma kraft_sum_list:
  "kraft_sum lens = sum_list (map (\<lambda>j. count_list lens j * 2 ^ (15 - j)) [1, 2, 3, 4, 5, 6, 7, 8, 9, 10, 11, 12, 13, 14, 15])"
proof -
  have "{1..15 :: nat} = {1, 2, 3, 4, 5, 6, 7, 8, 9, 10, 11, 12, 13, 14, 15}"
    by (rule set_eqI) (simp add: atLeastAtMost_iff, presburger)
  then show ?thesis by (simp add: kraft_sum_def)
qed

lemma first_code_1 [simp]: "first_code lens (Suc 0) = 0"
  by (simp add: first_code_def)

lemma first_code_Suc: "1 \<le> b \<Longrightarrow> first_code lens (Suc b) = 2 * (first_code lens b + count_list lens b)"
proof -
  assume b: "1 \<le> b"
  have "(\<Sum>j = 1..<b. count_list lens j * 2 ^ (Suc b - j)) = (\<Sum>j = 1..<b. 2 * (count_list lens j * 2 ^ (b - j)))"
    by (rule sum.cong) (simp_all add: Suc_diff_le)
  then show ?thesis using b by (simp add: first_code_def sum.atLeastLessThan_Suc sum_distrib_left)
qed

lemma first_code_scaled:
  assumes "b \<le> 15"
  shows "first_code lens b * 2 ^ (15 - b) = (\<Sum>j = 1..<b. count_list lens j * 2 ^ (15 - j))"
  unfolding first_code_def sum_distrib_right
proof (rule sum.cong)
  fix j assume "j \<in> {1..<b}"
  then have "2 ^ (b - j) * 2 ^ (15 - b) = (2 ^ (15 - j) :: nat)"
    using assms by (simp flip: power_add)
  then show "count_list lens j * 2 ^ (b - j) * 2 ^ (15 - b) = count_list lens j * 2 ^ (15 - j)"
    by (simp only: mult.assoc)
qed simp

lemma count_take_less:
  assumes "n < length xs"
  shows "count_list (take n xs) (xs ! n) < count_list xs (xs ! n)"
proof -
  have "xs = take n xs @ xs ! n # drop (Suc n) xs" using assms by (rule id_take_nth_drop)
  then have "count_list xs (xs ! n) = count_list (take n xs @ xs ! n # drop (Suc n) xs) (xs ! n)" by simp
  then show ?thesis by (simp add: count_list_append)
qed

lemma count_take_mono:
  assumes "m < n" and "n \<le> length xs"
  shows "count_list (take m xs) (xs ! m) < count_list (take n xs) (xs ! m)"
  using count_take_less [of m "take n xs"] assms by simp

text \<open>Where the interval of a code starts and ends, in units of the longest code.\<close>

lemma canonical_interval:
  assumes "n < length lens" and "1 \<le> lens ! n" and "lens ! n \<le> 15"
  shows "(canonical lens n + 1) * 2 ^ (15 - lens ! n) \<le> (\<Sum>j = 1..lens ! n. count_list lens j * 2 ^ (15 - j))"
proof -
  let ?l = "lens ! n"
  have "(canonical lens n + 1) * 2 ^ (15 - ?l) =
      first_code lens ?l * 2 ^ (15 - ?l) + (count_list (take n lens) ?l + 1) * 2 ^ (15 - ?l)"
    by (simp add: canonical_def algebra_simps)
  also have "\<dots> \<le> (\<Sum>j = 1..<?l. count_list lens j * 2 ^ (15 - j)) + count_list lens ?l * 2 ^ (15 - ?l)"
    using count_take_less [OF assms(1)] first_code_scaled [OF assms(3)]
    by (intro add_mono mult_le_mono1) simp_all
  also have "\<dots> = (\<Sum>j = 1..?l. count_list lens j * 2 ^ (15 - j))"
    using assms(2) by (simp add: sum.last_plus atLeastLessThanSuc_atLeastAtMost [symmetric])
  finally show ?thesis .
qed

lemma canonical_bound:
  assumes "kraft_sum lens \<le> 2 ^ 15" and "n < length lens" and "1 \<le> lens ! n" and "lens ! n \<le> 15"
  shows "canonical lens n < 2 ^ (lens ! n)"
proof -
  let ?l = "lens ! n"
  have "(\<Sum>j = 1..?l. count_list lens j * 2 ^ (15 - j)) \<le> kraft_sum lens"
    unfolding kraft_sum_def using assms by (intro sum_mono2) auto
  with canonical_interval [OF assms(2-4)] assms(1) have "(canonical lens n + 1) * 2 ^ (15 - ?l) \<le> 2 ^ 15"
    by linarith
  also have "(2 :: nat) ^ 15 = 2 ^ ?l * 2 ^ (15 - ?l)" using assms(4) by (simp flip: power_add)
  finally have "canonical lens n + 1 \<le> 2 ^ ?l" by (rule mult_right_le_imp_le) simp
  then show ?thesis by simp
qed

lemma canonical_ordered:
  assumes "a < length lens" "b < length lens" "1 \<le> lens ! a" "lens ! b \<le> 15"
    and "lens ! a < lens ! b \<or> lens ! a = lens ! b \<and> a < b"
  shows "(canonical lens a + 1) * 2 ^ (15 - lens ! a) \<le> canonical lens b * 2 ^ (15 - lens ! b)"
proof (cases "lens ! a < lens ! b")
  case True
  have "(canonical lens a + 1) * 2 ^ (15 - lens ! a) \<le> (\<Sum>j = 1..lens ! a. count_list lens j * 2 ^ (15 - j))"
    using assms True by (intro canonical_interval) simp_all
  also have "\<dots> \<le> (\<Sum>j = 1..<lens ! b. count_list lens j * 2 ^ (15 - j))"
    using True by (intro sum_mono2) auto
  also have "\<dots> = first_code lens (lens ! b) * 2 ^ (15 - lens ! b)"
    using first_code_scaled [OF assms(4)] by simp
  also have "\<dots> \<le> canonical lens b * 2 ^ (15 - lens ! b)"
    by (intro mult_le_mono1) (simp add: canonical_def)
  finally show ?thesis .
next
  case False
  with assms have eq: "lens ! a = lens ! b" and "a < b" by auto
  then have "count_list (take a lens) (lens ! a) < count_list (take b lens) (lens ! a)"
    using assms by (intro count_take_mono) simp_all
  then show ?thesis by (intro mult_le_mono) (simp_all add: canonical_def eq)
qed

lemma canonical_prefix_free:
  assumes k: "kraft_sum lens \<le> 2 ^ 15" and le: "\<forall>l \<in> set lens. l \<le> 15"
    and a: "a < length lens" "lens ! a \<noteq> 0" and b: "b < length lens" "lens ! b \<noteq> 0"
    and prefix: "prefix (msb_bits (lens ! a) (canonical lens a)) (msb_bits (lens ! b) (canonical lens b))"
  shows "a = b"
proof (rule ccontr)
  assume ne: "a \<noteq> b"
  let ?la = "lens ! a" and ?lb = "lens ! b" and ?ca = "canonical lens a" and ?cb = "canonical lens b"
  have l: "?la \<le> 15" "?lb \<le> 15" using le a b by auto
  have bound: "?ca < 2 ^ ?la" "?cb < 2 ^ ?lb"
    using k a b l by (auto intro!: canonical_bound)
  from msb_bits_prefix [OF prefix bound] have lab: "?la \<le> ?lb" and ca: "?ca = ?cb div 2 ^ (?lb - ?la)" by auto
  have scale: "(2 :: nat) ^ (15 - ?la) = 2 ^ (?lb - ?la) * 2 ^ (15 - ?lb)"
    using lab l by (simp flip: power_add)
  show False
  proof (cases "?la < ?lb \<or> ?la = ?lb \<and> a < b")
    case True
    then have "(?ca + 1) * 2 ^ (15 - ?la) \<le> ?cb * 2 ^ (15 - ?lb)"
      using a b l by (intro canonical_ordered) simp_all
    then have "(?ca + 1) * 2 ^ (?lb - ?la) * 2 ^ (15 - ?lb) \<le> ?cb * 2 ^ (15 - ?lb)"
      by (simp only: scale mult.assoc)
    then have "(?ca + 1) * 2 ^ (?lb - ?la) \<le> ?cb" by (rule mult_right_le_imp_le) simp
    then have "?ca + 1 \<le> ?cb div 2 ^ (?lb - ?la)" by (simp add: less_eq_div_iff_mult_less_eq)
    with ca show False by simp
  next
    case False
    with lab ne have "?la = ?lb" "b < a" by auto
    then have "(?cb + 1) * 2 ^ (15 - ?lb) \<le> ?ca * 2 ^ (15 - ?la)"
      using a b l by (intro canonical_ordered) simp_all
    with \<open>?la = ?lb\<close> ca show False by simp
  qed
qed

section \<open>gen_codes assigns the canonical codes\<close>

definition tree_lens :: "tree \<Rightarrow> nat \<Rightarrow> nat list" where
  "tree_lens tree n = map (\<lambda>t. unat (Len t)) (take n tree)"

definition counts_for :: "u16 list \<Rightarrow> nat list \<Rightarrow> bool" where
  "counts_for bl_count lens \<longleftrightarrow> length bl_count = 16 \<and> bl_count ! 0 = 0
     \<and> (\<forall>b. 1 \<le> b \<and> b \<le> 15 \<longrightarrow> bl_count ! b = of_nat (count_list lens b))"

lemma gen_next_code_first:
  assumes "counts_for bl_count lens"
  shows "gen_next_code bl_count = 0 # map (\<lambda>b. of_nat (first_code lens b)) [1..<16]"
proof -
  let ?step = "\<lambda>bits (code, next_code).
     let code = push_bit 1 (code + bl_count ! (bits - 1)) in (code, next_code @ [code])"
  have "fold ?step [1..<Suc n] (0, [0]) =
      (if n = 0 then 0 else of_nat (first_code lens n), 0 # map (\<lambda>b. of_nat (first_code lens b)) [1..<Suc n])"
    if "n \<le> 15" for n
    using that
  proof (induction n)
    case (Suc n)
    have "push_bit 1 ((if n = 0 then 0 else of_nat (first_code lens n)) + bl_count ! n)
        = (of_nat (first_code lens (Suc n)) :: u16)"
    proof (cases "n = 0")
      case True
      with assms show ?thesis by (simp add: counts_for_def)
    next
      case False
      with assms Suc.prems have "bl_count ! n = of_nat (count_list lens n)" by (simp add: counts_for_def)
      with False show ?thesis by (simp add: first_code_Suc push_bit_eq_mult mult.commute)
    qed
    with Suc show ?case by (simp add: upt_Suc_append Let_def)
  qed simp
  from this [of 15] show ?thesis by (simp add: gen_next_code_def MAX_BITS_def)
qed

text \<open>The state of the second loop before symbol \<open>n\<close>.\<close>

definition gen_inv :: "tree \<Rightarrow> nat list \<Rightarrow> nat \<Rightarrow> tree \<times> u16 list \<Rightarrow> bool" where
  "gen_inv tree lens n st \<longleftrightarrow> (case st of (t, next_code) \<Rightarrow>
     length next_code = 16
     \<and> (\<forall>b. 1 \<le> b \<and> b \<le> 15 \<longrightarrow> next_code ! b = of_nat (first_code lens b + count_list (take n lens) b))
     \<and> length t = length tree
     \<and> (\<forall>m < length tree. t ! m =
          (if m < n \<and> lens ! m \<noteq> 0
           then (tree ! m)\<lparr>fc := bi_reverse (of_nat (canonical lens m)) (lens ! m)\<rparr> else tree ! m)))"

lemma gen_code_step_inv:
  assumes inv: "gen_inv tree lens n st" and n: "n < length lens" "length lens \<le> length tree"
    and lens: "\<And>m. m < length lens \<Longrightarrow> lens ! m = unat (Len (tree ! m)) \<and> lens ! m \<le> 15"
  shows "gen_inv tree lens (Suc n) (gen_code_step n st)"
proof -
  obtain t nc where st: "st = (t, nc)" by (cases st)
  have tn: "t ! n = tree ! n" using inv n by (auto simp: gen_inv_def st)
  have len: "unat (Len (tree ! n)) = lens ! n" "lens ! n \<le> 15"
    using lens [OF n(1)] by auto
  have take: "take (Suc n) lens = take n lens @ [lens ! n]" using n by (simp add: take_Suc_conv_app_nth)
  show ?thesis
  proof (cases "lens ! n = 0")
    case True
    then have "gen_code_step n st = st" by (simp add: gen_code_step_def st len Let_def tn)
    with True inv show ?thesis by (auto simp: gen_inv_def st take count_list_append less_Suc_eq)
  next
    case False
    then have step: "gen_code_step n st =
      (t[n := (tree ! n)\<lparr>fc := bi_reverse (nc ! (lens ! n)) (lens ! n)\<rparr>], nc[lens ! n := nc ! (lens ! n) + 1])"
      by (simp add: gen_code_step_def st len Let_def tn)
    have "nc ! (lens ! n) = of_nat (canonical lens n)"
      using inv len False by (simp add: gen_inv_def st canonical_def)
    with inv n len False show ?thesis
      unfolding step by (auto simp: gen_inv_def st take count_list_append nth_list_update less_Suc_eq)
  qed
qed

lemma gen_codes_canonical:
  fixes tree :: tree and max_code :: int
  defines "N \<equiv> nat (max_code + 1)"
  defines "lens \<equiv> tree_lens tree N"
  assumes "counts_for bl_count lens" and "\<forall>l \<in> set lens. l \<le> 15" and "N \<le> length tree"
  shows "length (gen_codes tree max_code bl_count) = length tree"
    and "m < length tree \<Longrightarrow> gen_codes tree max_code bl_count ! m =
      (if m < N \<and> lens ! m \<noteq> 0
       then (tree ! m)\<lparr>fc := bi_reverse (of_nat (canonical lens m)) (lens ! m)\<rparr> else tree ! m)"
proof -
  have len: "length lens = N" using assms by (simp add: lens_def tree_lens_def)
  have lens: "lens ! m = unat (Len (tree ! m)) \<and> lens ! m \<le> 15" if "m < length lens" for m
  proof
    show "lens ! m = unat (Len (tree ! m))"
      using that len assms(5) by (simp add: lens_def tree_lens_def)
    show "lens ! m \<le> 15" using assms(4) nth_mem [OF that] by blast
  qed
  have "gen_inv tree lens n (fold gen_code_step [0..<n] (tree, gen_next_code bl_count))" if "n \<le> N" for n
    using that
  proof (induction n)
    case 0
    have "gen_next_code bl_count ! b = of_nat (first_code lens b)" if "1 \<le> b" "b \<le> 15" for b
    proof -
      have "[1..<16] ! (b - 1) = b" using that nth_upt [of 1 "b - 1" 16] by simp
      with that show ?thesis by (simp add: gen_next_code_first [OF assms(3)] nth_Cons' del: upt_rec_numeral)
    qed
    moreover have "length (gen_next_code bl_count) = 16" by (simp add: gen_next_code_first [OF assms(3)])
    ultimately show ?case by (simp add: gen_inv_def)
  next
    case (Suc n)
    then show ?case
      using gen_code_step_inv [of tree lens n, OF _ _ _ lens] len assms(5) by simp
  qed
  from this [of N] show "length (gen_codes tree max_code bl_count) = length tree"
    and "m < length tree \<Longrightarrow> gen_codes tree max_code bl_count ! m =
      (if m < N \<and> lens ! m \<noteq> 0
       then (tree ! m)\<lparr>fc := bi_reverse (of_nat (canonical lens m)) (lens ! m)\<rparr> else tree ! m)"
    by (auto simp: gen_codes_def gen_inv_def N_def split: prod.splits)
qed

section \<open>The codes of a generated tree are prefix-free\<close>

definition code_bits :: "ct_data \<Rightarrow> bool list" where
  "code_bits t = word_bits (unat (Len t)) (Code t)"

definition used_codes :: "tree \<Rightarrow> nat \<Rightarrow> nat set" where
  "used_codes tree n = {m. m < n \<and> Len (tree ! m) \<noteq> 0}"

text \<open>The used symbols have the codes that RFC 1951 derives from the lengths.\<close>

definition canonical_codes :: "tree \<Rightarrow> nat \<Rightarrow> bool" where
  "canonical_codes tree n \<longleftrightarrow> (\<forall>m \<in> used_codes tree n.
     code_bits (tree ! m) = msb_bits (tree_lens tree n ! m) (canonical (tree_lens tree n) m))"

lemma gen_codes_bits:
  fixes tree :: tree and max_code :: int
  defines "N \<equiv> nat (max_code + 1)"
  defines "lens \<equiv> tree_lens tree N"
  assumes "counts_for bl_count lens" and "\<forall>l \<in> set lens. l \<le> 15" and "N \<le> length tree"
    and "kraft_sum lens \<le> 2 ^ 15" and "m < N" and "Len (tree ! m) \<noteq> 0"
  shows "code_bits (gen_codes tree max_code bl_count ! m) = msb_bits (lens ! m) (canonical lens m)"
proof -
  have len: "length lens = N" using assms by (simp add: lens_def tree_lens_def)
  have lm: "lens ! m = unat (Len (tree ! m))" using assms(5,7) by (simp add: lens_def tree_lens_def)
  have pos: "lens ! m \<noteq> 0" using assms(8) by (simp add: lm unat_eq_0)
  have le: "lens ! m \<le> 15" using assms(4) nth_mem [of m lens] assms(7) len by auto
  have bound: "canonical lens m < 2 ^ (lens ! m)"
    using assms(6,7) pos le len by (intro canonical_bound) simp_all
  also have "(2 :: nat) ^ (lens ! m) \<le> 2 ^ 16" using le by (intro power_increasing) simp_all
  finally have c: "canonical lens m < 2 ^ 16" .
  have "gen_codes tree max_code bl_count ! m
      = (tree ! m)\<lparr>fc := bi_reverse (of_nat (canonical lens m)) (lens ! m)\<rparr>"
    using gen_codes_canonical(2) [of bl_count tree max_code m] assms pos by simp
  then have "code_bits (gen_codes tree max_code bl_count ! m)
      = word_bits (lens ! m) (bi_reverse (of_nat (canonical lens m)) (lens ! m))"
    by (simp add: code_bits_def lm)
  also have "\<dots> = rev (word_bits (lens ! m) (of_nat (canonical lens m) :: u16))"
    using pos le by (intro bi_reverse_bits) simp_all
  also have "\<dots> = msb_bits (lens ! m) (canonical lens m)"
    using c le by (intro msb_bits_word) simp_all
  finally show ?thesis .
qed

lemma gen_codes_Len:
  assumes "counts_for bl_count (tree_lens tree (nat (max_code + 1)))"
    and "\<forall>l \<in> set (tree_lens tree (nat (max_code + 1))). l \<le> 15" and "nat (max_code + 1) \<le> length tree"
    and "m < length tree"
  shows "Len (gen_codes tree max_code bl_count ! m) = Len (tree ! m)"
  using gen_codes_canonical(2) [OF assms(1-4)] by simp

lemma gen_codes_prefix_code:
  assumes "counts_for bl_count (tree_lens tree (nat (max_code + 1)))"
    and "\<forall>l \<in> set (tree_lens tree (nat (max_code + 1))). l \<le> 15" and "nat (max_code + 1) \<le> length tree"
    and "kraft_sum (tree_lens tree (nat (max_code + 1))) \<le> 2 ^ 15"
  shows "prefix_code (used_codes tree (nat (max_code + 1)))
    (\<lambda>m. code_bits (gen_codes tree max_code bl_count ! m))"
proof
  let ?lens = "tree_lens tree (nat (max_code + 1))"
  fix a b
  assume a: "a \<in> used_codes tree (nat (max_code + 1))" and b: "b \<in> used_codes tree (nat (max_code + 1))"
  assume p: "prefix (code_bits (gen_codes tree max_code bl_count ! a)) (code_bits (gen_codes tree max_code bl_count ! b))"
  have bits: "code_bits (gen_codes tree max_code bl_count ! m) = msb_bits (?lens ! m) (canonical ?lens m)"
    and len: "m < length ?lens" and pos: "?lens ! m \<noteq> 0" if "m \<in> used_codes tree (nat (max_code + 1))" for m
  proof -
    have m: "m < nat (max_code + 1)" "Len (tree ! m) \<noteq> 0" using that by (simp_all add: used_codes_def)
    show "code_bits (gen_codes tree max_code bl_count ! m) = msb_bits (?lens ! m) (canonical ?lens m)"
      using assms m by (intro gen_codes_bits)
    show "m < length ?lens" using m assms(3) by (simp add: tree_lens_def)
    show "?lens ! m \<noteq> 0" using m assms(3) by (simp add: tree_lens_def unat_eq_0)
  qed
  show "a = b"
    using p unfolding bits [OF a] bits [OF b]
    by (rule canonical_prefix_free [OF assms(4,2) len [OF a] pos [OF a] len [OF b] pos [OF b]])
qed

text \<open>
  C24: When bl_count holds the length statistics of a tree, no length exceeds 15 and the lengths satisfy
  the Kraft inequality, gen_codes gives every used symbol a code such that a bit string determines
  the next symbol and the rest of the string: two encodings that agree start with the same symbol.
\<close>

theorem gen_codes_decodable:
  assumes "counts_for bl_count (tree_lens tree (nat (max_code + 1)))"
    and "\<forall>l \<in> set (tree_lens tree (nat (max_code + 1))). l \<le> 15" and "nat (max_code + 1) \<le> length tree"
    and "kraft_sum (tree_lens tree (nat (max_code + 1))) \<le> 2 ^ 15"
    and "a \<in> used_codes tree (nat (max_code + 1))" and "b \<in> used_codes tree (nat (max_code + 1))"
    and "code_bits (gen_codes tree max_code bl_count ! a) @ r = code_bits (gen_codes tree max_code bl_count ! b) @ r'"
  shows "a = b \<and> r = r'"
  using prefix_code.next_symbol [OF gen_codes_prefix_code [OF assms(1-4)] assms(5-7)] .

theorem gen_codes_decodable_witness:
  "drop (length (code_bits (gen_codes [\<lparr>fc = 5, dl = 2\<rparr>, \<lparr>fc = 9, dl = 1\<rparr>, \<lparr>fc = 0, dl = 0\<rparr>, \<lparr>fc = 2, dl = 2\<rparr>] 3
      [0, 1, 2, 0, 0, 0, 0, 0, 0, 0, 0, 0, 0, 0, 0, 0] ! 1))) [False, True] = [True]"
proof -
  let ?tree = "[\<lparr>fc = 5, dl = 2\<rparr>, \<lparr>fc = 9, dl = 1\<rparr>, \<lparr>fc = 0, dl = 0\<rparr>, \<lparr>fc = 2, dl = 2\<rparr>] :: tree"
  let ?bl = "[0, 1, 2, 0, 0, 0, 0, 0, 0, 0, 0, 0, 0, 0, 0, 0] :: u16 list"
  have n: "nat (3 + 1) = 4" by simp
  have lens: "tree_lens ?tree 4 = [2, 1, 0, 2]" by (simp add: tree_lens_def)
  have code: "code_bits (gen_codes ?tree 3 ?bl ! 1) = [False]"
    by code_simp
  define r' where "r' = drop (length (code_bits (gen_codes ?tree 3 ?bl ! 1))) [False, True]"
  have "code_bits (gen_codes ?tree 3 ?bl ! 1) @ [True] = code_bits (gen_codes ?tree 3 ?bl ! 1) @ r'"
    unfolding r'_def code by simp
  moreover have "counts_for ?bl [2, 1, 0, 2]"
    by (auto simp: counts_for_def nth_Cons' le_Suc_eq numeral_eq_Suc)
  moreover have "kraft_sum [2, 1, 0, 2] \<le> 2 ^ 15" by (simp add: kraft_sum_list)
  ultimately have "r' = [True]"
    using gen_codes_decodable [of ?bl ?tree 3 1 1 "[True]" r'] unfolding n lens
    by (simp add: used_codes_def)
  then show ?thesis unfolding r'_def .
qed

end
