(* ===== verification/Trees_Tables.thy ===== *)
theory Trees_Tables
  imports Trees_Codes
begin

text \<open>
  The constant tables of the deflate format: trees.h, trees_tbl.h and the program that generates
  the latter, utils/maketrees.c. The lemmas show that the shipped tables are the generated ones,
  that the static trees are prefix codes, and that every match length and distance is determined by its code
  and extra bits.
\<close>

section \<open>Constants\<close>

definition LENGTH_CODES :: nat where "LENGTH_CODES = 29"
definition LITERALS :: nat where "LITERALS = 256"
definition L_CODES :: nat where "L_CODES = LITERALS + 1 + LENGTH_CODES"
definition D_CODES :: nat where "D_CODES = 30"
definition BL_CODES :: nat where "BL_CODES = 19"
definition HEAP_SIZE :: nat where "HEAP_SIZE = 2 * L_CODES + 1"
definition END_BLOCK :: nat where "END_BLOCK = 256"

definition REP_3_6 :: nat where "REP_3_6 = 16"
definition REPZ_3_10 :: nat where "REPZ_3_10 = 17"
definition REPZ_11_138 :: nat where "REPZ_11_138 = 18"

definition extra_lbits :: "nat list" where
  "extra_lbits = [0, 0, 0, 0, 0, 0, 0, 0, 1, 1, 1, 1, 2, 2, 2, 2, 3, 3, 3, 3, 4, 4, 4, 4, 5, 5, 5, 5, 0]"

definition extra_dbits :: "nat list" where
  "extra_dbits = [0, 0, 0, 0, 1, 1, 2, 2, 3, 3, 4, 4, 5, 5, 6, 6, 7, 7, 8, 8, 9, 9, 10, 10, 11, 11, 12, 12, 13, 13]"

definition extra_blbits :: "nat list" where
  "extra_blbits = [0, 0, 0, 0, 0, 0, 0, 0, 0, 0, 0, 0, 0, 0, 0, 0, 2, 3, 7]"

definition bl_order :: "nat list" where
  "bl_order = [16, 17, 18, 0, 8, 7, 9, 6, 10, 5, 11, 4, 12, 3, 13, 2, 14, 1, 15]"

section \<open>The shipped tables\<close>

definition mk_tree :: "(u16 \<times> u16) list \<Rightarrow> tree" where
  "mk_tree = map (\<lambda>(c, l). \<lparr>fc = c, dl = l\<rparr>)"

definition static_ltree :: tree where
  "static_ltree = mk_tree
    [(12, 8), (140, 8), (76, 8), (204, 8), (44, 8), (172, 8), (108, 8), (236, 8),
     (28, 8), (156, 8), (92, 8), (220, 8), (60, 8), (188, 8), (124, 8), (252, 8),
     (2, 8), (130, 8), (66, 8), (194, 8), (34, 8), (162, 8), (98, 8), (226, 8),
     (18, 8), (146, 8), (82, 8), (210, 8), (50, 8), (178, 8), (114, 8), (242, 8),
     (10, 8), (138, 8), (74, 8), (202, 8), (42, 8), (170, 8), (106, 8), (234, 8),
     (26, 8), (154, 8), (90, 8), (218, 8), (58, 8), (186, 8), (122, 8), (250, 8),
     (6, 8), (134, 8), (70, 8), (198, 8), (38, 8), (166, 8), (102, 8), (230, 8),
     (22, 8), (150, 8), (86, 8), (214, 8), (54, 8), (182, 8), (118, 8), (246, 8),
     (14, 8), (142, 8), (78, 8), (206, 8), (46, 8), (174, 8), (110, 8), (238, 8),
     (30, 8), (158, 8), (94, 8), (222, 8), (62, 8), (190, 8), (126, 8), (254, 8),
     (1, 8), (129, 8), (65, 8), (193, 8), (33, 8), (161, 8), (97, 8), (225, 8),
     (17, 8), (145, 8), (81, 8), (209, 8), (49, 8), (177, 8), (113, 8), (241, 8),
     (9, 8), (137, 8), (73, 8), (201, 8), (41, 8), (169, 8), (105, 8), (233, 8),
     (25, 8), (153, 8), (89, 8), (217, 8), (57, 8), (185, 8), (121, 8), (249, 8),
     (5, 8), (133, 8), (69, 8), (197, 8), (37, 8), (165, 8), (101, 8), (229, 8),
     (21, 8), (149, 8), (85, 8), (213, 8), (53, 8), (181, 8), (117, 8), (245, 8),
     (13, 8), (141, 8), (77, 8), (205, 8), (45, 8), (173, 8), (109, 8), (237, 8),
     (29, 8), (157, 8), (93, 8), (221, 8), (61, 8), (189, 8), (125, 8), (253, 8),
     (19, 9), (275, 9), (147, 9), (403, 9), (83, 9), (339, 9), (211, 9), (467, 9),
     (51, 9), (307, 9), (179, 9), (435, 9), (115, 9), (371, 9), (243, 9), (499, 9),
     (11, 9), (267, 9), (139, 9), (395, 9), (75, 9), (331, 9), (203, 9), (459, 9),
     (43, 9), (299, 9), (171, 9), (427, 9), (107, 9), (363, 9), (235, 9), (491, 9),
     (27, 9), (283, 9), (155, 9), (411, 9), (91, 9), (347, 9), (219, 9), (475, 9),
     (59, 9), (315, 9), (187, 9), (443, 9), (123, 9), (379, 9), (251, 9), (507, 9),
     (7, 9), (263, 9), (135, 9), (391, 9), (71, 9), (327, 9), (199, 9), (455, 9),
     (39, 9), (295, 9), (167, 9), (423, 9), (103, 9), (359, 9), (231, 9), (487, 9),
     (23, 9), (279, 9), (151, 9), (407, 9), (87, 9), (343, 9), (215, 9), (471, 9),
     (55, 9), (311, 9), (183, 9), (439, 9), (119, 9), (375, 9), (247, 9), (503, 9),
     (15, 9), (271, 9), (143, 9), (399, 9), (79, 9), (335, 9), (207, 9), (463, 9),
     (47, 9), (303, 9), (175, 9), (431, 9), (111, 9), (367, 9), (239, 9), (495, 9),
     (31, 9), (287, 9), (159, 9), (415, 9), (95, 9), (351, 9), (223, 9), (479, 9),
     (63, 9), (319, 9), (191, 9), (447, 9), (127, 9), (383, 9), (255, 9), (511, 9),
     (0, 7), (64, 7), (32, 7), (96, 7), (16, 7), (80, 7), (48, 7), (112, 7),
     (8, 7), (72, 7), (40, 7), (104, 7), (24, 7), (88, 7), (56, 7), (120, 7),
     (4, 7), (68, 7), (36, 7), (100, 7), (20, 7), (84, 7), (52, 7), (116, 7),
     (3, 8), (131, 8), (67, 8), (195, 8), (35, 8), (163, 8), (99, 8), (227, 8)]"

definition static_dtree :: tree where
  "static_dtree = mk_tree
    [(0, 5), (16, 5), (8, 5), (24, 5), (4, 5), (20, 5), (12, 5), (28, 5),
     (2, 5), (18, 5), (10, 5), (26, 5), (6, 5), (22, 5), (14, 5), (30, 5),
     (1, 5), (17, 5), (9, 5), (25, 5), (5, 5), (21, 5), (13, 5), (29, 5),
     (3, 5), (19, 5), (11, 5), (27, 5), (7, 5), (23, 5)]"

definition zng_dist_code :: "nat list" where
  "zng_dist_code =
    [0, 1, 2, 3, 4, 4, 5, 5, 6, 6, 6, 6, 7, 7, 7, 7, 8, 8, 8, 8,
     8, 8, 8, 8, 9, 9, 9, 9, 9, 9, 9, 9, 10, 10, 10, 10, 10, 10, 10, 10,
     10, 10, 10, 10, 10, 10, 10, 10, 11, 11, 11, 11, 11, 11, 11, 11, 11, 11, 11, 11,
     11, 11, 11, 11, 12, 12, 12, 12, 12, 12, 12, 12, 12, 12, 12, 12, 12, 12, 12, 12,
     12, 12, 12, 12, 12, 12, 12, 12, 12, 12, 12, 12, 12, 12, 12, 12, 13, 13, 13, 13,
     13, 13, 13, 13, 13, 13, 13, 13, 13, 13, 13, 13, 13, 13, 13, 13, 13, 13, 13, 13,
     13, 13, 13, 13, 13, 13, 13, 13, 14, 14, 14, 14, 14, 14, 14, 14, 14, 14, 14, 14,
     14, 14, 14, 14, 14, 14, 14, 14, 14, 14, 14, 14, 14, 14, 14, 14, 14, 14, 14, 14,
     14, 14, 14, 14, 14, 14, 14, 14, 14, 14, 14, 14, 14, 14, 14, 14, 14, 14, 14, 14,
     14, 14, 14, 14, 14, 14, 14, 14, 14, 14, 14, 14, 15, 15, 15, 15, 15, 15, 15, 15,
     15, 15, 15, 15, 15, 15, 15, 15, 15, 15, 15, 15, 15, 15, 15, 15, 15, 15, 15, 15,
     15, 15, 15, 15, 15, 15, 15, 15, 15, 15, 15, 15, 15, 15, 15, 15, 15, 15, 15, 15,
     15, 15, 15, 15, 15, 15, 15, 15, 15, 15, 15, 15, 15, 15, 15, 15, 0, 0, 16, 17,
     18, 18, 19, 19, 20, 20, 20, 20, 21, 21, 21, 21, 22, 22, 22, 22, 22, 22, 22, 22,
     23, 23, 23, 23, 23, 23, 23, 23, 24, 24, 24, 24, 24, 24, 24, 24, 24, 24, 24, 24,
     24, 24, 24, 24, 25, 25, 25, 25, 25, 25, 25, 25, 25, 25, 25, 25, 25, 25, 25, 25,
     26, 26, 26, 26, 26, 26, 26, 26, 26, 26, 26, 26, 26, 26, 26, 26, 26, 26, 26, 26,
     26, 26, 26, 26, 26, 26, 26, 26, 26, 26, 26, 26, 27, 27, 27, 27, 27, 27, 27, 27,
     27, 27, 27, 27, 27, 27, 27, 27, 27, 27, 27, 27, 27, 27, 27, 27, 27, 27, 27, 27,
     27, 27, 27, 27, 28, 28, 28, 28, 28, 28, 28, 28, 28, 28, 28, 28, 28, 28, 28, 28,
     28, 28, 28, 28, 28, 28, 28, 28, 28, 28, 28, 28, 28, 28, 28, 28, 28, 28, 28, 28,
     28, 28, 28, 28, 28, 28, 28, 28, 28, 28, 28, 28, 28, 28, 28, 28, 28, 28, 28, 28,
     28, 28, 28, 28, 28, 28, 28, 28, 29, 29, 29, 29, 29, 29, 29, 29, 29, 29, 29, 29,
     29, 29, 29, 29, 29, 29, 29, 29, 29, 29, 29, 29, 29, 29, 29, 29, 29, 29, 29, 29,
     29, 29, 29, 29, 29, 29, 29, 29, 29, 29, 29, 29, 29, 29, 29, 29, 29, 29, 29, 29,
     29, 29, 29, 29, 29, 29, 29, 29, 29, 29, 29, 29]"

definition zng_length_code :: "nat list" where
  "zng_length_code =
    [0, 1, 2, 3, 4, 5, 6, 7, 8, 8, 9, 9, 10, 10, 11, 11, 12, 12, 12, 12,
     13, 13, 13, 13, 14, 14, 14, 14, 15, 15, 15, 15, 16, 16, 16, 16, 16, 16, 16, 16,
     17, 17, 17, 17, 17, 17, 17, 17, 18, 18, 18, 18, 18, 18, 18, 18, 19, 19, 19, 19,
     19, 19, 19, 19, 20, 20, 20, 20, 20, 20, 20, 20, 20, 20, 20, 20, 20, 20, 20, 20,
     21, 21, 21, 21, 21, 21, 21, 21, 21, 21, 21, 21, 21, 21, 21, 21, 22, 22, 22, 22,
     22, 22, 22, 22, 22, 22, 22, 22, 22, 22, 22, 22, 23, 23, 23, 23, 23, 23, 23, 23,
     23, 23, 23, 23, 23, 23, 23, 23, 24, 24, 24, 24, 24, 24, 24, 24, 24, 24, 24, 24,
     24, 24, 24, 24, 24, 24, 24, 24, 24, 24, 24, 24, 24, 24, 24, 24, 24, 24, 24, 24,
     25, 25, 25, 25, 25, 25, 25, 25, 25, 25, 25, 25, 25, 25, 25, 25, 25, 25, 25, 25,
     25, 25, 25, 25, 25, 25, 25, 25, 25, 25, 25, 25, 26, 26, 26, 26, 26, 26, 26, 26,
     26, 26, 26, 26, 26, 26, 26, 26, 26, 26, 26, 26, 26, 26, 26, 26, 26, 26, 26, 26,
     26, 26, 26, 26, 27, 27, 27, 27, 27, 27, 27, 27, 27, 27, 27, 27, 27, 27, 27, 27,
     27, 27, 27, 27, 27, 27, 27, 27, 27, 27, 27, 27, 27, 27, 27, 28]"

definition LMASK_EXTRA :: "u16 \<Rightarrow> u16 \<Rightarrow> u16" where "LMASK_EXTRA msk extra = push_bit 8 extra OR msk"
definition DMASK_EXTRA :: "u32 \<Rightarrow> u32 \<Rightarrow> u32" where "DMASK_EXTRA msk extra = push_bit 16 extra OR msk"

definition lmask_extra :: "u16 list" where
  "lmask_extra =
    [LMASK_EXTRA 0 0, LMASK_EXTRA 0 0, LMASK_EXTRA 0 0, LMASK_EXTRA 0 0, LMASK_EXTRA 0 0, LMASK_EXTRA 0 0,
     LMASK_EXTRA 0 0, LMASK_EXTRA 0 0, LMASK_EXTRA 1 1, LMASK_EXTRA 1 1, LMASK_EXTRA 1 1, LMASK_EXTRA 1 1,
     LMASK_EXTRA 3 2, LMASK_EXTRA 3 2, LMASK_EXTRA 3 2, LMASK_EXTRA 3 2, LMASK_EXTRA 7 3, LMASK_EXTRA 7 3,
     LMASK_EXTRA 7 3, LMASK_EXTRA 7 3, LMASK_EXTRA 15 4, LMASK_EXTRA 15 4, LMASK_EXTRA 15 4, LMASK_EXTRA 15 4,
     LMASK_EXTRA 31 5, LMASK_EXTRA 31 5, LMASK_EXTRA 31 5, LMASK_EXTRA 31 5, LMASK_EXTRA 0 0]"

definition dmask_extra :: "u32 list" where
  "dmask_extra =
    [DMASK_EXTRA 0 0, DMASK_EXTRA 0 0, DMASK_EXTRA 0 0, DMASK_EXTRA 0 0, DMASK_EXTRA 1 1, DMASK_EXTRA 1 1,
     DMASK_EXTRA 3 2, DMASK_EXTRA 3 2, DMASK_EXTRA 7 3, DMASK_EXTRA 7 3, DMASK_EXTRA 15 4, DMASK_EXTRA 15 4,
     DMASK_EXTRA 31 5, DMASK_EXTRA 31 5, DMASK_EXTRA 63 6, DMASK_EXTRA 63 6, DMASK_EXTRA 127 7, DMASK_EXTRA 127 7,
     DMASK_EXTRA 255 8, DMASK_EXTRA 255 8, DMASK_EXTRA 511 9, DMASK_EXTRA 511 9, DMASK_EXTRA 1023 10, DMASK_EXTRA 1023 10,
     DMASK_EXTRA 2047 11, DMASK_EXTRA 2047 11, DMASK_EXTRA 4095 12, DMASK_EXTRA 4095 12, DMASK_EXTRA 8191 13, DMASK_EXTRA 8191 13]"

definition d_code :: "nat \<Rightarrow> nat" where
  "d_code dist = (if dist < 256 then zng_dist_code ! dist else zng_dist_code ! (256 + dist div 2 ^ 7))"

section \<open>The generator\<close>

text \<open>One run of the inner loops of \<^verbatim>\<open>tr_static_init\<close>: \<open>n\<close> entries from \<open>pos\<close> on get \<open>code\<close>.\<close>

fun fill_run :: "nat \<Rightarrow> nat \<Rightarrow> nat list \<times> nat \<Rightarrow> nat list \<times> nat" where
  "fill_run 0 code st = st"
| "fill_run (Suc n) code (tab, pos) = fill_run n code (tab[pos := code], pos + 1)"

definition fill_runs :: "(nat \<Rightarrow> nat) \<Rightarrow> nat list \<Rightarrow> nat list \<times> nat \<Rightarrow> nat list \<times> nat" where
  "fill_runs f codes = fold (\<lambda>code. fill_run (f code) code) codes"

text \<open>The arrays base_length and base_dist are set by the generator but never printed.\<close>

definition gen_length_code :: "nat list" where
  "gen_length_code =
     (let (tab, len) = fill_runs (\<lambda>code. 2 ^ (extra_lbits ! code)) [0..<LENGTH_CODES - 1] (replicate 256 0, 0)
      in tab[len - 1 := LENGTH_CODES - 1])"

definition gen_dist_code :: "nat list" where
  "gen_dist_code =
     (let (tab, dist) = fill_runs (\<lambda>code. 2 ^ (extra_dbits ! code)) [0..<16] (replicate 512 0, 0)
      in fst (fill_runs (\<lambda>code. 2 ^ (extra_dbits ! code - 7)) [16..<D_CODES] (tab, 256 + dist div 2 ^ 7)))"

definition gen_static_lens :: "tree" where
  "gen_static_lens = map (\<lambda>l. \<lparr>fc = 0, dl = l\<rparr>)
     (replicate 144 8 @ replicate 112 9 @ replicate 24 7 @ replicate 8 8)"

definition gen_static_ltree :: tree where
  "gen_static_ltree = gen_codes gen_static_lens (int L_CODES + 1)
     [0, 0, 0, 0, 0, 0, 0, 24, 144 + 8, 112, 0, 0, 0, 0, 0, 0]"

definition gen_static_dtree :: tree where
  "gen_static_dtree = map (\<lambda>n. \<lparr>fc = bi_reverse (of_nat n) 5, dl = 5\<rparr>) [0..<D_CODES]"

lemma fill_run_eq:
  "pos + n \<le> length tab \<Longrightarrow>
    fill_run n code (tab, pos) = (take pos tab @ replicate n code @ drop (pos + n) tab, pos + n)"
proof (induction n arbitrary: tab pos)
  case (Suc n)
  have "take (Suc pos) (tab[pos := code]) = take pos tab @ [code]"
    using Suc.prems by (simp add: take_Suc_conv_app_nth)
  with Suc show ?case by (simp add: drop_update_cancel)
qed simp

lemma fill_runs_eq:
  "pos + sum_list (map f codes) \<le> length tab \<Longrightarrow> fill_runs f codes (tab, pos) =
    (take pos tab @ concat (map (\<lambda>c. replicate (f c) c) codes) @ drop (pos + sum_list (map f codes)) tab,
     pos + sum_list (map f codes))"
proof (induction codes arbitrary: tab pos)
  case (Cons c codes)
  have r: "fill_run (f c) c (tab, pos) = (take pos tab @ replicate (f c) c @ drop (pos + f c) tab, pos + f c)"
    using Cons.prems by (intro fill_run_eq) simp
  show ?case
    using Cons.prems Cons.IH [of "pos + f c" "take pos tab @ replicate (f c) c @ drop (pos + f c) tab"]
    by (simp add: fill_runs_def r add.assoc add.commute)
qed (simp add: fill_runs_def)

lemma gen_length_code_eq: "gen_length_code = zng_length_code"
  by code_simp

lemma gen_dist_code_eq: "gen_dist_code = zng_dist_code"
proof -
  define lo :: "nat list" where "lo = concat (map (\<lambda>c. replicate (2 ^ (extra_dbits ! c)) c) [0..<16])"
  define hi :: "nat list" where "hi = concat (map (\<lambda>c. replicate (2 ^ (extra_dbits ! c - 7)) c) [16..<D_CODES])"
  have sum: "sum_list (map (\<lambda>code. 2 ^ (extra_dbits ! code)) [0..<16]) = (256 :: nat)"
    "sum_list (map (\<lambda>code. 2 ^ (extra_dbits ! code - 7)) [16..<D_CODES]) = (254 :: nat)" by code_simp+
  have len: "length lo = 256" unfolding lo_def by code_simp
  have all: "lo @ [0, 0] @ hi = zng_dist_code" unfolding lo_def hi_def by code_simp
  have "fill_runs (\<lambda>code. 2 ^ (extra_dbits ! code)) [0..<16] (replicate 512 0, 0) = (lo @ replicate 256 0, 256)"
    by (simp add: fill_runs_eq sum lo_def del: upt_rec_numeral upt_Suc)
  then have "gen_dist_code = take 258 (lo @ replicate 256 0) @ hi @ drop 512 (lo @ replicate 256 0)"
    by (simp add: gen_dist_code_def fill_runs_eq sum len hi_def del: upt_rec_numeral upt_Suc take_append drop_append)
  also have "\<dots> = lo @ [0, 0] @ hi" by (simp add: len numeral_2_eq_2)
  finally show ?thesis using all by simp
qed

lemma gen_static_dtree_eq: "gen_static_dtree = static_dtree"
  by code_simp

lemma count_list_replicate [simp]: "count_list (replicate n x) y = (if x = y then n else 0)"
  by (induction n) auto

definition static_lens :: "nat list" where
  "static_lens = replicate 144 8 @ replicate 112 9 @ replicate 24 7 @ replicate 8 8"

lemma static_first_code: "first_code static_lens 7 = 0" "first_code static_lens 8 = 48" "first_code static_lens 9 = 400"
proof -
  have z: "count_list static_lens j = 0" if "j < 7" for j using that by (simp add: static_lens_def)
  show 7: "first_code static_lens 7 = 0" by (simp add: first_code_def z)
  have 8: "first_code static_lens (Suc 7) = 48"
    by (subst first_code_Suc) (simp_all add: 7, simp add: static_lens_def)
  then show "first_code static_lens 8 = 48" by simp
  have "first_code static_lens (Suc 8) = 400"
    using 8 by (subst first_code_Suc) (simp_all add: static_lens_def)
  then show "first_code static_lens 9 = 400" by simp
qed

lemma static_canonical:
  "m < 288 \<Longrightarrow> static_lens ! m = (if m < 144 then 8 else if m < 256 then 9 else if m < 280 then 7 else 8)"
  "m < 288 \<Longrightarrow> canonical static_lens m =
     (if m < 144 then 48 + m else if m < 256 then 256 + m else if m < 280 then m - 256 else m - 88)"
proof -
  show l: "static_lens ! m = (if m < 144 then 8 else if m < 256 then 9 else if m < 280 then 7 else 8)" if "m < 288"
    using that by (auto simp: static_lens_def nth_append)
  show "canonical static_lens m =
     (if m < 144 then 48 + m else if m < 256 then 256 + m else if m < 280 then m - 256 else m - 88)" if "m < 288"
    using that by (auto simp: canonical_def l static_first_code) (auto simp: static_lens_def min_def)
qed

lemma static_ltree_runs:
  "static_ltree = map (\<lambda>m. \<lparr>fc = bi_reverse (of_nat (48 + m)) 8, dl = 8\<rparr>) [0..<144]
     @ map (\<lambda>m. \<lparr>fc = bi_reverse (of_nat (256 + m)) 9, dl = 9\<rparr>) [144..<256]
     @ map (\<lambda>m. \<lparr>fc = bi_reverse (of_nat (m - 256)) 7, dl = 7\<rparr>) [256..<280]
     @ map (\<lambda>m. \<lparr>fc = bi_reverse (of_nat (m - 88)) 8, dl = 8\<rparr>) [280..<288]"
  by code_simp

lemma static_ltree_nth:
  assumes "m < 288"
  shows "static_ltree ! m = \<lparr>fc = bi_reverse (of_nat (canonical static_lens m)) (static_lens ! m), dl = of_nat (static_lens ! m)\<rparr>"
  unfolding static_canonical(1) [OF assms] static_canonical(2) [OF assms] static_ltree_runs
  using assms by (auto simp: nth_append simp del: upt_rec_numeral)

lemma length_static [simp]: "length static_ltree = 288" "length static_dtree = 30"
  by (simp_all add: static_ltree_def static_dtree_def mk_tree_def)

abbreviation static_bl_count :: "u16 list" where
  "static_bl_count \<equiv> [0, 0, 0, 0, 0, 0, 0, 24, 144 + 8, 112, 0, 0, 0, 0, 0, 0]"

lemma gen_static_lens: "length gen_static_lens = 288" "tree_lens gen_static_lens 288 = static_lens"
  by (simp_all add: gen_static_lens_def tree_lens_def static_lens_def)

lemma counts_forI:
  assumes "bl = 0 # map (\<lambda>b. of_nat (count_list lens b)) [1..<16]"
  shows "counts_for bl lens"
proof -
  have "bl ! b = of_nat (count_list lens b)" if "1 \<le> b" "b \<le> 15" for b
  proof -
    have "b - 1 < length [1..<16]" "[1..<16] ! (b - 1) = b" using that nth_upt [of 1 "b - 1" 16] by auto
    with that show ?thesis unfolding assms nth_Cons' by (simp only: nth_map) simp
  qed
  then show ?thesis by (simp add: counts_for_def) (simp add: assms)
qed

lemma static_counts: "counts_for static_bl_count static_lens"
  by (rule counts_forI) (simp add: static_lens_def upt_conv_Cons)

lemma static_lens_le: "\<forall>l \<in> set static_lens. l \<le> 15"
  by (auto simp: static_lens_def)

lemma static_kraft: "kraft_sum static_lens = 2 ^ 15"
  by (simp add: kraft_sum_list static_lens_def)

lemma gen_static_ltree_eq: "gen_static_ltree = static_ltree"
proof (rule nth_equalityI)
  have n: "nat (int L_CODES + 1 + 1) = 288" by (simp add: L_CODES_def LITERALS_def LENGTH_CODES_def)
  note eq = gen_codes_canonical [of static_bl_count gen_static_lens "int L_CODES + 1", unfolded n gen_static_lens,
    OF static_counts static_lens_le order.refl, folded gen_static_ltree_def]
  show len: "length gen_static_ltree = length static_ltree" using eq(1) by simp
  fix m assume "m < length gen_static_ltree"
  then have m: "m < 288" using len by simp
  have l: "static_lens ! m \<noteq> 0" by (simp add: static_canonical(1) [OF m])
  have "Len (gen_static_lens ! m) = of_nat (static_lens ! m)"
    using m gen_static_lens(1) by (simp flip: gen_static_lens(2) add: tree_lens_def)
  then have "(gen_static_lens ! m)\<lparr>fc := c\<rparr> = \<lparr>fc = c, dl = of_nat (static_lens ! m)\<rparr>" for c
    by (cases "gen_static_lens ! m") simp
  with l m show "gen_static_ltree ! m = static_ltree ! m"
    by (simp add: eq(2) [OF m] static_ltree_nth [OF m])
qed

section \<open>The static trees are prefix codes\<close>

lemma static_dtree_nth: "n < 30 \<Longrightarrow> static_dtree ! n = \<lparr>fc = bi_reverse (of_nat n) 5, dl = 5\<rparr>"
  by (simp flip: gen_static_dtree_eq add: gen_static_dtree_def D_CODES_def)

lemma used_static_ltree: "used_codes gen_static_lens 288 = {m. m < 288}"
proof -
  have "Len (gen_static_lens ! m) \<noteq> 0" if m: "m < 288" for m
  proof -
    have "unat (Len (gen_static_lens ! m)) = static_lens ! m"
      using m gen_static_lens(1) by (simp flip: gen_static_lens(2) add: tree_lens_def)
    moreover have "static_lens ! m \<noteq> 0" by (simp add: static_canonical(1) [OF m])
    ultimately show ?thesis by auto
  qed
  then show ?thesis by (auto simp: used_codes_def)
qed

interpretation static_l: prefix_code "{m. m < 288}" "\<lambda>m. code_bits (static_ltree ! m)"
proof -
  have n: "nat (int L_CODES + 1 + 1) = 288" by (simp add: L_CODES_def LITERALS_def LENGTH_CODES_def)
  show "prefix_code {m. m < 288} (\<lambda>m. code_bits (static_ltree ! m))"
    using gen_codes_prefix_code [of static_bl_count gen_static_lens "int L_CODES + 1", unfolded n gen_static_lens used_static_ltree]
      static_counts static_lens_le static_kraft
    by (simp add: gen_static_ltree_def flip: gen_static_ltree_eq)
qed

interpretation static_d: prefix_code "{m. m < 30}" "\<lambda>m. code_bits (static_dtree ! m)"
proof
  have "distinct (map code_bits static_dtree)" by code_simp
  then have inj: "a = b" if "code_bits (static_dtree ! a) = code_bits (static_dtree ! b)" "a < 30" "b < 30" for a b
    using that by (simp add: distinct_conv_nth) (metis length_static(2) length_map nth_map)
  fix a b assume ab: "a \<in> {m. m < (30::nat)}" "b \<in> {m. m < (30::nat)}"
  assume "prefix (code_bits (static_dtree ! a)) (code_bits (static_dtree ! b))"
  then obtain zs where zs: "code_bits (static_dtree ! b) = code_bits (static_dtree ! a) @ zs" by (auto simp: prefix_def)
  then have "length (code_bits (static_dtree ! b)) = length (code_bits (static_dtree ! a) @ zs)" by (rule arg_cong)
  then have "zs = []" using ab by (simp add: code_bits_def static_dtree_nth)
  with zs have "code_bits (static_dtree ! a) = code_bits (static_dtree ! b)" by simp
  with inj ab show "a = b" by simp
qed

section \<open>Length and distance codes\<close>

text \<open>First match length (minus three) and first distance (minus one) of each code, as the generator computes them.\<close>

definition base_length :: "nat list" where
  "base_length = [0, 1, 2, 3, 4, 5, 6, 7, 8, 10, 12, 14, 16, 20, 24, 28, 32, 40, 48, 56, 64, 80, 96, 112, 128, 160,
     192, 224, 255]"

definition base_dist :: "nat list" where
  "base_dist = [0, 1, 2, 3, 4, 6, 8, 12, 16, 24, 32, 48, 64, 96, 128, 192, 256, 384, 512, 768, 1024, 1536, 2048, 3072,
     4096, 6144, 8192, 12288, 16384, 24576]"

lemma concat_runs:
  assumes "p < sum_list (map f [a..<b])"
  shows "\<exists>c \<in> {a..<b}. concat (map (\<lambda>c. replicate (f c) c) [a..<b]) ! p = c
    \<and> sum_list (map f [a..<c]) \<le> p \<and> p < sum_list (map f [a..<c]) + f c"
  using assms
proof (induction b)
  case (Suc b)
  have len: "length (concat (map (\<lambda>c. replicate (f c) c) [a..<b])) = sum_list (map f [a..<b])"
    by (simp add: length_concat comp_def)
  show ?case
  proof (cases "p < sum_list (map f [a..<b])")
    case True
    from Suc.IH [OF this] obtain c where "c \<in> {a..<b}" "concat (map (\<lambda>c. replicate (f c) c) [a..<b]) ! p = c"
      "sum_list (map f [a..<c]) \<le> p" "p < sum_list (map f [a..<c]) + f c" by blast
    with True show ?thesis by (intro bexI [of _ c]) (auto simp: nth_append len)
  next
    case False
    with Suc.prems have "a \<le> b" by (auto split: if_splits)
    with False Suc.prems show ?thesis by (intro bexI [of _ b]) (auto simp: nth_append len)
  qed
qed simp

lemma run_offset:
  assumes "b \<le> p" and "p < b + 2 ^ e" and "2 ^ e dvd b"
  shows "p = b + p mod (2 ^ e :: nat)"
proof -
  obtain k where k: "b = 2 ^ e * k" using assms(3) by (auto elim: dvdE)
  then have "p mod 2 ^ e = (p - b) mod 2 ^ e" using assms(1) by (metis le_add_diff_inverse mod_mult_self4)
  also have "\<dots> = p - b" using assms(1,2) by simp
  finally show ?thesis using assms(1) by simp
qed

lemma length_code_base:
  assumes "lc < 256"
  shows "zng_length_code ! lc < 29 \<and>
    lc = base_length ! (zng_length_code ! lc) + lc mod 2 ^ (extra_lbits ! (zng_length_code ! lc))"
proof (cases "lc = 255")
  case True
  have "zng_length_code ! 255 = 28" by (simp add: zng_length_code_def)
  with True show ?thesis by (simp add: base_length_def extra_lbits_def)
next
  case False
  let ?f = "\<lambda>c. 2 ^ (extra_lbits ! c) :: nat" and ?runs = "concat (map (\<lambda>c. replicate (2 ^ (extra_lbits ! c)) c) [0..<28])"
  have sum: "sum_list (map ?f [0..<28]) = 256" by code_simp
  have base: "\<forall>c \<in> set [0..<28]. sum_list (map ?f [0..<c]) = base_length ! c \<and> 2 ^ (extra_lbits ! c) dvd base_length ! c"
    by code_simp
  have runs: "?runs[255 := 28] = zng_length_code" by code_simp
  from assms sum obtain c where c: "c \<in> {0..<28}" "?runs ! lc = c" "sum_list (map ?f [0..<c]) \<le> lc"
    "lc < sum_list (map ?f [0..<c]) + ?f c" using concat_runs [of lc ?f 0 28] by auto
  have "zng_length_code ! lc = c" using False c(2) by (simp flip: runs)
  with c base run_offset [of "base_length ! c" lc "extra_lbits ! c"] show ?thesis
    by (simp del: upt_rec_numeral upt_Suc)
qed

lemma d_code_base:
  assumes "dist < 32768"
  shows "d_code dist < 30 \<and> dist = base_dist ! (d_code dist) + dist mod 2 ^ (extra_dbits ! (d_code dist))"
proof (cases "dist < 256")
  case True
  let ?f = "\<lambda>c. 2 ^ (extra_dbits ! c) :: nat" and ?runs = "concat (map (\<lambda>c. replicate (2 ^ (extra_dbits ! c)) c) [0..<16])"
  have sum: "sum_list (map ?f [0..<16]) = 256" by code_simp
  have base: "\<forall>c \<in> set [0..<16]. sum_list (map ?f [0..<c]) = base_dist ! c \<and> 2 ^ (extra_dbits ! c) dvd base_dist ! c"
    by (simp add: base_dist_def extra_dbits_def upt_conv_Cons)
  have runs: "take 256 zng_dist_code = ?runs" by code_simp
  from True sum obtain c where c: "c \<in> {0..<16}" "?runs ! dist = c" "sum_list (map ?f [0..<c]) \<le> dist"
    "dist < sum_list (map ?f [0..<c]) + ?f c" using concat_runs [of dist ?f 0 16] by auto
  have "d_code dist = c" using True c(2) by (simp add: d_code_def flip: runs)
  with c base run_offset [of "base_dist ! c" dist "extra_dbits ! c"] show ?thesis
    by (simp del: upt_rec_numeral upt_Suc)
next
  case False
  let ?f = "\<lambda>c. 2 ^ (extra_dbits ! c - 7) :: nat"
  let ?runs = "concat (map (\<lambda>c. replicate (2 ^ (extra_dbits ! c - 7)) c) [16..<30])"
  define q where "q = dist div 128 - 2"
  have q: "dist div 128 = q + 2" "q < 254" using False assms by (auto simp: q_def)
  have sum: "sum_list (map ?f [16..<30]) = 254" by code_simp
  have base: "\<forall>c \<in> set [16..<30]. 7 \<le> extra_dbits ! c \<and> base_dist ! c = 128 * (2 + sum_list (map ?f [16..<c]))
      \<and> 2 ^ (extra_dbits ! c) dvd base_dist ! c"
    by (simp add: base_dist_def extra_dbits_def upt_conv_Cons)
  have runs: "drop 258 zng_dist_code = ?runs" by code_simp
  from q(2) sum obtain c where c: "c \<in> {16..<30}" "?runs ! q = c" "sum_list (map ?f [16..<c]) \<le> q"
    "q < sum_list (map ?f [16..<c]) + ?f c" using concat_runs [of q ?f 16 30] by auto
  have "c \<in> set [16..<30]" using c(1) by (simp only: set_upt)
  note cb' = bspec [OF base this]
  have cb: "7 \<le> extra_dbits ! c" "base_dist ! c = 128 * (2 + sum_list (map ?f [16..<c]))"
    "2 ^ (extra_dbits ! c) dvd base_dist ! c" using cb' by blast+
  have "d_code dist = zng_dist_code ! (258 + q)" using False q by (simp add: d_code_def add.commute)
  also have "\<dots> = drop 258 zng_dist_code ! q" by (simp add: zng_dist_code_def)
  finally have d: "d_code dist = c" using c(2) by (simp only: runs)
  have pow: "2 ^ (extra_dbits ! c) = 128 * ?f c"
    using cb(1) power_add [of "2 :: nat" 7 "extra_dbits ! c - 7"] by simp
  have "dist = 128 * (q + 2) + dist mod 128" "dist mod 128 < 128" using q(1) mult_div_mod_eq [of 128 dist] by simp_all
  then obtain r where dm: "dist = 128 * (q + 2) + r" "r < 128" by blast
  define S where "S = sum_list (map ?f [16..<c])"
  define F where "F = ?f c"
  have "base_dist ! c \<le> dist" using c(3) dm unfolding cb(2) S_def [symmetric] by simp
  moreover have "dist < base_dist ! c + 2 ^ (extra_dbits ! c)" using c(4) dm unfolding cb(2) pow S_def [symmetric] F_def [symmetric] by simp
  ultimately have "dist = base_dist ! c + dist mod 2 ^ (extra_dbits ! c)" using cb(3) by (rule run_offset)
  with d c(1) show ?thesis by simp
qed

lemma lmask_extra_eq: "lmask_extra = map (\<lambda>e. LMASK_EXTRA (2 ^ e - 1) (of_nat e)) extra_lbits"
  by (simp add: lmask_extra_def extra_lbits_def)

lemma dmask_extra_eq: "dmask_extra = map (\<lambda>e. DMASK_EXTRA (2 ^ e - 1) (of_nat e)) extra_dbits"
  by (simp add: dmask_extra_def extra_dbits_def)

section \<open>Properties\<close>

text \<open>
  C25: The tables shipped in trees_tbl.h are the ones its generator computes: the length and distance
  codes, the static literal tree (the canonical codes of the fixed lengths, including the two
  unused symbols), the static distance tree and the combined mask tables.
\<close>

theorem trees_tables_generated:
  "zng_length_code = gen_length_code \<and> zng_dist_code = gen_dist_code
    \<and> static_ltree = gen_static_ltree \<and> static_dtree = gen_static_dtree
    \<and> lmask_extra = map (\<lambda>e. LMASK_EXTRA (2 ^ e - 1) (of_nat e)) extra_lbits
    \<and> dmask_extra = map (\<lambda>e. DMASK_EXTRA (2 ^ e - 1) (of_nat e)) extra_dbits"
  using gen_length_code_eq gen_dist_code_eq gen_static_ltree_eq gen_static_dtree_eq lmask_extra_eq dmask_extra_eq
  by simp

text \<open>
  C26: Every match length from 3 to 258 and every distance from 1 to 32768 is determined by its code and the
  extra bits that are sent with it: the code is in range and the value is the base of the code plus the low bits.
\<close>

theorem length_dist_codes:
  "(\<forall>lc \<in> {0..<256}. zng_length_code ! lc < LENGTH_CODES \<and>
      lc = base_length ! (zng_length_code ! lc) + lc mod 2 ^ (extra_lbits ! (zng_length_code ! lc)))
    \<and> (\<forall>dist \<in> {0..<32768}. d_code dist < D_CODES \<and>
      dist = base_dist ! (d_code dist) + dist mod 2 ^ (extra_dbits ! (d_code dist)))"
  using length_code_base d_code_base by (auto simp: LENGTH_CODES_def D_CODES_def)

theorem length_dist_codes_witness: "d_code 5000 < D_CODES \<and> zng_length_code ! 200 < LENGTH_CODES"
  using length_dist_codes by simp

text \<open>
  C27: A bit string that starts with a code of the static literal tree starts with exactly one such code,
  and likewise for the static distance tree.
\<close>

theorem static_trees_decodable:
  "(\<forall>a \<in> {0..<288}. \<forall>b \<in> {0..<288}. \<forall>r r'.
      code_bits (static_ltree ! a) @ r = code_bits (static_ltree ! b) @ r' \<longrightarrow> a = b \<and> r = r')
    \<and> (\<forall>a \<in> {0..<D_CODES}. \<forall>b \<in> {0..<D_CODES}. \<forall>r r'.
      code_bits (static_dtree ! a) @ r = code_bits (static_dtree ! b) @ r' \<longrightarrow> a = b \<and> r = r')"
proof (intro conjI ballI allI impI)
  fix a b r r'
  assume "a \<in> {0..<288}" "b \<in> {0..<288}" "code_bits (static_ltree ! a) @ r = code_bits (static_ltree ! b) @ r'"
  then have "a = b \<and> r = r'" by (intro static_l.next_symbol) simp_all
  then show "a = b" "r = r'" by blast+
next
  fix a b r r'
  assume "a \<in> {0..<D_CODES}" "b \<in> {0..<D_CODES}" "code_bits (static_dtree ! a) @ r = code_bits (static_dtree ! b) @ r'"
  then have "a = b \<and> r = r'" by (intro static_d.next_symbol) (simp_all add: D_CODES_def)
  then show "a = b" "r = r'" by blast+
qed

theorem static_trees_decodable_witness: "code_bits (static_ltree ! 256) \<noteq> code_bits (static_ltree ! 257)"
proof
  assume "code_bits (static_ltree ! 256) = code_bits (static_ltree ! 257)"
  then have "code_bits (static_ltree ! 256) @ [] = code_bits (static_ltree ! 257) @ []" by simp
  moreover have "256 \<in> {0..<288::nat}" "257 \<in> {0..<288::nat}" by simp_all
  ultimately have "(256 :: nat) = 257" using static_trees_decodable by blast
  then show False by simp
qed

end
