(* ===== verification/Trees_Build.thy ===== *)
theory Trees_Build
  imports Trees_Tables "HOL-Library.Multiset"
begin

text \<open>
  Construction of a Huffman tree: build_tree, pq_radix_pass, pq_take and gen_bitlen of trees.c. The
  operations work on the tree, the two length counters and the length statistics explicitly; the compressor state
  stores them back. Reads below index zero of the statistics are the value \<open>None\<close>, and the lemmas show that it
  never arises.
\<close>

section \<open>Tree descriptors\<close>

record static_tree_desc =
  static_tree :: "tree option"
  extra_bits :: "nat list"
  extra_base :: nat
  elems :: nat
  max_length :: nat

definition static_l_desc :: static_tree_desc where
  "static_l_desc = \<lparr>static_tree = Some static_ltree, extra_bits = extra_lbits, extra_base = LITERALS + 1,
     elems = L_CODES, max_length = MAX_BITS\<rparr>"

definition static_d_desc :: static_tree_desc where
  "static_d_desc = \<lparr>static_tree = Some static_dtree, extra_bits = extra_dbits, extra_base = 0,
     elems = D_CODES, max_length = MAX_BITS\<rparr>"

definition static_bl_desc :: static_tree_desc where
  "static_bl_desc = \<lparr>static_tree = None, extra_bits = extra_blbits, extra_base = 0,
     elems = BL_CODES, max_length = MAX_BL_BITS\<rparr>"

section \<open>The two queues\<close>

definition PQ_NODE_BITS :: nat where "PQ_NODE_BITS = 10"

definition pq_pack :: "u16 \<Rightarrow> nat \<Rightarrow> u32" where
  "pq_pack freq node = push_bit PQ_NODE_BITS (ucast freq) OR of_nat node"

definition pq_node :: "u32 \<Rightarrow> nat" where
  "pq_node e = unat (e AND (push_bit PQ_NODE_BITS 1 - 1))"

definition pq_freq :: "u32 \<Rightarrow> u32" where
  "pq_freq e = drop_bit PQ_NODE_BITS e"

definition pq_digit :: "nat \<Rightarrow> u32 \<Rightarrow> nat" where
  "pq_digit shift e = unat (drop_bit shift e AND 0xff)"

definition radix_starts :: "u16 list \<Rightarrow> u16 list" where
  "radix_starts cnt = fold (\<lambda>i cnt. cnt[i := cnt ! i + cnt ! (i - 1)]) [1..<257] cnt"

definition radix_place :: "nat \<Rightarrow> u32 \<Rightarrow> u32 list \<times> u16 list \<Rightarrow> u32 list \<times> u16 list" where
  "radix_place shift e st = (case st of (dst, cnt) \<Rightarrow>
     let d = pq_digit shift e in (dst[unat (cnt ! d) := e], cnt[d := cnt ! d + 1]))"

definition pq_radix_pass :: "u32 list \<Rightarrow> u32 list \<Rightarrow> nat \<Rightarrow> u16 list \<Rightarrow> u32 list" where
  "pq_radix_pass src dst shift cnt = fst (fold (radix_place shift) src (dst, radix_starts cnt))"

text \<open>The position of the leaf queue and of the internal queue are returned with the entry.\<close>

definition pq_take :: "u32 list \<Rightarrow> nat \<Rightarrow> u32 list \<Rightarrow> nat \<Rightarrow> u32 \<times> nat \<times> nat" where
  "pq_take leaves li internals ihead =
     (if li < length leaves \<and> (ihead = length internals \<or> leaves ! li < internals ! ihead)
      then (leaves ! li, li + 1, ihead) else (internals ! ihead, li, ihead + 1))"

section \<open>Building the tree\<close>

type_synonym scan_state = "tree \<times> u32 list \<times> u16 list \<times> u16 list \<times> int"

definition scan_leaf :: "nat \<Rightarrow> scan_state \<Rightarrow> scan_state" where
  "scan_leaf n st = (case st of (tree, leaves, count_lo, count_hi, max_code) \<Rightarrow>
     let freq = Freq (tree ! n) in
     if freq \<noteq> 0
     then let lo = unat (freq AND 0xff) + 1; hi = unat (drop_bit 8 freq) + 1
       in (tree, leaves @ [pq_pack freq n], count_lo[lo := count_lo ! lo + 1], count_hi[hi := count_hi ! hi + 1], int n)
     else (tree[n := (tree ! n)\<lparr>dl := 0\<rparr>], leaves, count_lo, count_hi, max_code))"

definition stree_len :: "static_tree_desc \<Rightarrow> nat \<Rightarrow> u32" where
  "stree_len sd n = (case static_tree sd of Some stree \<Rightarrow> ucast (Len (stree ! n)) | None \<Rightarrow> 0)"

type_synonym force_state = "tree \<times> u32 list \<times> int \<times> u32 \<times> u32"

function force_leaves :: "static_tree_desc \<Rightarrow> force_state \<Rightarrow> force_state" where
  "force_leaves sd (tree, leaves, max_code, opt_len, static_len) =
    (if length leaves < 2
     then let max_code' = (if max_code < 2 then max_code + 1 else max_code);
              node = (if max_code < 2 then nat max_code' else 0)
       in force_leaves sd (tree[node := (tree ! node)\<lparr>fc := 1\<rparr>], leaves @ [pq_pack 1 node], max_code',
            opt_len - 1, static_len - stree_len sd node)
     else (tree, leaves, max_code, opt_len, static_len))"
  by pat_completeness auto
termination
  by (relation "measure (\<lambda>(sd, tree, leaves, max_code, opt_len, static_len). 2 - length leaves)") auto

text \<open>
  The sorted leaves. The buffer \<open>scratch\<close> has the length of the leaf list: only that part of it
  is written.
\<close>

definition sort_leaves :: "u32 list \<Rightarrow> u16 list \<Rightarrow> u16 list \<Rightarrow> u32 list" where
  "sort_leaves leaves count_lo count_hi =
    (let scratch = replicate (length leaves) 0 in
     if length leaves = 2
     then if leaves ! 0 > leaves ! 1 then [leaves ! 1, leaves ! 0] else leaves
     else if unat (count_hi ! 1) = length leaves
     then pq_radix_pass leaves scratch PQ_NODE_BITS count_lo
     else let scratch = pq_radix_pass leaves scratch PQ_NODE_BITS count_lo
       in pq_radix_pass scratch leaves (PQ_NODE_BITS + 8) count_hi)"

type_synonym merge_state = "tree \<times> nat \<times> u32 list \<times> nat \<times> nat"

definition merge_step :: "u32 list \<Rightarrow> merge_state \<Rightarrow> merge_state" where
  "merge_step leaves st = (case st of (tree, li, internals, ihead, node) \<Rightarrow>
     let (en, li, ihead) = pq_take leaves li internals ihead;
         (em, li, ihead) = pq_take leaves li internals ihead;
         n = pq_node en; m = pq_node em;
         f = ucast (pq_freq en + pq_freq em) :: u16;
         tree = tree[node := (tree ! node)\<lparr>fc := f\<rparr>];
         tree = tree[m := (tree ! m)\<lparr>dl := of_nat node\<rparr>];
         tree = tree[n := (tree ! n)\<lparr>dl := of_nat node\<rparr>]
     in (tree, li, internals @ [pq_pack f node], ihead, node + 1))"

definition merge_all :: "static_tree_desc \<Rightarrow> tree \<Rightarrow> u32 list \<Rightarrow> merge_state" where
  "merge_all sd tree leaves = (merge_step leaves ^^ (length leaves - 1)) (tree, 0, [], 0, elems sd)"

section \<open>Bit lengths\<close>

definition clamp_bits :: "nat \<Rightarrow> tree \<Rightarrow> nat \<Rightarrow> nat" where
  "clamp_bits max_len tree n = min max_len (unat (Len (tree ! unat (Dad (tree ! n)))) + 1)"

definition clamped :: "nat \<Rightarrow> tree \<Rightarrow> nat \<Rightarrow> bool" where
  "clamped max_len tree n \<longleftrightarrow> unat (Len (tree ! unat (Dad (tree ! n)))) + 1 > max_len"

definition internal_len :: "nat \<Rightarrow> nat \<Rightarrow> tree \<times> int \<Rightarrow> tree \<times> int" where
  "internal_len max_len n st = (case st of (tree, overflow) \<Rightarrow>
     (tree[n := (tree ! n)\<lparr>dl := of_nat (clamp_bits max_len tree n)\<rparr>], overflow + of_bool (clamped max_len tree n)))"

definition xbits :: "static_tree_desc \<Rightarrow> nat \<Rightarrow> nat" where
  "xbits sd n = (if n \<ge> extra_base sd then extra_bits sd ! (n - extra_base sd) else 0)"

type_synonym len_state = "tree \<times> int \<times> u16 list \<times> u32 \<times> u32"

definition leaf_len :: "static_tree_desc \<Rightarrow> u32 \<Rightarrow> len_state \<Rightarrow> len_state" where
  "leaf_len sd e st = (case st of (tree, overflow, bl_count, opt_len, static_len) \<Rightarrow>
     let n = pq_node e; bits = clamp_bits (max_length sd) tree n; f = ucast (Freq (tree ! n)) :: u32
     in (tree[n := (tree ! n)\<lparr>dl := of_nat bits\<rparr>], overflow + of_bool (clamped (max_length sd) tree n),
         bl_count[bits := bl_count ! bits + 1],
         opt_len + f * of_nat (bits + xbits sd n),
         (case static_tree sd of None \<Rightarrow> static_len
          | Some stree \<Rightarrow> static_len + f * (ucast (Len (stree ! n)) + of_nat (xbits sd n)))))"

fun find_len :: "u16 list \<Rightarrow> nat \<Rightarrow> nat option" where
  "find_len bl_count bits =
     (if bl_count ! bits \<noteq> 0 then Some bits
      else case bits of 0 \<Rightarrow> None | Suc b \<Rightarrow> find_len bl_count b)"

definition move_leaf :: "nat \<Rightarrow> nat \<Rightarrow> u16 list \<Rightarrow> u16 list" where
  "move_leaf max_len bits bl_count =
    (let c = bl_count[bits := bl_count ! bits - 1];
         c = c[bits + 1 := c ! (bits + 1) + 2]
     in c[max_len := c ! max_len - 1])"

text \<open>The loop is entered with \<open>overflow > 0\<close> only.\<close>

function fix_overflow :: "nat \<Rightarrow> int \<Rightarrow> u16 list \<Rightarrow> u16 list option" where
  "fix_overflow max_len overflow bl_count =
    (case find_len bl_count (max_len - 1) of
       None \<Rightarrow> None
     | Some bits \<Rightarrow>
         if overflow - 2 > 0 then fix_overflow max_len (overflow - 2) (move_leaf max_len bits bl_count)
         else Some (move_leaf max_len bits bl_count))"
  by pat_completeness auto
termination
  by (relation "measure (\<lambda>(max_len, overflow, bl_count). nat overflow)") auto

definition set_len :: "nat \<Rightarrow> u32 \<Rightarrow> tree \<times> u32 \<Rightarrow> tree \<times> u32" where
  "set_len bits e st = (case st of (tree, opt_len) \<Rightarrow>
     let m = pq_node e in
     if unat (Len (tree ! m)) \<noteq> bits
     then (tree[m := (tree ! m)\<lparr>dl := of_nat bits\<rparr>],
           opt_len + of_nat bits * ucast (Freq (tree ! m)) - ucast (Len (tree ! m)) * ucast (Freq (tree ! m)))
     else (tree, opt_len))"

fun recompute_lens :: "u16 list \<Rightarrow> nat \<Rightarrow> u32 list \<Rightarrow> tree \<times> u32 \<Rightarrow> tree \<times> u32" where
  "recompute_lens bl_count 0 leaves st = st"
| "recompute_lens bl_count (Suc b) leaves st =
     (let n = unat (bl_count ! Suc b)
      in recompute_lens bl_count b (drop n leaves) (fold (set_len (Suc b)) (take n leaves) st))"

definition gen_bitlen :: "static_tree_desc \<Rightarrow> tree \<Rightarrow> u32 list \<Rightarrow> nat \<Rightarrow> u32 \<Rightarrow> u32
    \<Rightarrow> (tree \<times> u16 list \<times> u32 \<times> u32) option" where
  "gen_bitlen sd tree leaves root opt_len static_len =
    (let tree = tree[root := (tree ! root)\<lparr>dl := 0\<rparr>];
         (tree, overflow) = fold (internal_len (max_length sd)) (rev [elems sd..<root]) (tree, 0);
         (tree, overflow, bl_count, opt_len, static_len) =
           fold (leaf_len sd) leaves (tree, overflow, replicate (MAX_BITS + 1) 0, opt_len, static_len)
     in if overflow = 0 then Some (tree, bl_count, opt_len, static_len)
        else case fix_overflow (max_length sd) overflow bl_count of
          None \<Rightarrow> None
        | Some bl_count \<Rightarrow>
            let (tree, opt_len) = recompute_lens bl_count (max_length sd) leaves (tree, opt_len)
            in Some (tree, bl_count, opt_len, static_len))"

definition build_tree :: "static_tree_desc \<Rightarrow> tree \<Rightarrow> u32 \<Rightarrow> u32
    \<Rightarrow> (tree \<times> int \<times> u16 list \<times> u32 \<times> u32) option" where
  "build_tree sd tree opt_len static_len =
    (let (tree, leaves, count_lo, count_hi, max_code) =
           fold scan_leaf [0..<elems sd] (tree, [], replicate 257 0, replicate 257 0, -1);
         (tree, leaves, max_code, opt_len, static_len) = force_leaves sd (tree, leaves, max_code, opt_len, static_len);
         leaves = sort_leaves leaves count_lo count_hi;
         (tree, li, internals, ihead, node) = merge_all sd tree leaves
     in case gen_bitlen sd tree leaves (node - 1) opt_len static_len of
          None \<Rightarrow> None
        | Some (tree, bl_count, opt_len, static_len) \<Rightarrow>
            Some (gen_codes tree max_code bl_count, max_code, bl_count, opt_len, static_len))"

end
