(* ===== verification/Trees_Leaves.thy ===== *)
theory Trees_Leaves
  imports Trees_Build
begin

text \<open>
  The leaf queue of build_tree: packed entries, the stable counting sort over the two frequency bytes,
  and the scan that collects the leaves together with the digit histograms. The lemmas show that the
  sort returns the leaves in ascending order.
\<close>

section \<open>Queue entries\<close>

lemma unat_pq_pack: "node < 1024 \<Longrightarrow> unat (pq_pack freq node) = 1024 * unat freq + node"
proof -
  assume n: "node < 1024"
  have u: "unat freq < 2 ^ 16" using unsigned_less [of freq, where ?'a = nat] by simp
  then have f: "unat (ucast freq :: u32) = unat freq" by (simp add: unsigned_ucast_eq take_bit_nat_eq_self)
  have "unat (of_nat node OR push_bit 10 (ucast freq) :: u32) = unat (of_nat node :: u32) + 2 ^ 10 * unat (ucast freq :: u32)"
    using n u by (intro unat_or_push_bit [where n = 16]) (simp_all add: f unat_of_nat)
  then show ?thesis using n by (simp add: pq_pack_def PQ_NODE_BITS_def f unat_of_nat or.commute)
qed

lemma pq_node_eq: "pq_node e = unat e mod 1024"
proof -
  have "push_bit 10 1 - 1 = (mask 10 :: u32)" by (simp add: mask_eq_exp_minus_1)
  then have "pq_node e = unat (take_bit 10 e)"
    by (simp add: pq_node_def PQ_NODE_BITS_def take_bit_eq_mask del: push_bit_of_1)
  then show ?thesis by (simp add: unat_take_bit_mod)
qed

lemma pq_node_pack [simp]: "node < 1024 \<Longrightarrow> pq_node (pq_pack freq node) = node"
  by (simp add: pq_node_eq unat_pq_pack)

section \<open>The sorted leaves\<close>

definition buckets :: "nat \<Rightarrow> u32 list \<Rightarrow> u32 list" where
  "buckets shift src = concat (map (\<lambda>d. filter (\<lambda>e. pq_digit shift e = d) src) [0..<256])"

definition digit_count :: "nat \<Rightarrow> u32 list \<Rightarrow> nat \<Rightarrow> nat" where
  "digit_count shift src d = length (filter (\<lambda>e. pq_digit shift e = d) src)"

definition digit_counts_ok :: "nat \<Rightarrow> u32 list \<Rightarrow> u16 list \<Rightarrow> bool" where
  "digit_counts_ok shift src cnt \<longleftrightarrow> length cnt = 257 \<and> cnt ! 0 = 0
     \<and> (\<forall>d < 256. cnt ! Suc d = of_nat (digit_count shift src d))"

lemma pq_digit_less: "pq_digit shift e < 256"
proof -
  have "drop_bit shift e AND 0xff = take_bit 8 (drop_bit shift e)" by (simp add: take_bit_eq_mask mask_eq_exp_minus_1)
  then have "pq_digit shift e = unat (drop_bit shift e) mod 2 ^ 8" by (simp add: pq_digit_def unat_take_bit_mod)
  then show ?thesis by simp
qed

lemma radix_starts_eq:
  assumes "digit_counts_ok shift src cnt"
  shows "length (radix_starts cnt) = 257" and "d \<le> 256 \<Longrightarrow> radix_starts cnt ! d = of_nat (\<Sum>k < d. digit_count shift src k)"
proof -
  let ?f = "\<lambda>i cnt. cnt[i := cnt ! i + cnt ! (i - 1)]"
  have "length (fold ?f [1..<i] cnt) = 257
      \<and> (\<forall>j < 257. fold ?f [1..<i] cnt ! j = (if j < i then of_nat (\<Sum>k < j. digit_count shift src k) else cnt ! j))"
    if "1 \<le> i" "i \<le> 257" for i
    using that
  proof (induction i rule: nat_induct_at_least)
    case base
    show ?case using assms by (auto simp: digit_counts_ok_def)
  next
    case (Suc i)
    then obtain c where c: "c = fold ?f [1..<i] cnt" by blast
    have IH: "length c = 257" "\<And>j. j < 257 \<Longrightarrow> c ! j = (if j < i then of_nat (\<Sum>k < j. digit_count shift src k) else cnt ! j)"
      using Suc.IH Suc.prems unfolding c by simp_all
    have step: "fold ?f [1..<Suc i] cnt = c[i := c ! i + c ! (i - 1)]" using Suc.hyps c by simp
    obtain k where k: "i = Suc k" using Suc.hyps by (cases i) auto
    have "c ! i = of_nat (digit_count shift src k)" "c ! (i - 1) = of_nat (\<Sum>k < k. digit_count shift src k)"
      using IH(2) [of i] IH(2) [of k] Suc.prems assms k by (simp_all add: digit_counts_ok_def)
    then show ?case unfolding step using IH k Suc.prems
      by (auto simp: nth_list_update less_Suc_eq add.commute)
  qed
  from this [of 257] show "length (radix_starts cnt) = 257"
    and "d \<le> 256 \<Longrightarrow> radix_starts cnt ! d = of_nat (\<Sum>k < d. digit_count shift src k)"
    by (simp_all add: radix_starts_def)
qed

text \<open>The state of the second loop after the entries \<open>ps\<close>: every bucket holds its entries in order.\<close>

definition place_inv :: "nat \<Rightarrow> u32 list \<Rightarrow> u32 list \<Rightarrow> u32 list \<times> u16 list \<Rightarrow> bool" where
  "place_inv shift src ps st = (case st of (dst, cnt) \<Rightarrow>
     length dst = length src \<and> length cnt = 257
     \<and> (\<forall>d < 256. cnt ! d = of_nat ((\<Sum>k < d. digit_count shift src k) + digit_count shift ps d)
        \<and> take (digit_count shift ps d) (drop (\<Sum>k < d. digit_count shift src k) dst) = filter (\<lambda>e. pq_digit shift e = d) ps))"

lemma sum_digit_counts: "(\<Sum>k < 256. digit_count shift src k) = length src"
proof (induction src)
  case (Cons e src)
  have "(\<Sum>k < 256. digit_count shift (e # src) k) = (\<Sum>k < 256. of_bool (k = pq_digit shift e) + digit_count shift src k)"
    by (rule sum.cong) (auto simp: digit_count_def)
  also have "(\<Sum>k < 256. of_bool (k = pq_digit shift e)) = (1 :: nat)"
    using pq_digit_less [of shift e] by (simp add: of_bool_def)
  ultimately show ?case using Cons by (simp add: sum.distrib)
qed (simp add: digit_count_def)

lemma digit_start_mono: "d < e \<Longrightarrow> e \<le> 256 \<Longrightarrow>
    (\<Sum>k < d. digit_count shift src k) + digit_count shift src d \<le> (\<Sum>k < e. digit_count shift src k)"
proof -
  assume "d < e" "e \<le> 256"
  have "(\<Sum>k < Suc d. digit_count shift src k) \<le> (\<Sum>k < e. digit_count shift src k)"
    using \<open>d < e\<close> by (intro sum_mono2) auto
  then show ?thesis by simp
qed

lemma take_drop_update_outside:
  "pos < s \<or> s + c \<le> pos \<Longrightarrow> take c (drop s (xs[pos := x])) = take c (drop s xs)"
  by (rule nth_equalityI) (auto simp: nth_list_update)

lemma take_drop_update_end:
  "s + c < length xs \<Longrightarrow> take (Suc c) (drop s (xs[s + c := x])) = take c (drop s xs) @ [x]"
  by (rule nth_equalityI) (auto simp: nth_list_update nth_append less_Suc_eq)

lemma radix_place_inv:
  assumes inv: "place_inv shift src ps st" and src: "src = ps @ e # rest" and small: "length src \<le> 286"
  shows "place_inv shift src (ps @ [e]) (radix_place shift e st)"
proof -
  obtain dst cnt where st: "st = (dst, cnt)" by (cases st)
  define d where "d = pq_digit shift e"
  let ?s = "\<lambda>d. \<Sum>k < d. digit_count shift src k" and ?c = "digit_count shift ps" and ?t = "digit_count shift src"
  have d: "d < 256" by (simp add: d_def pq_digit_less)
  have i: "length dst = length src" "length cnt = 257" "\<And>d. d < 256 \<Longrightarrow> cnt ! d = of_nat (?s d + ?c d)"
    "\<And>d. d < 256 \<Longrightarrow> take (?c d) (drop (?s d) dst) = filter (\<lambda>e. pq_digit shift e = d) ps"
    using inv unfolding st place_inv_def prod.case by blast+
  have lt: "?c d < ?t d" and le: "?c k \<le> ?t k" for k by (simp_all add: src digit_count_def d_def)
  have "?s d + ?t d \<le> ?s 256" using d by (intro digit_start_mono) simp_all
  then have total: "?s d + ?t d \<le> length src" by (simp add: sum_digit_counts)
  have cd: "cnt ! d = of_nat (?s d + ?c d)" using i(3) d by blast
  have pos: "unat (cnt ! d) = ?s d + ?c d"
    unfolding cd using total lt small by (simp add: unat_of_nat del: of_nat_add)
  have step: "radix_place shift e st = (dst[?s d + ?c d := e], cnt[d := cnt ! d + 1])"
    by (simp add: radix_place_def st Let_def pos flip: d_def)
  have c': "digit_count shift (ps @ [e]) k = (if k = d then Suc (?c k) else ?c k)" for k
    by (simp add: digit_count_def d_def)
  have "cnt[d := cnt ! d + 1] ! k = of_nat (?s k + digit_count shift (ps @ [e]) k)
      \<and> take (digit_count shift (ps @ [e]) k) (drop (?s k) (dst[?s d + ?c d := e])) = filter (\<lambda>e. pq_digit shift e = k) (ps @ [e])"
    if k: "k < 256" for k
  proof (cases "k = d")
    case True
    have "take (Suc (?c d)) (drop (?s d) (dst[?s d + ?c d := e])) = take (?c d) (drop (?s d) dst) @ [e]"
      using total lt i by (intro take_drop_update_end) simp
    then show ?thesis using True i d by (simp add: c' cd) (simp add: d_def)
  next
    case False
    have "?s d + ?c d < ?s k \<or> ?s k + ?c k \<le> ?s d + ?c d"
    proof (cases "d < k")
      case True
      then show ?thesis using digit_start_mono [of d k shift src] k lt by simp
    next
      case False
      with \<open>k \<noteq> d\<close> have "?s k + ?t k \<le> ?s d" using d by (intro digit_start_mono) simp_all
      then show ?thesis using le [of k] by simp
    qed
    then have "take (?c k) (drop (?s k) (dst[?s d + ?c d := e])) = take (?c k) (drop (?s k) dst)"
      by (rule take_drop_update_outside)
    then show ?thesis using False i k by (simp add: c') (simp add: d_def)
  qed
  then show ?thesis unfolding step place_inv_def using i by simp
qed

lemma segments:
  "take (\<Sum>k < m. f k) xs = concat (map (\<lambda>d. take (f d) (drop (\<Sum>k < d. f k) xs)) [0..<m])" for f :: "nat \<Rightarrow> nat"
  by (induction m) (simp_all add: take_add)

lemma pq_radix_pass_buckets:
  assumes cnt: "digit_counts_ok shift src cnt" and len: "length dst = length src" "length src \<le> 286"
  shows "pq_radix_pass src dst shift cnt = buckets shift src"
proof -
  have "place_inv shift src ps (fold (radix_place shift) ps (dst, radix_starts cnt))" if "src = ps @ rest" for ps rest
    using that
  proof (induction ps arbitrary: rest rule: rev_induct)
    case Nil
    then show ?case using radix_starts_eq [OF cnt] len by (simp add: place_inv_def digit_count_def)
  next
    case (snoc e ps)
    have "place_inv shift src ps (fold (radix_place shift) ps (dst, radix_starts cnt))" using snoc by simp
    then show ?case using radix_place_inv [of shift src ps _ e rest] snoc.prems len(2) by simp
  qed
  from this [of src "[]"] obtain dst' cnt' where f: "fold (radix_place shift) src (dst, radix_starts cnt) = (dst', cnt')"
    and i: "length dst' = length src" "\<And>d. d < 256 \<Longrightarrow> take (digit_count shift src d) (drop (\<Sum>k < d. digit_count shift src k) dst')
       = filter (\<lambda>e. pq_digit shift e = d) src"
    by (cases "fold (radix_place shift) src (dst, radix_starts cnt)") (simp add: place_inv_def)
  have "dst' = take (\<Sum>k < 256. digit_count shift src k) dst'" by (simp add: sum_digit_counts i(1))
  also have "\<dots> = concat (map (\<lambda>d. take (digit_count shift src d) (drop (\<Sum>k < d. digit_count shift src k) dst')) [0..<256])"
    by (rule segments)
  also have "\<dots> = buckets shift src"
    unfolding buckets_def using i(2) by (intro arg_cong [of _ _ concat] map_cong) simp_all
  finally show ?thesis by (simp add: pq_radix_pass_def f)
qed

lemma mset_buckets: "mset (buckets shift src) = mset src"
proof -
  have "mset (concat (map (\<lambda>d. filter (\<lambda>e. pq_digit shift e = d) src) [0..<m])) = mset (filter (\<lambda>e. pq_digit shift e < m) src)" for m
  proof (induction m)
    case (Suc m)
    have "mset (filter (\<lambda>e. pq_digit shift e < Suc m) src) = mset (filter (\<lambda>e. pq_digit shift e < m) src) + mset (filter (\<lambda>e. pq_digit shift e = m) src)"
      by (induction src) auto
    with Suc show ?case by simp
  qed simp
  from this [of 256] show ?thesis by (simp add: buckets_def pq_digit_less)
qed

lemma sorted_buckets:
  assumes "sorted_wrt R src"
  shows "sorted_wrt (\<lambda>a b. pq_digit shift a < pq_digit shift b \<or> pq_digit shift a = pq_digit shift b \<and> R a b) (buckets shift src)"
proof -
  have "sorted_wrt (\<lambda>a b. pq_digit shift a < pq_digit shift b \<or> pq_digit shift a = pq_digit shift b \<and> R a b)
      (concat (map (\<lambda>d. filter (\<lambda>e. pq_digit shift e = d) src) [0..<m]))" for m
  proof (induction m)
    case (Suc m)
    have "sorted_wrt R (filter (\<lambda>e. pq_digit shift e = m) src)" using assms by (rule sorted_wrt_filter)
    then have "sorted_wrt (\<lambda>a b. pq_digit shift a < pq_digit shift b \<or> pq_digit shift a = pq_digit shift b \<and> R a b)
        (filter (\<lambda>e. pq_digit shift e = m) src)"
      by (rule sorted_wrt_mono_rel [rotated]) auto
    with Suc show ?case by (auto simp: sorted_wrt_append)
  qed simp
  then show ?thesis by (simp add: buckets_def)
qed

section \<open>The scan\<close>

definition used_nodes :: "tree \<Rightarrow> nat \<Rightarrow> nat list" where
  "used_nodes tree k = filter (\<lambda>n. Freq (tree ! n) \<noteq> 0) [0..<k]"

definition leaf_entries :: "tree \<Rightarrow> nat \<Rightarrow> u32 list" where
  "leaf_entries tree k = map (\<lambda>n. pq_pack (Freq (tree ! n)) n) (used_nodes tree k)"

lemma pq_digits:
  assumes "n < 1024"
  shows "pq_digit 10 (pq_pack f n) = unat (f AND 0xff)" and "pq_digit 18 (pq_pack f n) = unat (drop_bit 8 f)"
proof -
  have m: "x AND 0xff = take_bit 8 x" for x :: "'b::len word" by (simp add: take_bit_eq_mask mask_eq_exp_minus_1)
  have f: "unat f < 2 ^ 16" using unsigned_less [of f, where ?'a = nat] by simp
  have "(1024 * unat f + n) div 1024 = unat f" "(1024 * unat f + n) div 2 ^ 18 = unat f div 256"
    using assms div_mult2_eq [of "1024 * unat f + n" 1024 256] by simp_all
  then show "pq_digit 10 (pq_pack f n) = unat (f AND 0xff)" "pq_digit 18 (pq_pack f n) = unat (drop_bit 8 f)"
    using f by (simp_all add: pq_digit_def m unat_take_bit_mod unat_drop_bit_div unat_pq_pack [OF assms])
qed

lemma scan_leaves:
  assumes "k \<le> 286" and "k \<le> length tree"
  shows "\<exists>tree' lo hi. fold scan_leaf [0..<k] (tree, [], replicate 257 0, replicate 257 0, -1) =
      (tree', leaf_entries tree k, lo, hi, if used_nodes tree k = [] then -1 else int (last (used_nodes tree k)))
    \<and> length tree' = length tree
    \<and> (\<forall>n. tree' ! n = (if n < k \<and> Freq (tree ! n) = 0 then (tree ! n)\<lparr>dl := 0\<rparr> else tree ! n))
    \<and> digit_counts_ok 10 (leaf_entries tree k) lo \<and> digit_counts_ok 18 (leaf_entries tree k) hi"
  using assms
proof (induction k)
  case 0
  have "digit_counts_ok s [] (replicate 257 0)" for s by (simp add: digit_counts_ok_def digit_count_def)
  then show ?case by (simp add: leaf_entries_def used_nodes_def)
next
  case (Suc k)
  then obtain tree' lo hi where f: "fold scan_leaf [0..<k] (tree, [], replicate 257 0, replicate 257 0, -1) =
      (tree', leaf_entries tree k, lo, hi, if used_nodes tree k = [] then -1 else int (last (used_nodes tree k)))"
    and len: "length tree' = length tree"
    and at: "\<And>n. tree' ! n = (if n < k \<and> Freq (tree ! n) = 0 then (tree ! n)\<lparr>dl := 0\<rparr> else tree ! n)"
    and cnt: "digit_counts_ok 10 (leaf_entries tree k) lo" "digit_counts_ok 18 (leaf_entries tree k) hi" by auto
  have tk: "tree' ! k = tree ! k" using at by simp
  have bump: "digit_counts_ok s (xs @ [e]) (c[Suc (pq_digit s e) := c ! Suc (pq_digit s e) + 1])"
    if "digit_counts_ok s xs c" for s xs e c
    using that pq_digit_less [of s e] by (auto simp: digit_counts_ok_def digit_count_def nth_list_update)
  show ?case
  proof (cases "Freq (tree ! k) = 0")
    case True
    then have "used_nodes tree (Suc k) = used_nodes tree k" by (simp add: used_nodes_def)
    moreover have "scan_leaf k (tree', ls, lo, hi, mc) = (tree'[k := (tree ! k)\<lparr>dl := 0\<rparr>], ls, lo, hi, mc)" for ls mc
      by (simp add: scan_leaf_def Let_def tk True)
    moreover have "tree'[k := (tree ! k)\<lparr>dl := 0\<rparr>] ! n =
        (if n < Suc k \<and> Freq (tree ! n) = 0 then (tree ! n)\<lparr>dl := 0\<rparr> else tree ! n)" for n
      using Suc.prems len True by (auto simp: nth_list_update at less_Suc_eq)
    ultimately show ?thesis using len cnt by (simp add: f leaf_entries_def)
  next
    case False
    let ?e = "pq_pack (Freq (tree ! k)) k"
    have u: "used_nodes tree (Suc k) = used_nodes tree k @ [k]" using False by (simp add: used_nodes_def)
    then have l: "leaf_entries tree (Suc k) = leaf_entries tree k @ [?e]" by (simp add: leaf_entries_def)
    have k: "k < 1024" using Suc.prems by simp
    have "scan_leaf k (tree', ls, lo, hi, mc) = (tree', ls @ [?e], lo[Suc (pq_digit 10 ?e) := lo ! Suc (pq_digit 10 ?e) + 1],
        hi[Suc (pq_digit 18 ?e) := hi ! Suc (pq_digit 18 ?e) + 1], int k)" for ls mc
      using False by (simp add: scan_leaf_def Let_def tk pq_digits [OF k])
    moreover have "tree' ! n = (if n < Suc k \<and> Freq (tree ! n) = 0 then (tree ! n)\<lparr>dl := 0\<rparr> else tree ! n)" for n
      using False by (auto simp: at less_Suc_eq)
    ultimately show ?thesis using len bump [OF cnt(1), of ?e] bump [OF cnt(2), of ?e] by (simp add: f u l)
  qed
qed

section \<open>The sort\<close>

lemma sorted_leaf_entries: "sorted_wrt (\<lambda>a b. pq_node a < pq_node b) (leaf_entries tree k)" if "k \<le> 1024"
proof -
  have "sorted_wrt (<) (used_nodes tree k)" by (simp add: used_nodes_def sorted_wrt_filter)
  then have "sorted_wrt (\<lambda>a b. pq_node (pq_pack (Freq (tree ! a)) a) < pq_node (pq_pack (Freq (tree ! b)) b)) (used_nodes tree k)"
    using that by (rule_tac sorted_wrt_mono_rel) (auto simp: used_nodes_def)
  then show ?thesis by (simp add: leaf_entries_def sorted_wrt_map)
qed

lemma entry_less:
  fixes a b :: u32
  assumes "unat a < 2 ^ 26" and "unat b < 2 ^ 26"
    and "pq_digit 18 a < pq_digit 18 b \<or> pq_digit 18 a = pq_digit 18 b \<and>
      (pq_digit 10 a < pq_digit 10 b \<or> pq_digit 10 a = pq_digit 10 b \<and> pq_node a < pq_node b)"
  shows "a < b"
proof -
  have m: "x AND 0xff = take_bit 8 x" for x :: u32 by (simp add: take_bit_eq_mask mask_eq_exp_minus_1)
  have dig: "pq_digit s x = unat x div 2 ^ s mod 256" for s x
    by (simp add: pq_digit_def m unat_take_bit_mod unat_drop_bit_div)
  have "unat x = 2 ^ 18 * pq_digit 18 x + (2 ^ 10 * pq_digit 10 x + pq_node x)" if "unat x < 2 ^ 26" for x :: u32
  proof -
    have "unat x = 1024 * (unat x div 1024) + pq_node x" by (simp add: pq_node_eq)
    moreover have "unat x div 1024 = 256 * (unat x div 1024 div 256) + unat x div 1024 mod 256" by simp
    moreover have "unat x div 1024 div 256 = unat x div 2 ^ 18" by (simp flip: div_mult2_eq)
    moreover have "pq_digit 18 x = unat x div 2 ^ 18" using that by (simp add: dig)
    moreover have "pq_digit 10 x = unat x div 1024 mod 256" by (simp add: dig)
    ultimately show ?thesis by simp
  qed
  from this [OF assms(1)] this [OF assms(2)]
  have eq: "unat a = 2 ^ 18 * pq_digit 18 a + (2 ^ 10 * pq_digit 10 a + pq_node a)"
    "unat b = 2 ^ 18 * pq_digit 18 b + (2 ^ 10 * pq_digit 10 b + pq_node b)" .
  have "pq_digit 10 a < 256" "pq_digit 10 b < 256" "pq_node a < 1024" "pq_node b < 1024"
    by (simp_all add: pq_digit_less pq_node_eq)
  then have "unat a < unat b" using assms(3) unfolding eq by auto
  then show ?thesis by (simp add: word_less_nat_alt)
qed

lemma leaf_entry_bound: "k \<le> 1024 \<Longrightarrow> e \<in> set (leaf_entries tree k) \<Longrightarrow> unat e < 2 ^ 26"
proof -
  assume k: "k \<le> 1024" and "e \<in> set (leaf_entries tree k)"
  then obtain n where n: "n < 1024" "e = pq_pack (Freq (tree ! n)) n"
    by (auto simp: leaf_entries_def used_nodes_def dest: order.strict_trans2)
  have "unat (Freq (tree ! n)) < 2 ^ 16" using unsigned_less [of "Freq (tree ! n)", where ?'a = nat] by simp
  then have "1024 * unat (Freq (tree ! n)) + n < 1024 * 2 ^ 16" using n(1) by simp
  then show ?thesis by (simp add: n unat_pq_pack)
qed

lemma sort_eqI: "mset ys = mset xs \<Longrightarrow> sorted_wrt (<) ys \<Longrightarrow> ys = sort xs" for xs :: "u32 list"
  by (metis properties_for_sort sorted_wrt_mono_rel less_imp_le)

lemma digit_counts_mset: "mset xs = mset ys \<Longrightarrow> digit_counts_ok s xs c = digit_counts_ok s ys c"
proof -
  assume "mset xs = mset ys"
  then have "digit_count s xs d = digit_count s ys d" for d
    unfolding digit_count_def by (metis mset_filter size_mset)
  then show ?thesis by (simp add: digit_counts_ok_def)
qed

lemma sort_leaves_sorts:
  fixes tree :: tree and k :: nat
  defines "xs \<equiv> leaf_entries tree k"
  assumes k: "k \<le> 286" and lo: "digit_counts_ok 10 xs lo" and hi: "digit_counts_ok 18 xs hi"
  shows "sort_leaves xs lo hi = sort xs"
proof -
  have n: "length xs \<le> 286" using k by (simp add: xs_def leaf_entries_def used_nodes_def length_filter_le order_trans [OF length_filter_le])
  have sx: "sorted_wrt (\<lambda>a b. pq_node a < pq_node b) xs" unfolding xs_def using k by (intro sorted_leaf_entries) simp
  have bound: "unat e < 2 ^ 26" if "e \<in> set xs" for e using that k leaf_entry_bound [of k e tree] by (simp add: xs_def)
  have p1: "pq_radix_pass xs (replicate (length xs) 0) 10 lo = buckets 10 xs"
    using lo n by (intro pq_radix_pass_buckets) simp_all
  have b1: "sorted_wrt (\<lambda>a b. pq_digit 10 a < pq_digit 10 b \<or> pq_digit 10 a = pq_digit 10 b \<and> pq_node a < pq_node b) (buckets 10 xs)"
    using sx by (rule sorted_buckets)
  have len1: "length (buckets 10 xs) = length xs" by (metis mset_buckets size_mset)
  consider (two) "length xs = 2" | (one) "length xs \<noteq> 2" "unat (hi ! 1) = length xs" | (both) "length xs \<noteq> 2" "unat (hi ! 1) \<noteq> length xs"
    by blast
  then show ?thesis
  proof cases
    case two
    then obtain a b where ab: "xs = [a, b]" by (auto simp: numeral_2_eq_2 length_Suc_conv)
    then show ?thesis using two by (auto simp: sort_leaves_def Let_def)
  next
    case one
    have "digit_count 18 xs 0 = length xs"
    proof -
      have "digit_count 18 xs 0 \<le> 286" using n by (simp add: digit_count_def order_trans [OF length_filter_le])
      then have "unat (hi ! 1) = digit_count 18 xs 0" using hi by (simp add: digit_counts_ok_def unat_of_nat)
      with one show ?thesis by simp
    qed
    then have z: "pq_digit 18 e = 0" if "e \<in> set xs" for e
      using that unfolding digit_count_def by (metis (mono_tags, lifting) length_filter_less less_irrefl)
    have set1: "set (buckets 10 xs) = set xs" by (metis mset_buckets set_mset_mset)
    have "sorted_wrt (<) (buckets 10 xs)"
    proof (rule sorted_wrt_mono_rel [OF _ b1])
      fix a b
      assume "a \<in> set (buckets 10 xs)" "b \<in> set (buckets 10 xs)"
        and "pq_digit 10 a < pq_digit 10 b \<or> pq_digit 10 a = pq_digit 10 b \<and> pq_node a < pq_node b"
      then show "a < b" using bound z by (intro entry_less) (simp_all add: set1)
    qed
    then have "buckets 10 xs = sort xs" by (intro sort_eqI mset_buckets)
    then show ?thesis using one by (simp add: sort_leaves_def Let_def PQ_NODE_BITS_def p1)
  next
    case both
    have "digit_counts_ok 18 (buckets 10 xs) hi" using hi digit_counts_mset [OF mset_buckets] by blast
    then have p2: "pq_radix_pass (buckets 10 xs) xs 18 hi = buckets 18 (buckets 10 xs)"
      using n len1 by (intro pq_radix_pass_buckets) simp_all
    have set2: "set (buckets 18 (buckets 10 xs)) = set xs" by (metis mset_buckets set_mset_mset)
    have "sorted_wrt (<) (buckets 18 (buckets 10 xs))"
    proof (rule sorted_wrt_mono_rel [OF _ sorted_buckets [OF b1, of 18]])
      fix a b
      assume "a \<in> set (buckets 18 (buckets 10 xs))" "b \<in> set (buckets 18 (buckets 10 xs))"
        and "pq_digit 18 a < pq_digit 18 b \<or> pq_digit 18 a = pq_digit 18 b \<and>
          (pq_digit 10 a < pq_digit 10 b \<or> pq_digit 10 a = pq_digit 10 b \<and> pq_node a < pq_node b)"
      then show "a < b" using bound by (intro entry_less) (simp_all add: set2)
    qed
    then have "buckets 18 (buckets 10 xs) = sort xs" by (intro sort_eqI) (simp_all add: mset_buckets)
    then show ?thesis using both by (simp add: sort_leaves_def Let_def PQ_NODE_BITS_def p1 p2)
  qed
qed

end
