(* ===== verification/Trees_Huffman.thy ===== *)
theory Trees_Huffman
  imports Trees_Leaves
begin

text \<open>
  Correctness of the tree construction: for every frequency table build_tree returns, the lengths it assigns
  do not exceed the limit of the tree and fill the code space exactly, and the codes are prefix-free. The proof counts
  the nodes below the length limit: the excess of the clamped lengths over the code space is half
  the overflow counter, and every round of the repair loop removes one unit of it.
\<close>

section \<open>Merging\<close>

definition consumed :: "u32 list \<Rightarrow> nat \<Rightarrow> nat \<Rightarrow> nat \<Rightarrow> nat set" where
  "consumed leaves E li ihead = set (map pq_node (take li leaves)) \<union> {E..<E + ihead}"

definition leaf_nodes :: "u32 list \<Rightarrow> nat set" where
  "leaf_nodes leaves = set (map pq_node leaves)"

definition leaves_ok :: "nat \<Rightarrow> u32 list \<Rightarrow> bool" where
  "leaves_ok E leaves \<longleftrightarrow> distinct (map pq_node leaves) \<and> leaf_nodes leaves \<subseteq> {..<E} \<and> 2 \<le> length leaves
     \<and> length leaves \<le> E \<and> E \<le> 286"

definition queue_ok :: "u32 list \<Rightarrow> nat \<Rightarrow> nat \<Rightarrow> u32 list \<Rightarrow> nat \<Rightarrow> bool" where
  "queue_ok leaves E li internals ihead \<longleftrightarrow> li \<le> length leaves \<and> ihead \<le> length internals
     \<and> (\<forall>j < length internals. pq_node (internals ! j) = E + j)"

lemma pq_take_spec:
  assumes ok: "leaves_ok E leaves" and q: "queue_ok leaves E li internals ihead"
    and avail: "li < length leaves \<or> ihead < length internals"
    and take: "pq_take leaves li internals ihead = (e, li', ihead')"
  shows "queue_ok leaves E li' internals ihead'" and "li' + ihead' = Suc (li + ihead)"
    and "consumed leaves E li' ihead' = insert (pq_node e) (consumed leaves E li ihead)"
    and "pq_node e \<notin> consumed leaves E li ihead" and "pq_node e < E + length internals"
proof -
  consider (leaf) "li < length leaves" "e = leaves ! li" "li' = Suc li" "ihead' = ihead"
    | (node) "ihead < length internals" "e = internals ! ihead" "li' = li" "ihead' = Suc ihead"
    using take avail q by (fastforce simp: pq_take_def queue_ok_def split: if_splits)
  then have "queue_ok leaves E li' internals ihead' \<and> li' + ihead' = Suc (li + ihead)
    \<and> consumed leaves E li' ihead' = insert (pq_node e) (consumed leaves E li ihead)
    \<and> pq_node e \<notin> consumed leaves E li ihead \<and> pq_node e < E + length internals"
  proof cases
    case leaf
    have "pq_node e \<notin> set (map pq_node (take li leaves))"
      using ok leaf by (auto simp: leaves_ok_def in_set_conv_nth distinct_conv_nth)
    moreover have "pq_node e < E"
    proof -
      have "pq_node e \<in> leaf_nodes leaves" using leaf by (simp add: leaf_nodes_def)
      then show ?thesis using ok by (auto simp: leaves_ok_def)
    qed
    ultimately show ?thesis
      using leaf q by (auto simp: consumed_def queue_ok_def take_Suc_conv_app_nth)
  next
    case node
    have e: "pq_node e = E + ihead" using node q by (simp add: queue_ok_def)
    have "set (map pq_node (take li leaves)) \<subseteq> {..<E}"
      using ok set_take_subset [of li leaves] by (auto simp: leaves_ok_def leaf_nodes_def)
    with e node q show ?thesis by (auto simp: consumed_def queue_ok_def)
  qed
  then show "queue_ok leaves E li' internals ihead'" "li' + ihead' = Suc (li + ihead)"
    "consumed leaves E li' ihead' = insert (pq_node e) (consumed leaves E li ihead)"
    "pq_node e \<notin> consumed leaves E li ihead" "pq_node e < E + length internals" by blast+
qed

text \<open>
  The state after \<open>t\<close> merges: two nodes have been consumed for each new node, their dads are the new
  nodes, and every new node has exactly two sons.
\<close>

definition dads_ok :: "tree \<Rightarrow> nat set \<Rightarrow> nat \<Rightarrow> nat \<Rightarrow> bool" where
  "dads_ok tree C E t \<longleftrightarrow>
     (\<forall>v \<in> C. E \<le> unat (Dad (tree ! v)) \<and> unat (Dad (tree ! v)) < E + t \<and> v < unat (Dad (tree ! v)))
     \<and> (\<forall>u \<in> {E..<E + t}. card {v \<in> C. unat (Dad (tree ! v)) = u} = 2)"

definition merge_inv :: "tree \<Rightarrow> u32 list \<Rightarrow> nat \<Rightarrow> nat \<Rightarrow> merge_state \<Rightarrow> bool" where
  "merge_inv tree0 leaves E t st = (case st of (tree, li, internals, ihead, node) \<Rightarrow>
     node = E + t \<and> length internals = t \<and> queue_ok leaves E li internals ihead \<and> li + ihead = 2 * t
     \<and> length tree = length tree0 \<and> (\<forall>n < E. Freq (tree ! n) = Freq (tree0 ! n))
     \<and> (\<forall>n < E. n \<notin> leaf_nodes leaves \<longrightarrow> tree ! n = tree0 ! n)
     \<and> dads_ok tree (consumed leaves E li ihead) E t)"

lemma consumed_finite [simp]: "finite (consumed leaves E li ihead)"
  by (simp add: consumed_def)

lemma dads_ok_step:
  assumes d: "dads_ok tree C E t" and fin: "finite C"
    and n: "n \<notin> C" "n < E + t" and m: "m \<notin> C" "m < E + t" "m \<noteq> n"
    and small: "E + t < 2 ^ 16"
    and dl: "\<And>v. v \<in> C \<Longrightarrow> dl (tree' ! v) = dl (tree ! v)"
      "dl (tree' ! n) = of_nat (E + t)" "dl (tree' ! m) = of_nat (E + t)"
  shows "dads_ok tree' (insert m (insert n C)) E (Suc t)"
proof -
  have D: "unat (Dad (tree' ! n)) = E + t" "unat (Dad (tree' ! m)) = E + t"
    using small by (simp_all add: dl unat_of_nat del: of_nat_add)
  have old: "unat (Dad (tree' ! v)) = unat (Dad (tree ! v)) \<and> E \<le> unat (Dad (tree ! v))
      \<and> unat (Dad (tree ! v)) < E + t \<and> v < unat (Dad (tree ! v))" if "v \<in> C" for v
    using d that by (simp add: dads_ok_def dl)
  have ne: "unat (Dad (tree' ! v)) \<noteq> E + t" if "v \<in> C" for v using old [OF that] by auto
  have "card {v \<in> insert m (insert n C). unat (Dad (tree' ! v)) = u} = 2" if "u \<in> {E..<E + Suc t}" for u
  proof (cases "u = E + t")
    case True
    then have "{v \<in> insert m (insert n C). unat (Dad (tree' ! v)) = u} = {m, n}"
      using D ne by auto
    with m(3) show ?thesis by simp
  next
    case False
    then have "{v \<in> insert m (insert n C). unat (Dad (tree' ! v)) = u} = {v \<in> C. unat (Dad (tree ! v)) = u}"
      using D old by auto
    with False that d show ?thesis by (simp add: dads_ok_def)
  qed
  moreover have "E \<le> unat (Dad (tree' ! v)) \<and> unat (Dad (tree' ! v)) < E + Suc t \<and> v < unat (Dad (tree' ! v))"
    if "v \<in> insert m (insert n C)" for v
    using that D n(2) m(2) old [of v] by auto
  ultimately show ?thesis unfolding dads_ok_def by blast
qed

lemma consumed_bound:
  "leaves_ok E leaves \<Longrightarrow> v \<in> consumed leaves E li ihead \<Longrightarrow> v \<in> leaf_nodes leaves \<or> E \<le> v \<and> v < E + ihead"
  using set_take_subset [of li leaves] by (auto simp: consumed_def leaf_nodes_def)

lemma take_pair:
  assumes ok: "leaves_ok E leaves" and q: "queue_ok leaves E li internals ihead"
    and avail: "li + ihead + 2 \<le> length leaves + length internals"
  obtains en li1 ih1 em li2 ih2 where "pq_take leaves li internals ihead = (en, li1, ih1)"
    and "pq_take leaves li1 internals ih1 = (em, li2, ih2)"
    and "queue_ok leaves E li2 internals ih2" and "li2 + ih2 = li + ihead + 2"
    and "consumed leaves E li2 ih2 = insert (pq_node em) (insert (pq_node en) (consumed leaves E li ihead))"
    and "pq_node en \<notin> consumed leaves E li ihead" and "pq_node em \<notin> consumed leaves E li ihead"
    and "pq_node em \<noteq> pq_node en"
    and "pq_node en < E + length internals" and "pq_node em < E + length internals"
proof -
  obtain en li1 ih1 where t1: "pq_take leaves li internals ihead = (en, li1, ih1)" by (cases "pq_take leaves li internals ihead") auto
  obtain em li2 ih2 where t2: "pq_take leaves li1 internals ih1 = (em, li2, ih2)" by (cases "pq_take leaves li1 internals ih1") auto
  have "li < length leaves \<or> ihead < length internals" using q avail by (auto simp: queue_ok_def)
  note s1 = pq_take_spec [OF ok q this t1]
  have "li1 < length leaves \<or> ih1 < length internals" using s1(1,2) avail by (auto simp: queue_ok_def)
  note s2 = pq_take_spec [OF ok s1(1) this t2]
  show thesis
    by (rule that [OF t1 t2 s2(1)]) (use s1 s2 in auto)
qed

lemma leaf_or_new:
  assumes "leaves_ok E leaves" and "queue_ok leaves E li internals ihead"
    and "v \<in> consumed leaves E li ihead" and "v < E"
  shows "v \<in> leaf_nodes leaves"
  using consumed_bound [OF assms(1,3)] assms(4) by auto

lemma merge_step_inv:
  assumes ok: "leaves_ok E leaves" and t: "Suc t < length leaves" and len: "length tree0 = 2 * E + 1"
    and inv: "merge_inv tree0 leaves E t st"
  shows "merge_inv tree0 leaves E (Suc t) (merge_step leaves st)"
proof -
  obtain tree li internals ihead node where st: "st = (tree, li, internals, ihead, node)" by (cases st) auto
  have node: "node = E + t" "length internals = t" and q: "queue_ok leaves E li internals ihead"
    and two: "li + ihead = 2 * t" and lt: "length tree = 2 * E + 1"
    and dads: "dads_ok tree (consumed leaves E li ihead) E t"
    using inv len by (simp_all add: merge_inv_def st)
  have avail: "li + ihead + 2 \<le> length leaves + length internals" using two t node(2) by simp
  obtain en li1 ih1 em li2 ih2 where p: "pq_take leaves li internals ihead = (en, li1, ih1)"
      "pq_take leaves li1 internals ih1 = (em, li2, ih2)"
    and q2: "queue_ok leaves E li2 internals ih2" and two2: "li2 + ih2 = li + ihead + 2"
    and C2: "consumed leaves E li2 ih2 = insert (pq_node em) (insert (pq_node en) (consumed leaves E li ihead))"
    and new: "pq_node en \<notin> consumed leaves E li ihead" "pq_node em \<notin> consumed leaves E li ihead" "pq_node em \<noteq> pq_node en"
      "pq_node en < E + t" "pq_node em < E + t"
    using take_pair [OF ok q avail] unfolding node(2) by blast
  define f where "f = (ucast (pq_freq en + pq_freq em) :: u16)"
  define n m where "n = pq_node en" and "m = pq_node em"
  define a where "a = tree[node := (tree ! node)\<lparr>fc := f\<rparr>]"
  define b where "b = a[m := (a ! m)\<lparr>dl := of_nat node\<rparr>]"
  define tree' where "tree' = b[n := (b ! n)\<lparr>dl := of_nat node\<rparr>]"
  have step: "merge_step leaves st = (tree', li2, internals @ [pq_pack f node], ih2, node + 1)"
    by (simp add: merge_step_def st p Let_def f_def tree'_def b_def a_def n_def m_def)
  have E: "E \<le> 286" "length leaves \<le> E" using ok by (simp_all add: leaves_ok_def)
  have nm: "n < E + t" "m < E + t" "n < length tree" "m < length tree" "node < length tree" "m \<noteq> n"
    using new node(1) t E lt by (simp_all add: n_def m_def)
  have at: "tree' ! v = (if v = n \<or> v = m then (tree ! v)\<lparr>dl := of_nat node\<rparr> else a ! v)" for v
    using nm node(1) by (auto simp: tree'_def b_def a_def nth_list_update)
  have av: "a ! v = (if v = node then (tree ! v)\<lparr>fc := f\<rparr> else tree ! v)" for v
    using nm by (simp add: a_def nth_list_update)
  have below: "v < E + t" if "v \<in> consumed leaves E li ihead" for v
    using that consumed_bound [OF ok] q node ok by (fastforce simp: queue_ok_def leaves_ok_def)
  have leafC: "v \<in> leaf_nodes leaves" if "v = n \<or> v = m" "v < E" for v
    using leaf_or_new [OF ok q2, of v] that C2 by (auto simp: n_def m_def)
  have "dads_ok tree' (insert m (insert n (consumed leaves E li ihead))) E (Suc t)"
    using dads nm new E t node(1) below
    by (intro dads_ok_step [where tree = tree and n = n and m = m]) (auto simp: n_def m_def at av)
  moreover have "queue_ok leaves E li2 (internals @ [pq_pack f node]) ih2"
    using q2 node E t by (auto simp: queue_ok_def nth_append less_Suc_eq)
  moreover have "length tree' = length tree" by (simp add: tree'_def b_def a_def)
  moreover have "Freq (tree' ! v) = Freq (tree0 ! v)" if "v < E" for v
    using inv that node(1) by (simp add: at av merge_inv_def st)
  moreover have "tree' ! v = tree0 ! v" if "v < E" "v \<notin> leaf_nodes leaves" for v
    using inv that node(1) leafC [of v] by (auto simp: at av merge_inv_def st)
  ultimately show ?thesis
    unfolding step merge_inv_def using node two two2 lt len C2 by (simp add: n_def m_def)
qed

lemma merge_all_inv:
  assumes ok: "leaves_ok (elems sd) leaves" and len: "length tree0 = 2 * elems sd + 1"
  shows "merge_inv tree0 leaves (elems sd) (length leaves - 1) (merge_all sd tree0 leaves)"
proof -
  have "merge_inv tree0 leaves (elems sd) t ((merge_step leaves ^^ t) (tree0, 0, [], 0, elems sd))"
    if "t < length leaves" for t
    using that
  proof (induction t)
    case 0
    show ?case by (simp add: merge_inv_def queue_ok_def dads_ok_def consumed_def)
  next
    case (Suc t)
    then show ?case using merge_step_inv [OF ok _ len] by simp
  qed
  moreover have "length leaves - 1 < length leaves" using ok unfolding leaves_ok_def by linarith
  ultimately show ?thesis unfolding merge_all_def by blast
qed

lemma merge_all_dads:
  assumes ok: "leaves_ok (elems sd) leaves" and len: "length tree0 = 2 * elems sd + 1"
    and m: "merge_all sd tree0 leaves = (tree, li, internals, ihead, node)"
  shows "node = elems sd + length leaves - 1" and "length tree = length tree0"
    and "\<And>n. n < elems sd \<Longrightarrow> Freq (tree ! n) = Freq (tree0 ! n)"
    and "\<And>n. n < elems sd \<Longrightarrow> n \<notin> leaf_nodes leaves \<Longrightarrow> tree ! n = tree0 ! n"
    and "dads_ok tree (leaf_nodes leaves \<union> {elems sd..<node - 1}) (elems sd) (length leaves - 1)"
proof -
  let ?N = "length leaves"
  have N: "2 \<le> ?N" using ok by (simp add: leaves_ok_def)
  note inv = merge_all_inv [OF ok len, unfolded m merge_inv_def, simplified]
  from inv N show node: "node = elems sd + ?N - 1" by simp
  from inv show "length tree = length tree0" "\<And>n. n < elems sd \<Longrightarrow> Freq (tree ! n) = Freq (tree0 ! n)"
    "\<And>n. n < elems sd \<Longrightarrow> n \<notin> leaf_nodes leaves \<Longrightarrow> tree ! n = tree0 ! n" by simp_all
  have D: "dads_ok tree (consumed leaves (elems sd) li ihead) (elems sd) (?N - 1)"
    and q: "li \<le> ?N" "ihead \<le> ?N - 1" and two: "li + ihead = 2 * (?N - 1)"
    using inv by (simp_all add: queue_ok_def)
  have "ihead \<noteq> ?N - 1"
  proof
    assume ih: "ihead = ?N - 1"
    have "elems sd + (?N - 2) \<in> consumed leaves (elems sd) li ihead" using N by (auto simp: consumed_def ih)
    then have "elems sd + (?N - 2) < unat (Dad (tree ! (elems sd + (?N - 2))))
        \<and> unat (Dad (tree ! (elems sd + (?N - 2)))) < elems sd + (?N - 1)"
      using D unfolding dads_ok_def by blast
    then show False using N by linarith
  qed
  then have "li = ?N" "ihead = ?N - 2" using q two N by linarith+
  then have "consumed leaves (elems sd) li ihead = leaf_nodes leaves \<union> {elems sd..<node - 1}"
    using N by (simp add: consumed_def leaf_nodes_def node numeral_2_eq_2)
  with D show "dads_ok tree (leaf_nodes leaves \<union> {elems sd..<node - 1}) (elems sd) (?N - 1)" by simp
qed

section \<open>Counting nodes below the length limit\<close>

text \<open>
  \<open>D\<close> gives the dad of every node below the root, every inner node has two sons, and \<open>c\<close> is the length clamped
  at \<open>L\<close>.
\<close>

lemma clamped_kraft:
  fixes D c :: "nat \<Rightarrow> nat" and LV :: "nat set" and E root L :: nat
  defines "V \<equiv> LV \<union> {E..<root}"
  assumes LV: "finite LV" "LV \<subseteq> {..<E}" and root: "E \<le> root"
    and dads: "\<And>v. v \<in> V \<Longrightarrow> D v \<in> {E..root}"
    and sons: "\<And>u. u \<in> {E..root} \<Longrightarrow> card {v \<in> V. D v = u} = 2"
    and c: "c root = 0" "\<And>v. v \<in> V \<Longrightarrow> c v = min L (c (D v) + 1)" and L: "1 \<le> L"
  defines "full \<equiv> {u \<in> {E..root}. c u = L}"
  shows "(\<Sum>v \<in> LV. 2 ^ (L - c v)) = 2 ^ L + card full"
    and "card {v \<in> V. c (D v) + 1 > L} = 2 * card full"
    and "card full \<le> card {v \<in> LV. c v = L}"
proof -
  have finV: "finite V" using LV by (simp add: V_def)
  have dis: "LV \<inter> {E..<root} = {}" using LV by auto
  have le: "c u \<le> L" if "u \<in> {E..root}" for u
  proof (cases "u = root")
    case False
    then have "u \<in> V" using that by (simp add: V_def)
    then show ?thesis using c(2) by simp
  qed (simp add: c(1))
  have fullV: "full \<subseteq> {E..<root}" using c(1) L by (auto simp: full_def le_less)
  have group: "(\<Sum>v \<in> V. f v) = (\<Sum>u \<in> {E..root}. \<Sum>v \<in> {v \<in> V. D v = u}. f v)" for f :: "nat \<Rightarrow> nat"
    using sum.group [OF finV, of "{E..root}" D f] dads by (auto simp: image_subset_iff)
  have fibre: "(\<Sum>v \<in> {v \<in> V. D v = u}. 2 ^ (L - c v)) = 2 ^ (L - c u) + (of_bool (c u = L) :: nat)"
    if u: "u \<in> {E..root}" for u
  proof -
    have "(\<Sum>v \<in> {v \<in> V. D v = u}. 2 ^ (L - c v)) = (\<Sum>v \<in> {v \<in> V. D v = u}. 2 ^ (L - min L (c u + 1)) :: nat)"
      by (rule sum.cong) (auto simp: c(2))
    also have "\<dots> = 2 * 2 ^ (L - min L (c u + 1))" by (simp only: sum_constant sons [OF u]) simp
    also have "\<dots> = 2 ^ (L - c u) + of_bool (c u = L)"
    proof (cases "c u = L")
      case False
      then have "L - c u = Suc (L - min L (c u + 1))" using le [OF u] by auto
      with False show ?thesis by simp
    qed simp
    finally show ?thesis .
  qed
  have "(\<Sum>v \<in> V. 2 ^ (L - c v)) = (\<Sum>u \<in> {E..root}. 2 ^ (L - c u)) + (\<Sum>u \<in> {E..root}. of_bool (c u = L) :: nat)"
    unfolding group sum.distrib [symmetric] by (rule sum.cong) (simp_all add: fibre)
  also have "(\<Sum>u \<in> {E..root}. of_bool (c u = L)) = card full"
    by (simp add: full_def flip: sum.inter_filter card_eq_sum) (simp add: of_bool_def sum.If_cases Int_def)
  also have "(\<Sum>u \<in> {E..root}. 2 ^ (L - c u)) = 2 ^ L + (\<Sum>u \<in> {E..<root}. 2 ^ (L - c u) :: nat)"
    using root c(1) by (simp add: sum.last_plus)
  finally show "(\<Sum>v \<in> LV. 2 ^ (L - c v)) = 2 ^ L + card full"
    unfolding V_def using sum.union_disjoint [OF LV(1) _ dis, of "\<lambda>v. 2 ^ (L - c v) :: nat"] by simp
  have "{v \<in> V. c (D v) + 1 > L} = (\<Union>u \<in> full. {v \<in> V. D v = u})"
    using dads le by (fastforce simp: full_def)
  moreover have "card (\<Union>u \<in> full. {v \<in> V. D v = u}) = (\<Sum>u \<in> full. card {v \<in> V. D v = u})"
    using finV by (intro card_UN_disjoint) (auto simp: full_def)
  moreover have "\<dots> = 2 * card full" using sons by (simp add: full_def)
  ultimately show two: "card {v \<in> V. c (D v) + 1 > L} = 2 * card full" by simp
  have "{v \<in> V. c (D v) + 1 > L} \<subseteq> {v \<in> LV. c v = L} \<union> full"
    using c(2) by (auto simp: full_def V_def)
  then have "2 * card full \<le> card ({v \<in> LV. c v = L} \<union> full)"
    unfolding two [symmetric] using LV(1) by (intro card_mono) (auto simp: full_def)
  also have "\<dots> \<le> card {v \<in> LV. c v = L} + card full" by (rule card_Un_le)
  finally show "card full \<le> card {v \<in> LV. c v = L}" by simp
qed

section \<open>Lengths of the internal nodes\<close>

definition node_len :: "tree \<Rightarrow> nat \<Rightarrow> nat" where
  "node_len tree v = unat (Len (tree ! v))"

text \<open>After the nodes from \<open>k\<close> on have their lengths.\<close>

definition internal_inv :: "tree \<Rightarrow> (nat \<Rightarrow> nat) \<Rightarrow> nat \<Rightarrow> nat \<Rightarrow> nat \<Rightarrow> tree \<times> int \<Rightarrow> bool" where
  "internal_inv tree0 D L k root st = (case st of (tree, overflow) \<Rightarrow>
     length tree = length tree0 \<and> (\<forall>v. v \<notin> {k..<root} \<longrightarrow> tree ! v = tree0 ! v)
     \<and> (\<forall>v \<in> {k..<root}. node_len tree v = min L (node_len tree (D v) + 1))
     \<and> overflow = int (card {v \<in> {k..<root}. node_len tree (D v) + 1 > L}))"

lemma internal_len_inv:
  assumes inv: "internal_inv tree0 D L (Suc n) root st" and n: "n < root" "root < length tree0" and L: "L \<le> 15"
    and D: "\<And>v. v \<in> {n..<root} \<Longrightarrow> v < D v \<and> D v \<le> root" and Dn: "D n = unat (Dad (tree0 ! n))"
  shows "internal_inv tree0 D L n root (internal_len L n st)"
proof -
  obtain tree ov where st: "st = (tree, ov)" by (cases st)
  note inv' = inv [unfolded st internal_inv_def, simplified]
  have same: "tree ! n = tree0 ! n" using inv' by simp
  define b where "b = min L (node_len tree (D n) + 1)"
  have b: "unat (of_nat b :: u16) = b" using L by (simp add: b_def unat_of_nat)
  define tree' where "tree' = tree[n := (tree ! n)\<lparr>dl := of_nat b\<rparr>]"
  have step: "internal_len L n st = (tree', ov + of_bool (node_len tree (D n) + 1 > L))"
    by (simp add: internal_len_def st tree'_def b_def clamp_bits_def clamped_def node_len_def same Dn)
  have at: "tree' ! v = (if v = n then (tree ! n)\<lparr>dl := of_nat b\<rparr> else tree ! v)" for v
    using n inv' by (simp add: tree'_def nth_list_update)
  have nl: "node_len tree' v = (if v = n then b else node_len tree v)" for v
    by (simp add: node_len_def at b)
  have Dne: "D v \<noteq> n" if "v \<in> {n..<root}" for v using D [OF that] that by auto
  have set: "{n..<root} = insert n {Suc n..<root}" using n by auto
  have "node_len tree' v = min L (node_len tree' (D v) + 1)" if "v \<in> {n..<root}" for v
  proof (cases "v = n")
    case True
    then show ?thesis using Dne [OF that] by (simp add: nl b_def)
  next
    case False
    then show ?thesis using inv' that Dne [OF that] by (simp add: nl)
  qed
  moreover have "tree' ! v = tree0 ! v" if "v \<notin> {n..<root}" for v
    using that inv' n by (cases "v = n") (simp_all add: at)
  moreover have "ov + of_bool (node_len tree (D n) + 1 > L) = int (card {v \<in> {n..<root}. node_len tree' (D v) + 1 > L})"
  proof -
    have "{v \<in> {n..<root}. node_len tree' (D v) + 1 > L} =
        (if node_len tree (D n) + 1 > L then insert n {v \<in> {Suc n..<root}. node_len tree (D v) + 1 > L}
         else {v \<in> {Suc n..<root}. node_len tree (D v) + 1 > L})"
      using Dne n by (auto simp: nl set)
    then show ?thesis using inv' by simp
  qed
  ultimately show ?thesis
    unfolding step internal_inv_def using inv' by (simp add: tree'_def)
qed

lemma internal_pass:
  assumes "k \<le> root" and "root < length tree0" and "L \<le> 15"
    and "\<And>v. v \<in> {k..<root} \<Longrightarrow> v < D v \<and> D v \<le> root" and "\<And>v. v \<in> {k..<root} \<Longrightarrow> D v = unat (Dad (tree0 ! v))"
  shows "internal_inv tree0 D L k root (fold (internal_len L) (rev [k..<root]) (tree0, 0))"
  using assms
proof (induction "root - k" arbitrary: k)
  case 0
  then show ?case by (simp add: internal_inv_def)
next
  case (Suc d)
  then have k: "k < root" by simp
  have "internal_inv tree0 D L (Suc k) root (fold (internal_len L) (rev [Suc k..<root]) (tree0, 0))"
    using Suc.hyps(2) Suc.prems by (intro Suc.hyps(1)) auto
  moreover have "rev [k..<root] = rev [Suc k..<root] @ [k]" using k by (simp add: upt_conv_Cons)
  ultimately show ?case
    using internal_len_inv [of tree0 D L k root] Suc.prems k by simp
qed

section \<open>Lengths of the leaves\<close>

definition leaf_cost :: "static_tree_desc \<Rightarrow> tree \<Rightarrow> (nat \<Rightarrow> nat) \<Rightarrow> u32 list \<Rightarrow> u32" where
  "leaf_cost sd tree l ps = (\<Sum>e \<leftarrow> ps. ucast (Freq (tree ! pq_node e)) * of_nat (l (pq_node e) + xbits sd (pq_node e)))"

definition static_cost :: "static_tree_desc \<Rightarrow> tree \<Rightarrow> u32 list \<Rightarrow> u32" where
  "static_cost sd tree ps = (case static_tree sd of None \<Rightarrow> 0 | Some stree \<Rightarrow>
     (\<Sum>e \<leftarrow> ps. ucast (Freq (tree ! pq_node e)) * (ucast (Len (stree ! pq_node e)) + of_nat (xbits sd (pq_node e)))))"

lemma leaf_pass:
  fixes tree :: tree and sd :: static_tree_desc and ol sl :: u32
  defines "L \<equiv> max_length sd"
  assumes "distinct (map pq_node ps)" and "\<And>v. v \<in> leaf_nodes ps \<Longrightarrow> v < length tree"
    and "\<And>v. v \<in> leaf_nodes ps \<Longrightarrow> unat (Dad (tree ! v)) \<notin> leaf_nodes ps" and "L \<le> 15"
  shows "\<exists>tree' bl. fold (leaf_len sd) ps (tree, ov, replicate 16 0, ol, sl) =
      (tree', ov + int (length (filter (\<lambda>e. clamped L tree (pq_node e)) ps)), bl,
       ol + leaf_cost sd tree (clamp_bits L tree) ps, sl + static_cost sd tree ps)
    \<and> length tree' = length tree
    \<and> (\<forall>v. tree' ! v = (if v \<in> leaf_nodes ps then (tree ! v)\<lparr>dl := of_nat (clamp_bits L tree v)\<rparr> else tree ! v))
    \<and> length bl = 16 \<and> (\<forall>b < 16. bl ! b = of_nat (count_list (map (\<lambda>e. clamp_bits L tree (pq_node e)) ps) b))"
  using assms(2-4)
proof (induction ps rule: rev_induct)
  case Nil
  show ?case by (simp add: leaf_cost_def static_cost_def leaf_nodes_def split: option.splits)
next
  case (snoc e ps)
  have sub: "leaf_nodes ps \<subseteq> leaf_nodes (ps @ [e])" by (auto simp: leaf_nodes_def)
  obtain tree' bl where f: "fold (leaf_len sd) ps (tree, ov, replicate 16 0, ol, sl) =
      (tree', ov + int (length (filter (\<lambda>e. clamped L tree (pq_node e)) ps)), bl,
       ol + leaf_cost sd tree (clamp_bits L tree) ps, sl + static_cost sd tree ps)"
    and len: "length tree' = length tree" "length bl = 16"
    and at: "\<And>v. tree' ! v = (if v \<in> leaf_nodes ps then (tree ! v)\<lparr>dl := of_nat (clamp_bits L tree v)\<rparr> else tree ! v)"
    and bl: "\<And>b. b < 16 \<Longrightarrow> bl ! b = of_nat (count_list (map (\<lambda>e. clamp_bits L tree (pq_node e)) ps) b)"
  proof -
    have "distinct (map pq_node ps)" using snoc.prems(1) by simp
    moreover have "v < length tree" "unat (Dad (tree ! v)) \<notin> leaf_nodes ps" if "v \<in> leaf_nodes ps" for v
      using that sub snoc.prems(2,3) by (blast, blast)
    ultimately show thesis using snoc.IH that by blast
  qed
  define n where "n = pq_node e"
  define b where "b = clamp_bits L tree n"
  have nin: "n \<notin> leaf_nodes ps" "n \<in> leaf_nodes (ps @ [e])" using snoc.prems(1) by (auto simp: leaf_nodes_def n_def)
  have b16: "b < 16" using assms(5) by (simp add: b_def clamp_bits_def)
  have dad: "tree' ! unat (Dad (tree ! n)) = tree ! unat (Dad (tree ! n))"
    using snoc.prems(3) [OF nin(2)] sub at by auto
  have tn: "tree' ! n = tree ! n" using nin at by simp
  have cl: "clamp_bits L tree' n = b" "clamped L tree' n = clamped L tree n"
    by (simp_all add: clamp_bits_def clamped_def tn dad b_def)
  let ?t = "tree'[n := (tree ! n)\<lparr>dl := of_nat b\<rparr>]" and ?bl = "bl[b := bl ! b + 1]"
  have step: "leaf_len sd e (tree', o', bl, o1, s1) =
      (?t, o' + of_bool (clamped L tree n), ?bl, o1 + ucast (Freq (tree ! n)) * of_nat (b + xbits sd n),
       s1 + static_cost sd tree [e])" for o' o1 s1
    by (simp add: leaf_len_def Let_def L_def [symmetric] n_def [symmetric] cl tn static_cost_def split: option.splits)
  have "fold (leaf_len sd) (ps @ [e]) (tree, ov, replicate 16 0, ol, sl) =
      (?t, ov + int (length (filter (\<lambda>e. clamped L tree (pq_node e)) (ps @ [e]))), ?bl,
       ol + leaf_cost sd tree (clamp_bits L tree) (ps @ [e]), sl + static_cost sd tree (ps @ [e]))"
    unfolding fold_append comp_def f fold_simps step
    by (simp add: leaf_cost_def static_cost_def n_def b_def split: option.splits)
  moreover have "?t ! v = (if v \<in> leaf_nodes (ps @ [e]) then (tree ! v)\<lparr>dl := of_nat (clamp_bits L tree v)\<rparr> else tree ! v)" for v
    using nin len snoc.prems(2) [OF nin(2)] by (auto simp: nth_list_update at b_def leaf_nodes_def n_def)
  moreover have "?bl ! i = of_nat (count_list (map (\<lambda>e. clamp_bits L tree (pq_node e)) (ps @ [e])) i)" if "i < 16" for i
    using that b16 len by (auto simp: nth_list_update bl b_def n_def)
  ultimately show ?case using len by (intro exI [of _ ?t] exI [of _ ?bl]) simp
qed

section \<open>The repair loop\<close>

text \<open>\<open>h\<close> is the excess over the code space, half the overflow counter.\<close>

definition ov_inv :: "nat \<Rightarrow> nat \<Rightarrow> nat \<Rightarrow> u16 list \<Rightarrow> bool" where
  "ov_inv L N h bl \<longleftrightarrow> length bl = 16 \<and> bl ! 0 = 0 \<and> (\<forall>b. L < b \<and> b < 16 \<longrightarrow> bl ! b = 0)
     \<and> (\<Sum>b = 1..L. unat (bl ! b)) = N \<and> (\<Sum>b = 1..L. unat (bl ! b) * 2 ^ (L - b)) = 2 ^ L + h
     \<and> h \<le> unat (bl ! L)"

declare find_len.simps [simp del] and fix_overflow.simps [simp del]

lemma find_len_finds:
  "b \<le> k \<Longrightarrow> bl ! b \<noteq> 0 \<Longrightarrow> \<exists>j \<le> k. find_len bl k = Some j \<and> bl ! j \<noteq> 0"
proof (induction k)
  case (Suc k)
  show ?case
  proof (cases "bl ! Suc k = 0")
    case True
    with Suc obtain j where "j \<le> k" "find_len bl k = Some j" "bl ! j \<noteq> 0" by (metis le_Suc_eq)
    with True show ?thesis by (subst find_len.simps) auto
  qed (subst find_len.simps, auto)
qed (subst find_len.simps, auto)

lemma move_leaf_delta:
  assumes "length bl = 16" and "L \<le> 15" and "bits < L" and "bl ! bits \<noteq> 0" and "bl ! L \<noteq> 0"
    and small: "\<And>b. b \<le> L \<Longrightarrow> unat (bl ! b) \<le> 286" and "b \<le> L"
  shows "int (unat (move_leaf L bits bl ! b)) =
    int (unat (bl ! b)) - of_bool (b = bits) + 2 * of_bool (b = bits + 1) - of_bool (b = L)"
proof -
  have minus: "int (unat (x - 1)) = int (unat x) - 1" if "x \<noteq> 0" for x :: u16
    using that unat_minus_one [of x] unat_gt_0 [of x] by (simp add: of_nat_diff Suc_leI)
  have plus: "unat (bl ! c + 2) = unat (bl ! c) + 2" if "c \<le> L" for c
    using small [OF that] by (simp add: unat_word_ariths)
  have plus_int: "int (unat (bl ! c + 2)) = int (unat (bl ! c)) + 2" if "c \<le> L" for c using plus [OF that] by simp
  have two: "bl ! c + 2 \<noteq> 0" if "c \<le> L" for c using plus [OF that] by (metis add_is_0 unat_0 zero_neq_numeral)
  show ?thesis
    using assms(1-5,7) minus [of "bl ! bits"] minus [of "bl ! L"] minus [of "bl ! L + 2"] plus_int [of "bits + 1"] plus_int [of L] two [of L]
    by (auto simp: move_leaf_def Let_def nth_list_update)
qed

lemma sum_delta3:
  fixes f g w :: "nat \<Rightarrow> int"
  assumes "\<And>b. b \<in> {1..L} \<Longrightarrow> g b = f b - of_bool (b = p) + 2 * of_bool (b = p + 1) - of_bool (b = L)"
    and "1 \<le> p" and "p < L"
  shows "(\<Sum>b = 1..L. g b * w b) = (\<Sum>b = 1..L. f b * w b) - w p + 2 * w (p + 1) - w L"
proof -
  have d: "(\<Sum>b = 1..L. of_bool (b = q) * w b) = w q" if "1 \<le> q" "q \<le> L" for q
    using that sum.delta [of "{1..L}" q w] by (simp add: if_distrib [of "\<lambda>x. x * _"] of_bool_def cong: if_cong)
  have "(\<Sum>b = 1..L. g b * w b) = (\<Sum>b = 1..L. f b * w b - of_bool (b = p) * w b + 2 * (of_bool (b = p + 1) * w b) - of_bool (b = L) * w b)"
    by (rule sum.cong) (simp_all add: assms(1) algebra_simps)
  also have "\<dots> = (\<Sum>b = 1..L. f b * w b) - (\<Sum>b = 1..L. of_bool (b = p) * w b)
      + 2 * (\<Sum>b = 1..L. of_bool (b = p + 1) * w b) - (\<Sum>b = 1..L. of_bool (b = L) * w b)"
    by (simp only: sum.distrib sum_subtractf sum_distrib_left)
  finally show ?thesis using assms(2,3) by (simp add: d)
qed

lemma ov_inv_small:
  assumes "ov_inv L N h bl" and "b \<le> L"
  shows "unat (bl ! b) \<le> N"
proof (cases "b = 0")
  case False
  then have "unat (bl ! b) \<le> (\<Sum>b = 1..L. unat (bl ! b))" using assms(2) by (intro member_le_sum) auto
  then show ?thesis using assms(1) by (simp add: ov_inv_def)
qed (use assms in \<open>simp add: ov_inv_def\<close>)

lemma ov_inv_find:
  assumes inv: "ov_inv L N h bl" and h: "0 < h" and L: "1 \<le> L" and N: "N \<le> 2 ^ L"
  obtains j where "find_len bl (L - 1) = Some j" and "1 \<le> j" and "j < L" and "bl ! j \<noteq> 0"
proof -
  have "\<exists>b \<le> L - 1. bl ! b \<noteq> 0"
  proof (rule ccontr)
    assume "\<not> ?thesis"
    then have z: "unat (bl ! b) = 0" if "b \<in> {1..<L}" for b using that by auto
    have set: "{1..L} = insert L {1..<L}" using L by auto
    have "(\<Sum>b = 1..L. unat (bl ! b)) = unat (bl ! L)" "(\<Sum>b = 1..L. unat (bl ! b) * 2 ^ (L - b)) = unat (bl ! L)"
      unfolding set by (simp_all add: z)
    then show False using inv h N by (simp add: ov_inv_def)
  qed
  then obtain j where j: "j \<le> L - 1" "find_len bl (L - 1) = Some j" "bl ! j \<noteq> 0"
    using find_len_finds by blast
  moreover have "j \<noteq> 0" using j(3) inv by (metis ov_inv_def)
  ultimately show thesis using that L by simp
qed

lemma move_leaf_inv:
  assumes inv: "ov_inv L N (Suc h) bl" and L: "1 \<le> L" "L \<le> 15" and N: "N \<le> 286"
    and j: "1 \<le> j" "j < L" "bl ! j \<noteq> 0"
  shows "ov_inv L N h (move_leaf L j bl)"
proof -
  have len: "length bl = 16" and pos: "Suc h \<le> unat (bl ! L)"
    and sums: "(\<Sum>b = 1..L. unat (bl ! b)) = N" "(\<Sum>b = 1..L. unat (bl ! b) * 2 ^ (L - b)) = 2 ^ L + Suc h"
    using inv by (simp_all add: ov_inv_def)
  have nz: "bl ! L \<noteq> 0" using pos by auto
  have d: "int (unat (move_leaf L j bl ! b)) =
      int (unat (bl ! b)) - of_bool (b = j) + 2 * of_bool (b = j + 1) - of_bool (b = L)" if "b \<le> L" for b
    using len L j nz that ov_inv_small [OF inv] N by (intro move_leaf_delta) (auto intro: order_trans)
  have d': "int (unat (move_leaf L j bl ! b)) =
      int (unat (bl ! b)) - of_bool (b = j) + 2 * of_bool (b = j + 1) - of_bool (b = L)" if "b \<in> {1..L}" for b
    using that by (intro d) simp
  note s = sum_delta3 [of L "\<lambda>b. int (unat (move_leaf L j bl ! b))" "\<lambda>b. int (unat (bl ! b))" j, OF d' j(1,2)]
  have "(\<Sum>b = 1..L. int (unat (move_leaf L j bl ! b)) * 1) = (\<Sum>b = 1..L. int (unat (bl ! b)) * 1) - 1 + 2 * 1 - 1"
    by (rule s [where w = "\<lambda>_. 1"])
  then have "int (\<Sum>b = 1..L. unat (move_leaf L j bl ! b)) = int N"
    unfolding sums(1) [symmetric] by simp
  moreover have "(\<Sum>b = 1..L. int (unat (move_leaf L j bl ! b)) * 2 ^ (L - b)) =
      (\<Sum>b = 1..L. int (unat (bl ! b)) * 2 ^ (L - b)) - 2 ^ (L - j) + 2 * 2 ^ (L - (j + 1)) - 2 ^ (L - L)"
    by (rule s [where w = "\<lambda>b. 2 ^ (L - b)"])
  moreover have "(2 :: int) ^ (L - j) = 2 * 2 ^ (L - (j + 1))"
    using j(2) by (simp flip: power_Suc add: Suc_diff_Suc)
  moreover have "(\<Sum>b = 1..L. int (unat (bl ! b)) * 2 ^ (L - b)) = int (2 ^ L + Suc h)"
    unfolding sums(2) [symmetric] by simp
  ultimately have ints: "int (\<Sum>b = 1..L. unat (move_leaf L j bl ! b)) = int N"
    "int (\<Sum>b = 1..L. unat (move_leaf L j bl ! b) * 2 ^ (L - b)) = int (2 ^ L + h)" by simp_all
  have "(\<Sum>b = 1..L. unat (move_leaf L j bl ! b)) = N"
    "(\<Sum>b = 1..L. unat (move_leaf L j bl ! b) * 2 ^ (L - b)) = 2 ^ L + h"
    using ints unfolding of_nat_eq_iff by blast+
  moreover have "h \<le> unat (move_leaf L j bl ! L)"
  proof -
    have "int (unat (bl ! L)) - 1 \<le> int (unat (move_leaf L j bl ! L))" using d [of L] j(2) by (simp add: of_bool_def)
    then show ?thesis using pos by linarith
  qed
  moreover have "move_leaf L j bl ! b = bl ! b" if "b = 0 \<or> L < b" for b
    using that j(1,2) L by (auto simp: move_leaf_def Let_def nth_list_update)
  moreover have "length (move_leaf L j bl) = length bl" by (simp add: move_leaf_def Let_def)
  ultimately show ?thesis using inv unfolding ov_inv_def by (simp only:) auto
qed

lemma fix_overflow_inv:
  assumes "ov_inv L N (Suc h) bl" and "1 \<le> L" "L \<le> 15" and "N \<le> 286" "N \<le> 2 ^ L"
  shows "\<exists>bl'. fix_overflow L (2 * int (Suc h)) bl = Some bl' \<and> ov_inv L N 0 bl'"
  using assms(1)
proof (induction h arbitrary: bl)
  case 0
  obtain j where j: "find_len bl (L - 1) = Some j" "1 \<le> j" "j < L" "bl ! j \<noteq> 0"
    using ov_inv_find [OF 0] assms by auto
  then show ?case using move_leaf_inv [OF 0 assms(2-4) j(2-4)]
    by (subst fix_overflow.simps) simp
next
  case (Suc h)
  obtain j where j: "find_len bl (L - 1) = Some j" "1 \<le> j" "j < L" "bl ! j \<noteq> 0"
    using ov_inv_find [OF Suc.prems] assms by auto
  have "fix_overflow L (2 * int (Suc (Suc h))) bl = fix_overflow L (2 * int (Suc h)) (move_leaf L j bl)"
    using j(1) by (subst fix_overflow.simps) simp
  then show ?case using Suc.IH [OF move_leaf_inv [OF Suc.prems assms(2-4) j(2-4)]] by simp
qed

section \<open>Recomputing the lengths\<close>

text \<open>The lengths in the order in which they are handed out.\<close>

fun len_seq :: "u16 list \<Rightarrow> nat \<Rightarrow> nat list" where
  "len_seq bl 0 = []"
| "len_seq bl (Suc b) = replicate (unat (bl ! Suc b)) (Suc b) @ len_seq bl b"

lemma length_len_seq: "length (len_seq bl L) = (\<Sum>b = 1..L. unat (bl ! b))"
  by (induction L) simp_all

lemma count_len_seq: "count_list (len_seq bl L) b = (if 1 \<le> b \<and> b \<le> L then unat (bl ! b) else 0)"
  by (induction L) auto

lemma recompute_lens_zip:
  "length leaves = length (len_seq bl L) \<Longrightarrow>
    recompute_lens bl L leaves st = fold (\<lambda>(b, e). set_len b e) (zip (len_seq bl L) leaves) st"
proof (induction L arbitrary: leaves st)
  case (Suc L)
  let ?n = "unat (bl ! Suc L)"
  have rep: "fold (\<lambda>(b, e). set_len b e) (zip (replicate n b) xs) st = fold (set_len b) xs st"
    if "length xs = n" for n b xs st
    using that
  proof (induction xs arbitrary: n st)
    case (Cons x xs)
    then show ?case by (cases n) simp_all
  qed simp
  have z: "zip (len_seq bl (Suc L)) leaves = zip (replicate ?n (Suc L)) (take ?n leaves) @ zip (len_seq bl L) (drop ?n leaves)"
    by (simp add: zip_append1)
  show ?case using Suc by (simp add: z rep Let_def del: len_seq.simps(2)) (simp add: rep)
qed simp

lemma set_lens_fold:
  assumes "distinct (map (pq_node \<circ> snd) ps)" and "\<And>b e. (b, e) \<in> set ps \<Longrightarrow> pq_node e < length tree \<and> b \<le> 15"
  shows "\<exists>tree'. fold (\<lambda>(b, e). set_len b e) ps (tree, ol) =
      (tree', ol + (\<Sum>(b, e) \<leftarrow> ps. ucast (Freq (tree ! pq_node e)) * (of_nat b - ucast (Len (tree ! pq_node e)))))
    \<and> length tree' = length tree
    \<and> (\<forall>b e. (b, e) \<in> set ps \<longrightarrow> tree' ! pq_node e = (tree ! pq_node e)\<lparr>dl := of_nat b\<rparr>)
    \<and> (\<forall>v. v \<notin> leaf_nodes (map snd ps) \<longrightarrow> tree' ! v = tree ! v)"
  using assms
proof (induction ps rule: rev_induct)
  case (snoc p ps)
  obtain b e where p: "p = (b, e)" by (cases p)
  obtain tree' where t: "fold (\<lambda>(b, e). set_len b e) ps (tree, ol) =
      (tree', ol + (\<Sum>(b, e) \<leftarrow> ps. ucast (Freq (tree ! pq_node e)) * (of_nat b - ucast (Len (tree ! pq_node e)))))"
     "length tree' = length tree" "\<And>b e. (b, e) \<in> set ps \<Longrightarrow> tree' ! pq_node e = (tree ! pq_node e)\<lparr>dl := of_nat b\<rparr>"
     "\<And>v. v \<notin> leaf_nodes (map snd ps) \<Longrightarrow> tree' ! v = tree ! v"
    using snoc.IH snoc.prems by auto
  define n where "n = pq_node e"
  define tree1 where "tree1 = tree'[n := (tree ! n)\<lparr>dl := of_nat b\<rparr>]"
  have n: "n < length tree" "n \<notin> leaf_nodes (map snd ps)" "b \<le> 15"
    using snoc.prems p by (auto simp: n_def leaf_nodes_def)
  have tn: "tree' ! n = tree ! n" using n t(4) by simp
  have step: "set_len b e (tree', o1) = (tree1, o1 + ucast (Freq (tree ! n)) * (of_nat b - ucast (Len (tree ! n))))" for o1
  proof (cases "unat (Len (tree ! n)) = b")
    case True
    then have eq: "of_nat b = Len (tree ! n)" "of_nat b = (ucast (Len (tree ! n)) :: u32)" by auto
    then have "(tree ! n)\<lparr>dl := of_nat b\<rparr> = tree' ! n" by (simp add: tn)
    then have "tree1 = tree'" by (simp only: tree1_def list_update_id)
    then show ?thesis using True eq by (simp add: set_len_def Let_def tn flip: n_def)
  qed (simp add: set_len_def Let_def tree1_def tn algebra_simps flip: n_def)
  have at: "tree1 ! v = (if v = n then (tree ! n)\<lparr>dl := of_nat b\<rparr> else tree' ! v)" for v
    using n t(2) by (simp add: tree1_def nth_list_update)
  have ne: "pq_node e' \<noteq> n" if "(b', e') \<in> set ps" for b' e'
    using n(2) that by (force simp: leaf_nodes_def)
  have "fold (\<lambda>(b, e). set_len b e) (ps @ [p]) (tree, ol) = (tree1, ol +
      (\<Sum>(b, e) \<leftarrow> ps @ [p]. ucast (Freq (tree ! pq_node e)) * (of_nat b - ucast (Len (tree ! pq_node e)))))"
    by (simp add: p t(1) step n_def)
  moreover have "tree1 ! pq_node e' = (tree ! pq_node e')\<lparr>dl := of_nat b'\<rparr>" if "(b', e') \<in> set (ps @ [p])" for b' e'
  proof (cases "(b', e') \<in> set ps")
    case True
    then show ?thesis using ne [OF True] t(3) [OF True] by (simp add: at)
  next
    case False
    with that have "b' = b" "e' = e" by (simp_all add: p)
    then show ?thesis by (simp add: at n_def [symmetric])
  qed
  moreover have "tree1 ! v = tree ! v" if "v \<notin> leaf_nodes (map snd (ps @ [p]))" for v
    using that t(4) [of v] by (simp add: at p leaf_nodes_def n_def)
  moreover have "length tree1 = length tree" by (simp add: tree1_def t(2))
  ultimately show ?case by blast
qed (simp add: leaf_nodes_def)

section \<open>The bit lengths fill the code space\<close>

lemma sum_count_weight:
  "finite A \<Longrightarrow> set xs \<subseteq> A \<Longrightarrow> (\<Sum>b \<in> A. count_list xs b * w b) = (\<Sum>x \<leftarrow> xs. w x :: nat)"
proof (induction xs)
  case (Cons x xs)
  have "(\<Sum>b \<in> A. count_list (x # xs) b * w b) = (\<Sum>b \<in> A. (if b = x then w b else 0) + count_list xs b * w b)"
    by (rule sum.cong) auto
  with Cons show ?case by (simp add: sum.distrib)
qed simp

lemma card_nodes_filter:
  "distinct (map pq_node ps) \<Longrightarrow> card {v \<in> leaf_nodes ps. P v} = length (filter (\<lambda>e. P (pq_node e)) ps)"
proof -
  assume d: "distinct (map pq_node ps)"
  have "{v \<in> leaf_nodes ps. P v} = set (filter P (map pq_node ps))" by (auto simp: leaf_nodes_def)
  then have "card {v \<in> leaf_nodes ps. P v} = length (filter P (map pq_node ps))"
    using d by (simp add: distinct_card distinct_filter del: set_filter)
  then show ?thesis by (simp add: filter_map comp_def)
qed

lemma lens_counts:
  fixes l :: "u32 \<Rightarrow> nat"
  assumes bl: "length bl = 16" "\<And>b. b < 16 \<Longrightarrow> bl ! b = of_nat (count_list (map l leaves) b)"
    and N: "length leaves \<le> 286" and l: "\<And>e. e \<in> set leaves \<Longrightarrow> 1 \<le> l e \<and> l e \<le> L" and L: "L \<le> 15"
    and kraft: "(\<Sum>e \<leftarrow> leaves. 2 ^ (L - l e)) = 2 ^ L + h" and h: "h \<le> count_list (map l leaves) L"
  shows "ov_inv L (length leaves) h bl" and "\<And>b. b < 16 \<Longrightarrow> unat (bl ! b) = count_list (map l leaves) b"
proof -
  show cnt: "unat (bl ! b) = count_list (map l leaves) b" if "b < 16" for b
  proof -
    have "count_list (map l leaves) b \<le> 286" using count_le_length [of "map l leaves" b] N by simp
    then show ?thesis using bl(2) [OF that] by (simp add: unat_of_nat)
  qed
  have z: "bl ! b = 0" if "b = 0 \<or> L < b" "b < 16" for b
  proof -
    have "b \<notin> set (map l leaves)" using that l by fastforce
    then have "unat (bl ! b) = 0" using cnt [OF that(2)] count_notin by metis
    then show ?thesis by (simp only: unat_eq_0)
  qed
  have sub: "set (map l leaves) \<subseteq> {1..L}" using l by auto
  have sumw: "(\<Sum>b = 1..L. unat (bl ! b) * w b) = (\<Sum>e \<leftarrow> leaves. w (l e))" for w :: "nat \<Rightarrow> nat"
  proof -
    have "(\<Sum>b = 1..L. unat (bl ! b) * w b) = (\<Sum>b = 1..L. count_list (map l leaves) b * w b)"
      using L by (intro sum.cong) (simp_all add: cnt)
    then show ?thesis using sum_count_weight [OF _ sub, of w] by (simp add: comp_def)
  qed
  have s1: "(\<Sum>b = 1..L. unat (bl ! b)) = length leaves" using sumw [of "\<lambda>_. 1"] by (simp add: sum_list_triv)
  have s2: "(\<Sum>b = 1..L. unat (bl ! b) * 2 ^ (L - b)) = 2 ^ L + h"
    using sumw [of "\<lambda>b. 2 ^ (L - b)"] kraft by (simp only:)
  have s3: "h \<le> unat (bl ! L)" using h L by (simp add: cnt)
  show "ov_inv L (length leaves) h bl"
    unfolding ov_inv_def by (intro conjI allI impI bl(1) s1 s2 s3 z) simp_all
qed

text \<open>The state of gen_bitlen after both passes: clamped lengths, their statistics and the overflow counter.\<close>

lemma gen_bitlen_passes:
  fixes sd :: static_tree_desc and leaves :: "u32 list" and tree :: tree
  defines "E \<equiv> elems sd" and "L \<equiv> max_length sd" and "LV \<equiv> leaf_nodes leaves" and "N \<equiv> length leaves"
  defines "root \<equiv> E + N - 2"
  assumes ok: "leaves_ok E leaves" and len: "length tree = 2 * E + 1"
    and dads: "dads_ok tree (LV \<union> {E..<root}) E (N - 1)" and L: "1 \<le> L" "L \<le> 15"
    and p1: "fold (internal_len L) (rev [E..<root]) (tree[root := (tree ! root)\<lparr>dl := 0\<rparr>], 0) = (tree1, ov1)"
    and p2: "fold (leaf_len sd) leaves (tree1, ov1, replicate 16 0, ol, sl) = (tree2, ov2, bl, ol2, sl2)"
  shows "\<exists>h. ov2 = 2 * int h \<and> ov_inv L N h bl" and "length tree2 = length tree"
    and "\<And>v. v < E \<Longrightarrow> v \<notin> LV \<Longrightarrow> tree2 ! v = tree ! v" and "\<And>v. v < E \<Longrightarrow> Freq (tree2 ! v) = Freq (tree ! v)"
    and "\<And>v. v \<in> LV \<Longrightarrow> 1 \<le> node_len tree2 v \<and> node_len tree2 v \<le> L"
    and "\<And>b. b < 16 \<Longrightarrow> unat (bl ! b) = count_list (map (\<lambda>e. node_len tree2 (pq_node e)) leaves) b"
    and "ol2 = ol + leaf_cost sd tree (node_len tree2) leaves" and "sl2 = sl + static_cost sd tree leaves"
proof -
  define D where "D v = unat (Dad (tree ! v))" for v
  define T0 where "T0 = tree[root := (tree ! root)\<lparr>dl := 0\<rparr>]"
  have N: "2 \<le> N" "N \<le> E" "E \<le> 286" and dist: "distinct (map pq_node leaves)" and LV: "LV \<subseteq> {..<E}" "finite LV"
    using ok by (simp_all add: leaves_ok_def N_def LV_def leaf_nodes_def)
  have root: "E \<le> root" "root < length tree" "E + (N - 1) = Suc root" using N len by (auto simp: root_def)
  have D: "D v \<in> {E..root}" "v < D v" if "v \<in> LV \<union> {E..<root}" for v
    using dads that unfolding dads_ok_def D_def root(3) by (auto simp: less_Suc_eq_le)
  have sons: "card {v \<in> LV \<union> {E..<root}. D v = u} = 2" if "u \<in> {E..root}" for u
    using dads that unfolding dads_ok_def D_def root(3) by (auto simp: less_Suc_eq_le)
  have T0: "T0 ! v = (if v = root then (tree ! root)\<lparr>dl := 0\<rparr> else tree ! v)" for v
    using root(2) by (simp add: T0_def nth_list_update)
  have "internal_inv T0 D L E root (tree1, ov1)"
    unfolding p1 [folded T0_def, symmetric]
    using root D L by (intro internal_pass) (auto simp: T0 D_def T0_def)
  then have len1: "length tree1 = length tree" and at1: "\<And>v. v \<notin> {E..<root} \<Longrightarrow> tree1 ! v = T0 ! v"
    and nl1: "\<And>v. v \<in> {E..<root} \<Longrightarrow> node_len tree1 v = min L (node_len tree1 (D v) + 1)"
    and ov1: "ov1 = int (card {v \<in> {E..<root}. node_len tree1 (D v) + 1 > L})"
    by (simp_all add: internal_inv_def T0_def)
  have leaf1: "tree1 ! v = tree ! v" if "v < E" for v using at1 [of v] that root(1) by (simp add: T0)
  have Dleaf: "unat (Dad (tree1 ! v)) = D v" if "v \<in> LV" for v using leaf1 [of v] that LV by (auto simp: D_def)
  have h1: "v < length tree1" "unat (Dad (tree1 ! v)) \<notin> LV" if "v \<in> LV" for v
    using that LV D(1) [of v] len1 len by (auto simp: Dleaf)
  obtain tree2' bl' where p2': "fold (leaf_len sd) leaves (tree1, ov1, replicate 16 0, ol, sl) =
      (tree2', ov1 + int (length (filter (\<lambda>e. clamped L tree1 (pq_node e)) leaves)), bl',
       ol + leaf_cost sd tree1 (clamp_bits L tree1) leaves, sl + static_cost sd tree1 leaves)"
    and len2': "length tree2' = length tree1" "length bl' = 16"
    and at2': "\<And>v. tree2' ! v = (if v \<in> LV then (tree1 ! v)\<lparr>dl := of_nat (clamp_bits L tree1 v)\<rparr> else tree1 ! v)"
    and bl': "\<And>b. b < 16 \<Longrightarrow> bl' ! b = of_nat (count_list (map (\<lambda>e. clamp_bits L tree1 (pq_node e)) leaves) b)"
    using leaf_pass [of leaves tree1 sd ov1 ol sl] dist h1 L(2) unfolding L_def LV_def by blast
  have eqs: "tree2 = tree2'" "bl = bl'" "ov2 = ov1 + int (length (filter (\<lambda>e. clamped L tree1 (pq_node e)) leaves))"
    "ol2 = ol + leaf_cost sd tree1 (clamp_bits L tree1) leaves" "sl2 = sl + static_cost sd tree1 leaves"
    using p2 p2' by simp_all
  note at2 = at2' [folded eqs(1)] and bl2 = bl' [folded eqs(2)]
  have cb: "clamp_bits L tree1 v = min L (node_len tree1 (D v) + 1)" "clamped L tree1 v \<longleftrightarrow> node_len tree1 (D v) + 1 > L"
    if "v \<in> LV" for v using Dleaf [OF that] by (simp_all add: clamp_bits_def clamped_def node_len_def)
  have nl2: "node_len tree2 v = (if v \<in> LV then clamp_bits L tree1 v else node_len tree1 v)" for v
    using L by (auto simp: node_len_def at2 clamp_bits_def unat_of_nat)
  have inner: "u \<notin> LV" if "u \<in> {E..root}" for u using that LV by auto
  have c: "node_len tree2 v = min L (node_len tree2 (D v) + 1)" if v: "v \<in> LV \<union> {E..<root}" for v
  proof (cases "v \<in> LV")
    case True
    then show ?thesis using inner [OF D(1) [OF v]] cb(1) by (simp add: nl2)
  next
    case False
    then show ?thesis using inner [OF D(1) [OF v]] nl1 v by (simp add: nl2)
  qed
  have c0: "node_len tree2 root = 0"
    using inner [of root] root(1) at1 [of root] by (simp add: nl2) (simp add: node_len_def T0)
  define h where "h = card {u \<in> {E..root}. node_len tree2 u = L}"
  note ck = clamped_kraft [OF LV(2,1) root(1) D(1) sons, of "node_len tree2" L, OF _ _ c0 c L(1), folded h_def, simplified]
  have "h \<le> card {v \<in> LV. node_len tree2 v = L}" using ck(3) by blast
  also have "\<dots> = count_list (map (\<lambda>e. node_len tree2 (pq_node e)) leaves) L"
    unfolding LV_def card_nodes_filter [OF dist] by (simp add: count_list_eq_length_filter filter_map comp_def eq_commute)
  finally have hL: "h \<le> count_list (map (\<lambda>e. node_len tree2 (pq_node e)) leaves) L" .
  have mem: "pq_node e \<in> LV" if "e \<in> set leaves" for e using that by (simp add: LV_def leaf_nodes_def)
  have lc: "map (\<lambda>e. clamp_bits L tree1 (pq_node e)) leaves = map (\<lambda>e. node_len tree2 (pq_node e)) leaves"
    using mem by (simp add: nl2)
  have "(\<Sum>e \<leftarrow> leaves. 2 ^ (L - node_len tree2 (pq_node e))) = (\<Sum>v \<in> LV. 2 ^ (L - node_len tree2 v) :: nat)"
    using sum.distinct_set_conv_list [OF dist, of "\<lambda>v. 2 ^ (L - node_len tree2 v) :: nat"]
    by (simp add: LV_def leaf_nodes_def comp_def)
  then have kraft: "(\<Sum>e \<leftarrow> leaves. 2 ^ (L - node_len tree2 (pq_node e))) = 2 ^ L + h" using ck(1) by simp
  show nlr: "1 \<le> node_len tree2 v \<and> node_len tree2 v \<le> L" if "v \<in> LV" for v using c [of v] that L by simp
  have N286: "length leaves \<le> 286" using N by (simp add: N_def)
  note lens = lens_counts [of bl "\<lambda>e. node_len tree2 (pq_node e)" leaves L h,
      OF _ bl2 [unfolded lc] N286 nlr [OF mem] L(2) kraft hL, unfolded eqs(2), OF len2'(2), folded eqs(2)]
  show "\<And>b. b < 16 \<Longrightarrow> unat (bl ! b) = count_list (map (\<lambda>e. node_len tree2 (pq_node e)) leaves) b"
    by (rule lens(2))
  show "length tree2 = length tree" using len2' len1 eqs(1) by simp
  show "\<And>v. v < E \<Longrightarrow> v \<notin> LV \<Longrightarrow> tree2 ! v = tree ! v" using at2 leaf1 by simp
  show "\<And>v. v < E \<Longrightarrow> Freq (tree2 ! v) = Freq (tree ! v)" using at2 leaf1 by simp
  have lf: "tree1 ! pq_node e = tree ! pq_node e" if "e \<in> set leaves" for e using leaf1 mem [OF that] LV by auto
  show "ol2 = ol + leaf_cost sd tree (node_len tree2) leaves"
    unfolding eqs(4) leaf_cost_def using lf mem by (intro arg_cong2 [of _ _ _ _ "(+)"] arg_cong [of _ _ sum_list] map_cong) (simp_all add: nl2)
  show "sl2 = sl + static_cost sd tree leaves"
    unfolding eqs(5) static_cost_def using lf by (auto split: option.splits intro!: arg_cong [of _ _ sum_list] map_cong)
  have "{v \<in> LV \<union> {E..<root}. node_len tree2 (D v) + 1 > L} =
      {v \<in> LV. clamped L tree1 v} \<union> {v \<in> {E..<root}. node_len tree1 (D v) + 1 > L}"
    using inner [OF D(1)] cb(2) by (auto simp: nl2)
  moreover have "{v \<in> LV. clamped L tree1 v} \<inter> {v \<in> {E..<root}. node_len tree1 (D v) + 1 > L} = {}" using LV by auto
  ultimately have "card {v \<in> LV \<union> {E..<root}. node_len tree2 (D v) + 1 > L} =
      length (filter (\<lambda>e. clamped L tree1 (pq_node e)) leaves) + card {v \<in> {E..<root}. node_len tree1 (D v) + 1 > L}"
    using LV(2) by (simp add: card_Un_disjoint LV_def card_nodes_filter [OF dist])
  then have "ov2 = 2 * int h" using ck(2) eqs(3) ov1 by simp
  with lens(1) show "\<exists>h. ov2 = 2 * int h \<and> ov_inv L N h bl" unfolding N_def by blast
qed

text \<open>What gen_bitlen establishes.\<close>

definition lens_ok :: "static_tree_desc \<Rightarrow> tree \<Rightarrow> u32 list \<Rightarrow> tree \<Rightarrow> u16 list \<Rightarrow> bool" where
  "lens_ok sd tree leaves tree' bl \<longleftrightarrow> length tree' = length tree
     \<and> (\<forall>v < elems sd. v \<notin> leaf_nodes leaves \<longrightarrow> tree' ! v = tree ! v)
     \<and> (\<forall>v < elems sd. Freq (tree' ! v) = Freq (tree ! v))
     \<and> (\<forall>v \<in> leaf_nodes leaves. 1 \<le> node_len tree' v \<and> node_len tree' v \<le> max_length sd)
     \<and> ov_inv (max_length sd) (length leaves) 0 bl
     \<and> (\<forall>b < 16. unat (bl ! b) = count_list (map (\<lambda>e. node_len tree' (pq_node e)) leaves) b)"

lemma recompute_ok:
  fixes sd :: static_tree_desc
  defines "L \<equiv> max_length sd"
  assumes inv: "ov_inv L (length leaves) 0 bl" and L: "L \<le> 15" and dist: "distinct (map pq_node leaves)"
    and sub: "leaf_nodes leaves \<subseteq> {..<elems sd}" and len: "elems sd \<le> length tree"
  shows "\<exists>tree'. recompute_lens bl L leaves (tree, ol + leaf_cost sd tree (node_len tree) leaves) =
      (tree', ol + leaf_cost sd tree (node_len tree') leaves) \<and> lens_ok sd tree leaves tree' bl"
proof -
  define ls where "ls = len_seq bl L"
  have lls: "length leaves = length ls" using inv by (simp add: ls_def length_len_seq ov_inv_def)
  have lsL: "1 \<le> b \<and> b \<le> L" if "b \<in> set ls" for b
    using that count_len_seq [of bl L b] count_list_0_iff [of ls b] by (auto simp: ls_def split: if_splits)
  have zmem: "pq_node e < length tree \<and> b \<le> 15" if "(b, e) \<in> set (zip ls leaves)" for b e
    using lsL [of b] L sub len set_zip_leftD [OF that] set_zip_rightD [OF that] by (force simp: leaf_nodes_def)
  have snd: "map snd (zip ls leaves) = leaves" using lls by simp
  have "distinct (map (pq_node \<circ> snd) (zip ls leaves))" using dist snd by (metis map_map)
  from set_lens_fold [OF this zmem, of "ol + leaf_cost sd tree (node_len tree) leaves", unfolded snd]
  obtain tree' where t: "fold (\<lambda>(b, e). set_len b e) (zip ls leaves) (tree, ol + leaf_cost sd tree (node_len tree) leaves) =
      (tree', ol + leaf_cost sd tree (node_len tree) leaves
        + (\<Sum>(b, e) \<leftarrow> zip ls leaves. ucast (Freq (tree ! pq_node e)) * (of_nat b - ucast (Len (tree ! pq_node e)))))"
    and len': "length tree' = length tree"
    and at: "\<And>b e. (b, e) \<in> set (zip ls leaves) \<Longrightarrow> tree' ! pq_node e = (tree ! pq_node e)\<lparr>dl := of_nat b\<rparr>"
    and other: "\<And>v. v \<notin> leaf_nodes leaves \<Longrightarrow> tree' ! v = tree ! v"
    by blast
  have nl: "node_len tree' (pq_node (leaves ! i)) = ls ! i" if "i < length leaves" for i
  proof -
    have "(ls ! i, leaves ! i) \<in> set (zip ls leaves)" using that lls by (auto simp: set_zip)
    moreover have "ls ! i \<le> 15" using lsL [of "ls ! i"] that lls L by simp
    ultimately show ?thesis using at by (simp add: node_len_def unat_of_nat)
  qed
  have ls: "ls = map (\<lambda>e. node_len tree' (pq_node e)) leaves"
    using lls nl by (intro nth_equalityI) simp_all
  then have zip: "zip ls leaves = map (\<lambda>e. (node_len tree' (pq_node e), e)) leaves"
    by (simp add: zip_map1 zip_same_conv_map)
  have "(\<Sum>(b, e) \<leftarrow> zip ls leaves. ucast (Freq (tree ! pq_node e)) * (of_nat b - ucast (Len (tree ! pq_node e)) :: u32))
      = (\<Sum>e \<leftarrow> leaves. ucast (Freq (tree ! pq_node e)) * (of_nat (node_len tree' (pq_node e)) - of_nat (node_len tree (pq_node e))))"
    unfolding zip by (simp add: comp_def node_len_def)
  moreover have "leaf_cost sd tree (node_len tree) leaves + \<dots> = leaf_cost sd tree (node_len tree') leaves"
    unfolding leaf_cost_def sum_list_addf [symmetric] by (simp add: algebra_simps)
  ultimately have "recompute_lens bl L leaves (tree, ol + leaf_cost sd tree (node_len tree) leaves) =
      (tree', ol + leaf_cost sd tree (node_len tree') leaves)"
    using recompute_lens_zip [of leaves bl L] lls t by (simp add: ls_def add.assoc)
  moreover have "lens_ok sd tree leaves tree' bl"
    unfolding lens_ok_def L_def [symmetric]
  proof (intro conjI allI impI ballI)
    fix v
    show "Freq (tree' ! v) = Freq (tree ! v)" if "v < elems sd"
    proof (cases "v \<in> leaf_nodes leaves")
      case True
      then obtain e where "e \<in> set leaves" "v = pq_node e" by (auto simp: leaf_nodes_def)
      then have "(node_len tree' v, e) \<in> set (zip ls leaves)" unfolding zip by auto
      with at \<open>v = pq_node e\<close> show ?thesis by simp
    qed (simp add: other)
    assume "v \<in> leaf_nodes leaves"
    then have "node_len tree' v \<in> set ls" unfolding ls by (auto simp: leaf_nodes_def)
    then show "1 \<le> node_len tree' v" "node_len tree' v \<le> L" using lsL by blast+
  next
    fix b :: nat assume "b < 16"
    then have "unat (bl ! b) = (if 1 \<le> b \<and> b \<le> L then unat (bl ! b) else 0)"
      using inv by (auto simp: ov_inv_def not_le)
    then show "unat (bl ! b) = count_list (map (\<lambda>e. node_len tree' (pq_node e)) leaves) b"
      using count_len_seq [of bl L b] by (simp only: ls [symmetric] ls_def)
  qed (use len' other inv in simp_all)
  ultimately show ?thesis by blast
qed

lemma gen_bitlen_ok:
  fixes sd :: static_tree_desc
  defines "E \<equiv> elems sd" and "L \<equiv> max_length sd"
  assumes ok: "leaves_ok E leaves" and len: "length tree = 2 * E + 1"
    and dads: "dads_ok tree (leaf_nodes leaves \<union> {E..<E + length leaves - 2}) E (length leaves - 1)"
    and L: "1 \<le> L" "L \<le> 15" and N: "length leaves \<le> 2 ^ L"
  shows "\<exists>tree' bl. gen_bitlen sd tree leaves (E + length leaves - 2) ol sl =
      Some (tree', bl, ol + leaf_cost sd tree (node_len tree') leaves, sl + static_cost sd tree leaves)
    \<and> lens_ok sd tree leaves tree' bl"
proof -
  let ?root = "E + length leaves - 2"
  obtain tree1 ov1 where p1: "fold (internal_len L) (rev [E..<?root]) (tree[?root := (tree ! ?root)\<lparr>dl := 0\<rparr>], 0) = (tree1, ov1)"
    by fastforce
  obtain tree2 ov2 bl ol2 sl2 where p2: "fold (leaf_len sd) leaves (tree1, ov1, replicate 16 0, ol, sl) = (tree2, ov2, bl, ol2, sl2)"
    by (metis surj_pair)
  note ps = gen_bitlen_passes [of sd leaves tree, folded E_def L_def, OF ok len dads L p1 p2]
  obtain h where h: "ov2 = 2 * int h" "ov_inv L (length leaves) h bl" using ps(1) by blast
  have lok: "lens_ok sd tree leaves tree2 bl" if "h = 0"
    unfolding lens_ok_def L_def [symmetric] E_def [symmetric] using ps(2-6) h(2) that by blast
  have N286: "length leaves \<le> 286" and dist: "distinct (map pq_node leaves)" and sub: "leaf_nodes leaves \<subseteq> {..<elems sd}"
    using ok by (simp_all add: leaves_ok_def E_def)
  have gb: "gen_bitlen sd tree leaves ?root ol sl = (if ov2 = 0 then Some (tree2, bl, ol2, sl2)
        else case fix_overflow L ov2 bl of None \<Rightarrow> None
        | Some bl \<Rightarrow> let (tree, opt_len) = recompute_lens bl L leaves (tree2, ol2) in Some (tree, bl, opt_len, sl2))"
    unfolding gen_bitlen_def L_def [symmetric] E_def [symmetric] by (simp add: MAX_BITS_def p1 p2)
  show ?thesis
  proof (cases h)
    case 0
    then show ?thesis using gb lok h(1) ps(7,8) by auto
  next
    case (Suc g)
    then obtain bl' where bl': "fix_overflow L ov2 bl = Some bl'" "ov_inv L (length leaves) 0 bl'"
      using fix_overflow_inv [OF h(2) [unfolded Suc] L N286 N] h(1) by auto
    have cost: "leaf_cost sd tree2 l leaves = leaf_cost sd tree l leaves" for l
      unfolding leaf_cost_def using ps(4) sub
      by (intro arg_cong [of _ _ sum_list] map_cong) (auto simp: leaf_nodes_def E_def)
    obtain tree' where t': "recompute_lens bl' L leaves (tree2, ol + leaf_cost sd tree2 (node_len tree2) leaves) =
        (tree', ol + leaf_cost sd tree2 (node_len tree') leaves)" "lens_ok sd tree2 leaves tree' bl'"
      using recompute_ok [of sd leaves bl' tree2 ol, folded L_def, OF bl'(2) L(2) dist sub] ps(2) len E_def by auto
    have "lens_ok sd tree leaves tree' bl'"
      using t'(2) ps(2-4) unfolding lens_ok_def E_def by auto
    moreover have "gen_bitlen sd tree leaves ?root ol sl =
        Some (tree', bl', ol + leaf_cost sd tree (node_len tree') leaves, sl + static_cost sd tree leaves)"
      using gb bl'(1) t'(1) ps(7,8) h(1) Suc by (simp add: cost)
    ultimately show ?thesis by blast
  qed
qed

end
