(* ===== verification/Trees_Emit.thy ===== *)
theory Trees_Emit
  imports Trees_Tables
begin

text \<open>
  Emission of symbols (trees_emit.h), the symbol buffer (deflate_p.h) and compress_block (trees.c).
  The lemmas show that the merged 64-bit emission paths send exactly the codes of the symbols, one
  after the other, and that the symbols read back are the ones that were tallied.
\<close>

section \<open>Fields accumulated in a register\<close>

text \<open>\<^verbatim>\<open>send_bits_merge\<close> on a pair of local variables: the bits and their number.\<close>

definition add_bits :: "u64 \<Rightarrow> nat \<Rightarrow> u64 \<times> nat \<Rightarrow> u64 \<times> nat" where
  "add_bits val len acc = (case acc of (bits, nbits) \<Rightarrow> (bits OR push_bit nbits val, nbits + len))"

definition send_code_merge :: "nat \<Rightarrow> tree \<Rightarrow> u64 \<times> nat \<Rightarrow> u64 \<times> nat" where
  "send_code_merge c tree acc = add_bits (ucast (Code (tree ! c))) (unat (Len (tree ! c))) acc"

definition send_code :: "nat \<Rightarrow> tree \<Rightarrow> 'a bit_state_scheme \<Rightarrow> 'a bit_state_scheme" where
  "send_code c tree s = send_bits (ucast (Code (tree ! c))) (unat (Len (tree ! c))) s"

definition zng_assemble_dist :: "tree \<Rightarrow> tree \<Rightarrow> u32 \<Rightarrow> u32 \<Rightarrow> u64 \<times> nat" where
  "zng_assemble_dist ltree dtree lc dist =
    (let code = zng_length_code ! unat lc;
         c = code + LITERALS + 1;
         acc = (ucast (Code (ltree ! c)), unat (Len (ltree ! c)));
         mask_ext = ucast (lmask_extra ! code) :: u32;
         extra = unat (drop_bit 8 mask_ext);
         acc = add_bits (ucast (lc AND mask_ext)) extra acc;
         dist = dist - 1;
         code = d_code (unat dist);
         acc = add_bits (ucast (Code (dtree ! code))) (unat (Len (dtree ! code))) acc;
         mask_ext = dmask_extra ! code;
         extra = unat (drop_bit 16 mask_ext)
     in add_bits (ucast (dist AND mask_ext)) extra acc)"

section \<open>Emission\<close>

definition zng_emit_lit :: "tree \<Rightarrow> nat \<Rightarrow> 'a bit_state_scheme \<Rightarrow> 'a bit_state_scheme" where
  "zng_emit_lit ltree c s = send_code c ltree s"

definition zng_emit_dist :: "tree \<Rightarrow> tree \<Rightarrow> u32 \<Rightarrow> u32 \<Rightarrow> 'a bit_state_scheme \<Rightarrow> 'a bit_state_scheme" where
  "zng_emit_dist ltree dtree lc dist s =
     (let (match_bits, match_bits_len) = zng_assemble_dist ltree dtree lc dist in send_bits match_bits match_bits_len s)"

definition zng_emit_end_block :: "tree \<Rightarrow> 'a bit_state_scheme \<Rightarrow> 'a bit_state_scheme" where
  "zng_emit_end_block ltree s = send_code END_BLOCK ltree s"

definition zng_tr_emit_lit :: "tree \<Rightarrow> nat \<Rightarrow> 'a bit_state_scheme \<Rightarrow> 'a bit_state_scheme" where
  "zng_tr_emit_lit ltree c s = zng_emit_lit ltree c s"

definition zng_tr_emit_dist :: "tree \<Rightarrow> tree \<Rightarrow> u32 \<Rightarrow> u32 \<Rightarrow> 'a bit_state_scheme \<Rightarrow> 'a bit_state_scheme" where
  "zng_tr_emit_dist ltree dtree lc dist s = zng_emit_dist ltree dtree lc dist s"

text \<open>The block types of zutil.h.\<close>

definition STORED_BLOCK :: nat where "STORED_BLOCK = 0"
definition STATIC_TREES :: nat where "STATIC_TREES = 1"
definition DYN_TREES :: nat where "DYN_TREES = 2"

definition zng_tr_emit_tree :: "nat \<Rightarrow> bool \<Rightarrow> 'a bit_state_scheme \<Rightarrow> 'a bit_state_scheme" where
  "zng_tr_emit_tree type is_last s = send_bits (of_nat (type * 2 + of_bool is_last)) 3 s"

definition zng_tr_emit_align :: "'a bit_state_scheme \<Rightarrow> 'a bit_state_scheme" where
  "zng_tr_emit_align s = bi_windup s"

definition zng_tr_emit_end_block :: "tree \<Rightarrow> bool \<Rightarrow> 'a bit_state_scheme \<Rightarrow> 'a bit_state_scheme" where
  "zng_tr_emit_end_block ltree is_last s =
     (let s = zng_emit_end_block ltree s in if is_last then zng_tr_emit_align s else s)"

section \<open>The symbol buffer\<close>

text \<open>
  A symbol takes three bytes: the distance (zero for a literal) and the literal or the match
  length minus three. It is written and read with one four-byte access.
\<close>

definition zng_memwrite_4 :: "bytes \<Rightarrow> nat \<Rightarrow> u32 \<Rightarrow> bytes" where
  "zng_memwrite_4 buf pos val = take pos buf @ le_bytes 4 val @ drop (pos + 4) buf"

definition read_sym :: "bytes \<Rightarrow> nat \<Rightarrow> u32 \<times> u32" where
  "read_sym sym_buf sx =
     (let dist_lc = zng_memread_4 (drop sx sym_buf) in (dist_lc AND 0xffff, drop_bit 16 dist_lc AND 0xff))"

definition LIT3_DIST1_MASK :: u64 where "LIT3_DIST1_MASK = 0x000000FFFF000000"

text \<open>A literal and up to two literals that follow it, merged into one field.\<close>

definition lit_run :: "tree \<Rightarrow> bytes \<Rightarrow> nat \<Rightarrow> nat \<Rightarrow> nat \<Rightarrow> (u64 \<times> nat) \<times> nat" where
  "lit_run ltree sym_buf sym_next sx lc =
    (let acc = send_code_merge lc ltree (0, 0) in
     if sx + 8 \<le> sym_next
     then let next_syms = zng_memread_8 (drop sx sym_buf) in
       if (ucast next_syms :: u16) = 0
       then let acc = send_code_merge (unat (drop_bit 16 next_syms AND 0xff)) ltree acc; sx = sx + 3 in
         if next_syms AND LIT3_DIST1_MASK = 0
         then (send_code_merge (unat (drop_bit 40 next_syms AND 0xff)) ltree acc, sx + 3)
         else (acc, sx)
       else (acc, sx)
     else (acc, sx))"

lemma lit_run_progress [simp]: "sx \<le> snd (lit_run ltree sym_buf sym_next sx lc)"
  by (simp add: lit_run_def Let_def)

function compress_loop ::
  "tree \<Rightarrow> tree \<Rightarrow> bytes \<Rightarrow> nat \<Rightarrow> nat \<Rightarrow> 'a bit_state_scheme \<Rightarrow> 'a bit_state_scheme" where
  "compress_loop ltree dtree sym_buf sym_next sx s =
    (if sx < sym_next
     then let s = send_bits_flush s; (dist, lc) = read_sym sym_buf sx in
       if dist = 0
       then let (acc, sx') = lit_run ltree sym_buf sym_next (sx + 3) (unat lc)
         in compress_loop ltree dtree sym_buf sym_next sx' (send_bits_merge (fst acc) (snd acc) s)
       else let (match_bits, match_bits_len) = zng_assemble_dist ltree dtree lc dist
         in compress_loop ltree dtree sym_buf sym_next (sx + 3) (send_bits_merge match_bits match_bits_len s)
     else s)"
  by pat_completeness auto
termination
proof (relation "measure (\<lambda>(ltree, dtree, sym_buf, sym_next, sx, s). sym_next - sx)", goal_cases)
  case (2 ltree dtree sym_buf sym_next sx s s' sym dist lc run acc sx')
  then have "sx + 3 \<le> sx'" by (metis lit_run_progress snd_conv)
  with 2(1) show ?case by auto
qed auto

section \<open>Accumulated fields\<close>

definition fits :: "u64 \<times> nat \<Rightarrow> bool" where
  "fits acc \<longleftrightarrow> snd acc \<le> 64 \<and> take_bit (snd acc) (fst acc) = fst acc"

definition acc_bits :: "u64 \<times> nat \<Rightarrow> bool list" where
  "acc_bits acc = word_bits (snd acc) (fst acc)"

lemma acc_bits_0 [simp]: "acc_bits (0, 0) = []" "fits (0, 0)"
  by (simp_all add: acc_bits_def fits_def)

lemma add_bits_fits:
  assumes "fits acc" and "snd acc + len \<le> 64" and "take_bit len val = val"
  shows "fits (add_bits val len acc)" and "acc_bits (add_bits val len acc) = acc_bits acc @ word_bits len val"
    and "snd (add_bits val len acc) = snd acc + len"
  using assms word_bits_or [of "snd acc" "fst acc" len val] or_push_fits [of "snd acc" "fst acc" len val]
  by (auto simp: add_bits_def fits_def acc_bits_def split: prod.splits)

definition code_ok :: "ct_data \<Rightarrow> bool" where
  "code_ok t \<longleftrightarrow> unat (Len t) \<le> 15 \<and> take_bit (unat (Len t)) (Code t) = Code t"

lemma word_bits_ucast64: "n \<le> 16 \<Longrightarrow> word_bits n (ucast (w :: u16) :: u64) = word_bits n w"
  by (rule nth_equalityI) (auto simp: word_bits_def bit_simps)

lemma take_bit_ucast_up:
  fixes w :: "'a::len word"
  assumes "take_bit n w = w" and "LENGTH('a) \<le> LENGTH('b::len)"
  shows "take_bit n (ucast w :: 'b word) = ucast w"
  using assms by (metis bit_take_bit_iff bit_unsigned_iff bit_word_eqI)

lemma code_ok_bits:
  assumes "code_ok t"
  shows "take_bit (unat (Len t)) (ucast (Code t) :: u64) = ucast (Code t)"
    and "word_bits (unat (Len t)) (ucast (Code t) :: u64) = code_bits t"
  using assms by (auto simp: code_ok_def code_bits_def word_bits_ucast64 intro!: take_bit_ucast_up)

lemma send_code_merge_fits:
  assumes "fits acc" and "code_ok (tree ! c)" and "snd acc \<le> 49"
  shows "fits (send_code_merge c tree acc)" and "acc_bits (send_code_merge c tree acc) = acc_bits acc @ code_bits (tree ! c)"
    and "snd (send_code_merge c tree acc) \<le> snd acc + 15"
  unfolding send_code_merge_def using assms add_bits_fits [OF assms(1) _ code_ok_bits(1) [OF assms(2)]]
  by (auto simp: code_ok_def code_ok_bits)

section \<open>A match as one field\<close>

definition match_bits :: "tree \<Rightarrow> tree \<Rightarrow> nat \<Rightarrow> nat \<Rightarrow> bool list" where
  "match_bits ltree dtree lc dist =
     (let code = zng_length_code ! lc; dcode = d_code (dist - 1)
      in code_bits (ltree ! (code + LITERALS + 1)) @ word_bits (extra_lbits ! code) (of_nat lc :: u64)
       @ code_bits (dtree ! dcode) @ word_bits (extra_dbits ! dcode) (of_nat (dist - 1) :: u64))"

lemma lmask_fields:
  assumes "c < 29"
  shows "unat (drop_bit 8 (ucast (lmask_extra ! c) :: u32)) = extra_lbits ! c"
    and "(ucast (lmask_extra ! c) :: u32) AND 0xff = mask (extra_lbits ! c)" and "extra_lbits ! c \<le> 5"
proof -
  have "map (\<lambda>m. unat (drop_bit 8 (ucast m :: u32))) lmask_extra = extra_lbits"
    by (simp add: lmask_extra_def LMASK_EXTRA_def extra_lbits_def)
  moreover have "map (\<lambda>m. (ucast m :: u32) AND 0xff) lmask_extra = map mask extra_lbits"
    by (simp add: lmask_extra_def LMASK_EXTRA_def extra_lbits_def mask_eq_exp_minus_1)
  moreover have "list_all (\<lambda>e. e \<le> 5) extra_lbits" "length lmask_extra = 29" "length extra_lbits = 29"
    by (simp_all add: extra_lbits_def lmask_extra_def)
  ultimately show "unat (drop_bit 8 (ucast (lmask_extra ! c) :: u32)) = extra_lbits ! c"
    and "(ucast (lmask_extra ! c) :: u32) AND 0xff = mask (extra_lbits ! c)" and "extra_lbits ! c \<le> 5"
    using assms by (metis nth_map, metis nth_map, simp add: list_all_length)
qed

lemma dmask_fields:
  assumes "c < 30"
  shows "unat (drop_bit 16 (dmask_extra ! c)) = extra_dbits ! c"
    and "(dmask_extra ! c) AND 0xffff = mask (extra_dbits ! c)" and "extra_dbits ! c \<le> 13"
proof -
  have "map (\<lambda>m. unat (drop_bit 16 m)) dmask_extra = extra_dbits"
    by (simp add: dmask_extra_def DMASK_EXTRA_def extra_dbits_def)
  moreover have "map (\<lambda>m. m AND 0xffff) dmask_extra = map mask extra_dbits"
    by (simp add: dmask_extra_def DMASK_EXTRA_def extra_dbits_def mask_eq_exp_minus_1)
  moreover have "list_all (\<lambda>e. e \<le> 13) extra_dbits" "length dmask_extra = 30" "length extra_dbits = 30"
    by (simp_all add: extra_dbits_def dmask_extra_def)
  ultimately show "unat (drop_bit 16 (dmask_extra ! c)) = extra_dbits ! c"
    and "(dmask_extra ! c) AND 0xffff = mask (extra_dbits ! c)" and "extra_dbits ! c \<le> 13"
    using assms by (metis nth_map, metis nth_map, simp add: list_all_length)
qed

text \<open>The extra-bit count above the mask does not reach the value that is masked.\<close>

lemma and_mask_ext:
  fixes x m :: u32
  assumes "unat x < 2 ^ k" and "m AND mask k = mask e"
  shows "x AND m = take_bit e x"
proof -
  have "x AND m = (x AND mask k) AND m" using take_bit_word_self [OF assms(1)] by (simp flip: take_bit_eq_mask)
  also have "\<dots> = x AND (m AND mask k)" by (simp add: ac_simps)
  finally show ?thesis unfolding assms(2) by (simp flip: take_bit_eq_mask)
qed

lemma word_bits_take: "word_bits n (take_bit n w) = word_bits n w"
  by (rule word_bits_cong) (simp add: bit_simps)

lemma extra_field:
  fixes x m :: u32
  assumes "unat x < 2 ^ k" and "m AND mask k = mask e" and "e \<le> 16"
  shows "take_bit e (ucast (x AND m) :: u64) = ucast (x AND m)"
    and "word_bits e (ucast (x AND m) :: u64) = word_bits e (of_nat (unat x) :: u64)"
proof -
  have xm: "x AND m = take_bit e x" using assms(1,2) by (rule and_mask_ext)
  show "take_bit e (ucast (x AND m) :: u64) = ucast (x AND m)"
    unfolding xm by (rule take_bit_ucast_up) simp_all
  have "word_bits e (ucast (x AND m) :: u64) = word_bits e (ucast x :: u64)"
    unfolding xm using assms(3) by (intro word_bits_cong) (simp add: bit_simps)
  then show "word_bits e (ucast (x AND m) :: u64) = word_bits e (of_nat (unat x) :: u64)" by simp
qed

lemma mask_numerals: "mask 8 = (0xff :: 'a::len word)" "mask 16 = (0xffff :: 'a::len word)"
  by (simp_all add: mask_eq_exp_minus_1)

lemma zng_assemble_dist_bits:
  assumes lc: "unat lc < 256" and dist: "1 \<le> unat dist" "unat dist \<le> 32768"
    and l: "code_ok (ltree ! (zng_length_code ! unat lc + LITERALS + 1))" and d: "code_ok (dtree ! d_code (unat dist - 1))"
  shows "fits (zng_assemble_dist ltree dtree lc dist)"
    and "acc_bits (zng_assemble_dist ltree dtree lc dist) = match_bits ltree dtree (unat lc) (unat dist)"
    and "snd (zng_assemble_dist ltree dtree lc dist) \<le> 48"
proof -
  define code where "code = zng_length_code ! unat lc"
  define c where "c = code + LITERALS + 1"
  define dcode where "dcode = d_code (unat (dist - 1))"
  have ud: "unat (dist - 1) = unat dist - 1" using dist by (intro unat_minus_one) auto
  have code: "code < 29" using length_code_base [OF lc] by (simp add: code_def)
  have dcode: "dcode < 30" using d_code_base [of "unat (dist - 1)"] dist by (simp add: dcode_def ud)
  have c: "code_ok (ltree ! c)" using l by (simp add: c_def code_def)
  have dc: "code_ok (dtree ! dcode)" using d by (simp add: dcode_def ud)
  note le = lmask_fields [OF code] and de = dmask_fields [OF dcode]
  let ?m = "ucast (lmask_extra ! code) :: u32" and ?dm = "dmask_extra ! dcode"
  let ?a = "(ucast (Code (ltree ! c)) :: u64, unat (Len (ltree ! c)))"
  let ?b = "add_bits (ucast (lc AND ?m)) (extra_lbits ! code) ?a"
  let ?d = "add_bits (ucast (Code (dtree ! dcode))) (unat (Len (dtree ! dcode))) ?b"
  let ?e = "add_bits (ucast ((dist - 1) AND ?dm)) (extra_dbits ! dcode) ?d"
  have asm: "zng_assemble_dist ltree dtree lc dist = ?e"
    by (simp only: zng_assemble_dist_def Let_def code_def [symmetric] c_def [symmetric] dcode_def [symmetric] le(1) de(1))
  have a: "fits ?a" "acc_bits ?a = code_bits (ltree ! c)" "snd ?a \<le> 15"
    using code_ok_bits [OF c] c by (simp_all add: fits_def acc_bits_def code_ok_def)
  have f1: "take_bit (extra_lbits ! code) (ucast (lc AND ?m) :: u64) = ucast (lc AND ?m)"
    "word_bits (extra_lbits ! code) (ucast (lc AND ?m) :: u64) = word_bits (extra_lbits ! code) (of_nat (unat lc) :: u64)"
    using extra_field [of lc 8 ?m "extra_lbits ! code"] lc le(2,3) by (simp_all add: mask_numerals)
  have b: "fits ?b" "acc_bits ?b = acc_bits ?a @ word_bits (extra_lbits ! code) (of_nat (unat lc) :: u64)" "snd ?b \<le> 20"
    using add_bits_fits [OF a(1) _ f1(1)] a(3) le(3) f1(2) by simp_all
  have d1: "unat (Len (dtree ! dcode)) \<le> 15" using dc by (simp add: code_ok_def)
  have d: "fits ?d" "acc_bits ?d = acc_bits ?b @ code_bits (dtree ! dcode)" "snd ?d \<le> 35"
    using add_bits_fits [OF b(1) _ code_ok_bits(1) [OF dc]] b(3) d1 code_ok_bits(2) [OF dc] by simp_all
  have f2: "take_bit (extra_dbits ! dcode) (ucast ((dist - 1) AND ?dm) :: u64) = ucast ((dist - 1) AND ?dm)"
    "word_bits (extra_dbits ! dcode) (ucast ((dist - 1) AND ?dm) :: u64)
      = word_bits (extra_dbits ! dcode) (of_nat (unat (dist - 1)) :: u64)"
    using extra_field [of "dist - 1" 16 ?dm "extra_dbits ! dcode"] ud dist de(2,3) by (simp_all add: mask_numerals)
  have e: "fits ?e" "acc_bits ?e = acc_bits ?d @ word_bits (extra_dbits ! dcode) (of_nat (unat (dist - 1)) :: u64)" "snd ?e \<le> 48"
    using add_bits_fits [OF d(1) _ f2(1)] d(3) de(3) f2(2) by simp_all
  show "fits (zng_assemble_dist ltree dtree lc dist)" "snd (zng_assemble_dist ltree dtree lc dist) \<le> 48"
    unfolding asm using e by blast+
  show "acc_bits (zng_assemble_dist ltree dtree lc dist) = match_bits ltree dtree (unat lc) (unat dist)"
    unfolding asm e(2) d(2) b(2) a(2)
    by (simp only: match_bits_def Let_def c_def code_def dcode_def ud append_assoc)
qed

section \<open>Reading symbols\<close>

text \<open>The symbol stored at a position of the buffer, byte by byte.\<close>

definition sym_at :: "bytes \<Rightarrow> nat \<Rightarrow> nat \<times> nat" where
  "sym_at buf i = (unat (buf ! i) + 256 * unat (buf ! (i + 1)), unat (buf ! (i + 2)))"

lemma unat_byte_field:
  fixes w :: "'a::len word" and b :: u8
  assumes "\<And>i. i < 8 \<Longrightarrow> bit w (k + i) = bit b i"
  shows "unat (drop_bit k w AND 0xff) = unat b"
proof -
  have "bit (unat (drop_bit k w AND mask 8)) i = bit (unat b) i" for i
    using assms [of i] by (cases "i < 8") (auto simp: bit_simps dest: bit_imp_le_length)
  then have "unat (drop_bit k w AND mask 8) = unat b" by (rule bit_eqI)
  then show ?thesis by (simp add: mask_numerals)
qed

lemma unat_pair_field:
  fixes w :: "'a::len word" and b c :: u8
  assumes "\<And>i. i < 8 \<Longrightarrow> bit w i = bit b i" and "\<And>i. i < 8 \<Longrightarrow> bit w (8 + i) = bit c i"
  shows "unat (w AND 0xffff) = unat b + 256 * unat c"
proof -
  have "unat b + 256 * unat c = le_nat [b, c]" by simp
  moreover have "bit (unat (w AND mask 16)) i = bit (le_nat [b, c]) i" for i
    using assms(1) [of i] assms(2) [of "i - 8"] bit_imp_le_length [of w i]
    by (cases "i < 8"; cases "i < 16") (auto simp: bit_simps bit_le_nat not_less le_mod_geq le_div_geq simp del: le_nat.simps)
  then have "unat (w AND mask 16) = le_nat [b, c]" by (rule bit_eqI)
  ultimately show ?thesis by (simp add: mask_numerals)
qed

lemma read_sym_at:
  assumes "sx + 4 \<le> length buf"
  shows "unat (fst (read_sym buf sx)) = fst (sym_at buf sx)" and "unat (snd (read_sym buf sx)) = snd (sym_at buf sx)"
proof -
  let ?w = "zng_memread_4 (drop sx buf)"
  have bit: "bit ?w (8 * k + i) = bit (buf ! (sx + k)) i" if "i < 8" "k < 4" for i k
    using that assms by (simp add: bit_memread_4)
  show "unat (fst (read_sym buf sx)) = fst (sym_at buf sx)"
    using bit [of _ 0] bit [of _ 1] unat_pair_field [of ?w "buf ! sx" "buf ! (sx + 1)"]
    by (simp add: read_sym_def sym_at_def Let_def)
  show "unat (snd (read_sym buf sx)) = snd (sym_at buf sx)"
    using bit [of _ 2] unat_byte_field [of ?w 16 "buf ! (sx + 2)"]
    by (simp add: read_sym_def sym_at_def Let_def)
qed

definition sym_bits :: "tree \<Rightarrow> tree \<Rightarrow> nat \<times> nat \<Rightarrow> bool list" where
  "sym_bits ltree dtree sy = (case sy of (dist, lc) \<Rightarrow>
     if dist = 0 then code_bits (ltree ! lc) else match_bits ltree dtree lc dist)"

definition syms :: "bytes \<Rightarrow> nat \<Rightarrow> (nat \<times> nat) list" where
  "syms buf n = map (\<lambda>i. sym_at buf (3 * i)) [0..<n]"

lemma syms_drop: "k < n \<Longrightarrow> drop k (syms buf n) = sym_at buf (3 * k) # drop (Suc k) (syms buf n)"
  by (simp add: syms_def Cons_nth_drop_Suc [symmetric])

lemma sym_at_lc: "snd (sym_at buf i) < 256"
  by (simp add: sym_at_def)

text \<open>The trees have proper codes for the symbols.\<close>

definition sym_ok :: "tree \<Rightarrow> tree \<Rightarrow> nat \<times> nat \<Rightarrow> bool" where
  "sym_ok ltree dtree sy = (case sy of (dist, lc) \<Rightarrow>
     if dist = 0 then code_ok (ltree ! lc)
     else code_ok (ltree ! (zng_length_code ! lc + LITERALS + 1)) \<and> code_ok (dtree ! d_code (dist - 1)))"

definition trees_ok :: "tree \<Rightarrow> tree \<Rightarrow> (nat \<times> nat) list \<Rightarrow> bool" where
  "trees_ok ltree dtree ss \<longleftrightarrow> (\<forall>sy \<in> set ss. sym_ok ltree dtree sy)"

lemma lit_code_ok: "sym_ok ltree dtree sy \<Longrightarrow> fst sy = 0 \<Longrightarrow> code_ok (ltree ! snd sy)"
  by (auto simp: sym_ok_def split: prod.splits)

lemma memread_8_syms:
  assumes "sx + 8 \<le> length buf"
  shows "(ucast (zng_memread_8 (drop sx buf)) :: u16) = 0 \<longleftrightarrow> fst (sym_at buf sx) = 0"
    and "unat (drop_bit 16 (zng_memread_8 (drop sx buf)) AND 0xff) = snd (sym_at buf sx)"
    and "zng_memread_8 (drop sx buf) AND LIT3_DIST1_MASK = 0 \<longleftrightarrow> fst (sym_at buf (sx + 3)) = 0"
    and "unat (drop_bit 40 (zng_memread_8 (drop sx buf)) AND 0xff) = snd (sym_at buf (sx + 3))"
proof -
  let ?w = "zng_memread_8 (drop sx buf)"
  have bit: "bit ?w (8 * k + i) = bit (buf ! (sx + k)) i" if "i < 8" "k < 8" for i k
    using that assms by (simp add: bit_memread_8)
  have zero: "fst (sym_at buf (sx + 3 * j)) = 0 \<longleftrightarrow> drop_bit (24 * j) ?w AND 0xffff = 0" if "j < 2" for j
  proof -
    have "unat (drop_bit (24 * j) ?w AND 0xffff) = fst (sym_at buf (sx + 3 * j))"
      using bit [of _ "3 * j"] bit [of _ "3 * j + 1"] that
        unat_pair_field [of "drop_bit (24 * j) ?w" "buf ! (sx + 3 * j)" "buf ! (sx + 3 * j + 1)"]
      by (simp add: sym_at_def bit_drop_bit_eq ac_simps)
    then show ?thesis by (metis unat_eq_0 unat_0)
  qed
  have lt: "n < 64" if "n < 16" for n :: nat using that by simp
  have "?w AND mask 16 = 0 \<longleftrightarrow> (ucast ?w :: u16) = 0"
    by (auto simp: bit_eq_iff bit_simps) (use lt in blast)
  then show "(ucast ?w :: u16) = 0 \<longleftrightarrow> fst (sym_at buf sx) = 0" using zero [of 0] by (simp add: mask_numerals)
  have msk: "LIT3_DIST1_MASK = push_bit 24 (mask 16)" by (simp add: LIT3_DIST1_MASK_def mask_numerals)
  have "?w AND LIT3_DIST1_MASK = push_bit 24 (drop_bit 24 ?w AND mask 16)"
    unfolding msk by (intro bit_word_eqI) (auto simp: bit_simps)
  moreover have "push_bit 24 (drop_bit 24 ?w AND mask 16) = 0 \<longleftrightarrow> drop_bit 24 ?w AND mask 16 = 0"
  proof
    assume z: "push_bit 24 (drop_bit 24 ?w AND mask 16) = 0"
    show "drop_bit 24 ?w AND mask 16 = 0"
    proof (rule bit_word_eqI)
      fix i
      have "\<not> bit (push_bit 24 (drop_bit 24 ?w AND mask 16)) (24 + i)" unfolding z by simp
      then show "bit (drop_bit 24 ?w AND mask 16) i = bit (0 :: u64) i" by (auto simp: bit_simps)
    qed
  qed simp
  ultimately show "?w AND LIT3_DIST1_MASK = 0 \<longleftrightarrow> fst (sym_at buf (sx + 3)) = 0"
    using zero [of 1] by (simp add: mask_numerals)
  show "unat (drop_bit 16 ?w AND 0xff) = snd (sym_at buf sx)"
    using bit [of _ 2] unat_byte_field [of ?w 16 "buf ! (sx + 2)"] by (simp add: sym_at_def)
  show "unat (drop_bit 40 ?w AND 0xff) = snd (sym_at buf (sx + 3))"
    using bit [of _ 5] unat_byte_field [of ?w 40 "buf ! (sx + 5)"] by (simp add: sym_at_def add.commute)
qed

section \<open>compress_block sends the symbols\<close>

lemma lit_run_bits:
  assumes ok: "trees_ok ltree dtree (syms buf n)" and lc: "code_ok (ltree ! lc)" and k: "k \<le> n" and buf: "3 * n < length buf"
  obtains j where "snd (lit_run ltree buf (3 * n) (3 * k) lc) = 3 * (k + j)" and "k + j \<le> n"
    and "fits (fst (lit_run ltree buf (3 * n) (3 * k) lc))" and "snd (fst (lit_run ltree buf (3 * n) (3 * k) lc)) \<le> 45"
    and "acc_bits (fst (lit_run ltree buf (3 * n) (3 * k) lc))
      = code_bits (ltree ! lc) @ concat (map (sym_bits ltree dtree) (take j (drop k (syms buf n))))"
proof -
  have l: "code_ok (ltree ! snd (sym_at buf (3 * i)))" if "i < n" "fst (sym_at buf (3 * i)) = 0" for i
    using ok that by (intro lit_code_ok) (auto simp: trees_ok_def syms_def)
  let ?a = "send_code_merge lc ltree (0, 0)"
  have a: "fits ?a" "acc_bits ?a = code_bits (ltree ! lc)" "snd ?a \<le> 15"
    using send_code_merge_fits [of "(0, 0)" ltree lc] lc by simp_all
  let ?w = "zng_memread_8 (drop (3 * k) buf)"
  show thesis
  proof (cases "3 * k + 8 \<le> 3 * n \<and> fst (sym_at buf (3 * k)) = 0")
    case False
    then have "lit_run ltree buf (3 * n) (3 * k) lc = (?a, 3 * k)"
      using buf memread_8_syms(1) [of "3 * k" buf] by (auto simp: lit_run_def Let_def)
    with a k that [of 0] show thesis by simp
  next
    case True
    then have k2: "k + 2 < n" "3 * k + 8 \<le> length buf" using buf by auto
    note w = memread_8_syms [OF k2(2)]
    let ?lc1 = "snd (sym_at buf (3 * k))" and ?lc2 = "snd (sym_at buf (3 * k + 3))"
    let ?b = "send_code_merge ?lc1 ltree ?a" and ?c = "send_code_merge ?lc2 ltree (send_code_merge ?lc1 ltree ?a)"
    have l1: "code_ok (ltree ! ?lc1)" using l [of k] True k2(1) by simp
    have b: "fits ?b" "acc_bits ?b = acc_bits ?a @ code_bits (ltree ! ?lc1)" "snd ?b \<le> 30"
      using send_code_merge_fits [OF a(1) l1] a(3) by simp_all
    have s1: "sym_bits ltree dtree (sym_at buf (3 * k)) = code_bits (ltree ! ?lc1)"
      using True by (auto simp: sym_bits_def split: prod.splits)
    have run: "lit_run ltree buf (3 * n) (3 * k) lc =
        (if fst (sym_at buf (3 * k + 3)) = 0 then (?c, 3 * (k + 2)) else (?b, 3 * (k + 1)))"
      using True k2 w by (simp add: lit_run_def Let_def)
    have d1: "drop k (syms buf n) = sym_at buf (3 * k) # sym_at buf (3 * k + 3) # drop (k + 2) (syms buf n)"
      using k2(1) syms_drop [of k n buf] syms_drop [of "Suc k" n buf] by (simp add: add.commute)
    show thesis
    proof (cases "fst (sym_at buf (3 * k + 3)) = 0")
      case True
      then have l2: "code_ok (ltree ! ?lc2)" using l [of "k + 1"] k2(1) by (simp add: add.commute)
      have c: "fits ?c" "acc_bits ?c = acc_bits ?b @ code_bits (ltree ! ?lc2)" "snd ?c \<le> 45"
        using send_code_merge_fits [OF b(1) l2] b(3) by simp_all
      have "sym_bits ltree dtree (sym_at buf (3 * k + 3)) = code_bits (ltree ! ?lc2)"
        using True by (auto simp: sym_bits_def split: prod.splits)
      with True run c b a s1 d1 k2(1) that [of 2] show thesis by simp
    next
      case False
      with run b a s1 d1 k2(1) that [of 1] show thesis by simp
    qed
  qed
qed

lemma merge_acc_written:
  assumes "bit_inv s" and "fits acc" and "snd acc \<le> 56"
  shows "written (send_bits_merge (fst acc) (snd acc) (send_bits_flush s)) = written s @ acc_bits acc"
    and "bit_inv (send_bits_merge (fst acc) (snd acc) (send_bits_flush s))"
  using flush_merge.send [of s "snd acc" "fst acc"] assms by (simp_all add: fits_def acc_bits_def)

definition syms_ok :: "(nat \<times> nat) list \<Rightarrow> bool" where
  "syms_ok ss \<longleftrightarrow> (\<forall>sy \<in> set ss. fst sy \<le> 32768)"

lemma compress_loop_written:
  assumes "trees_ok ltree dtree (syms buf n)" and "3 * n < length buf" and "syms_ok (syms buf n)" and "k \<le> n" and "bit_inv s"
  shows "written (compress_loop ltree dtree buf (3 * n) (3 * k) s)
      = written s @ concat (map (sym_bits ltree dtree) (drop k (syms buf n)))
    \<and> bit_inv (compress_loop ltree dtree buf (3 * n) (3 * k) s)"
  using assms(4,5)
proof (induction "n - k" arbitrary: k s rule: less_induct)
  case less
  show ?case
  proof (cases "k < n")
    case False
    with less.prems show ?thesis by (subst (1 2) compress_loop.simps) (simp add: syms_def)
  next
    case True
    obtain dist lc where r: "read_sym buf (3 * k) = (dist, lc)" by (cases "read_sym buf (3 * k)")
    have sym: "unat dist = fst (sym_at buf (3 * k))" "unat lc = snd (sym_at buf (3 * k))"
      using read_sym_at [of "3 * k" buf] True assms(2) by (simp_all add: r)
    have lc: "unat lc < 256" by (simp add: sym sym_at_lc)
    have "sym_at buf (3 * k) \<in> set (syms buf n)" using True by (auto simp: syms_def)
    then have ok: "sym_ok ltree dtree (unat dist, unat lc)" using assms(1) by (simp add: trees_ok_def sym)
    have dk: "drop k (syms buf n) = sym_at buf (3 * k) # drop (Suc k) (syms buf n)" using True by (rule syms_drop)
    show ?thesis
    proof (cases "dist = 0")
      case lit: True
      obtain j where j: "snd (lit_run ltree buf (3 * n) (3 * Suc k) (unat lc)) = 3 * (Suc k + j)" "Suc k + j \<le> n"
        and f: "fits (fst (lit_run ltree buf (3 * n) (3 * Suc k) (unat lc)))"
          "snd (fst (lit_run ltree buf (3 * n) (3 * Suc k) (unat lc))) \<le> 45"
        and b: "acc_bits (fst (lit_run ltree buf (3 * n) (3 * Suc k) (unat lc)))
          = code_bits (ltree ! unat lc) @ concat (map (sym_bits ltree dtree) (take j (drop (Suc k) (syms buf n))))"
        using lit_run_bits [OF assms(1), of "unat lc" "Suc k"] lit_code_ok [OF ok] lit True assms(2) by auto
      let ?acc = "fst (lit_run ltree buf (3 * n) (3 * Suc k) (unat lc))"
      let ?s = "send_bits_merge (fst ?acc) (snd ?acc) (send_bits_flush s)"
      have step: "compress_loop ltree dtree buf (3 * n) (3 * k) s = compress_loop ltree dtree buf (3 * n) (3 * (Suc k + j)) ?s"
        using True lit j(1) by (subst compress_loop.simps) (simp add: r Let_def split_def add.commute)
      have m: "written ?s = written s @ acc_bits ?acc" "bit_inv ?s"
        using merge_acc_written [OF less.prems(2) f(1)] f(2) by simp_all
      have "sym_bits ltree dtree (sym_at buf (3 * k)) = code_bits (ltree ! unat lc)"
        using lit sym by (auto simp: sym_bits_def split: prod.splits)
      moreover have "drop (Suc k) (syms buf n) = take j (drop (Suc k) (syms buf n)) @ drop (Suc k + j) (syms buf n)"
        by (metis append_take_drop_id drop_drop add.commute)
      ultimately have "concat (map (sym_bits ltree dtree) (drop k (syms buf n)))
          = acc_bits ?acc @ concat (map (sym_bits ltree dtree) (drop (Suc k + j) (syms buf n)))"
        unfolding dk b by (metis (no_types) append.assoc concat.simps(2) concat_append list.simps(9) map_append)
      with less.hyps [of "Suc k + j" ?s] True j(2) m show ?thesis unfolding step by simp
    next
      case False
      let ?acc = "zng_assemble_dist ltree dtree lc dist"
      let ?s = "send_bits_merge (fst ?acc) (snd ?acc) (send_bits_flush s)"
      have "sym_at buf (3 * k) \<in> set (syms buf n)" using True by (auto simp: syms_def)
      then have "1 \<le> unat dist" "unat dist \<le> 32768"
        using False assms(3) by (auto simp: sym syms_ok_def unat_eq_0 Suc_le_eq unat_gt_0 simp flip: sym)
      note asm = zng_assemble_dist_bits [OF lc this, of ltree dtree]
      have a: "fits ?acc" "acc_bits ?acc = match_bits ltree dtree (unat lc) (unat dist)" "snd ?acc \<le> 48"
        using asm ok False by (simp_all add: sym_ok_def unat_eq_0)
      have step: "compress_loop ltree dtree buf (3 * n) (3 * k) s = compress_loop ltree dtree buf (3 * n) (3 * Suc k) ?s"
        using True False by (subst compress_loop.simps) (simp add: r Let_def split_def add.commute)
      have m: "written ?s = written s @ acc_bits ?acc" "bit_inv ?s"
        using merge_acc_written [OF less.prems(2) a(1)] a(3) by simp_all
      have "sym_bits ltree dtree (sym_at buf (3 * k)) = acc_bits ?acc"
        using False sym unat_eq_0 [of dist] by (auto simp: sym_bits_def a(2) split: prod.splits)
      with less.hyps [of "Suc k" ?s] True m dk show ?thesis unfolding step by simp
    qed
  qed
qed

end
