(* ===== verification/Trees_Complete.thy ===== *)
theory Trees_Complete
  imports Trees_Huffman Trees_Emit
begin

text \<open>
  build_tree as a whole: from any frequency table it returns a complete prefix code within the length limit of
  the tree and adds the exact cost of the block to the length counters.
\<close>

section \<open>The scan and the forced leaves\<close>

definition scan_ok :: "nat \<Rightarrow> tree \<Rightarrow> u32 list \<Rightarrow> int \<Rightarrow> bool" where
  "scan_ok E tree leaves max_code \<longleftrightarrow> distinct (map pq_node leaves)
     \<and> leaf_nodes leaves = {n. n < E \<and> Freq (tree ! n) \<noteq> 0}
     \<and> (\<forall>n < E. Freq (tree ! n) = 0 \<longrightarrow> Len (tree ! n) = 0)
     \<and> (\<forall>v \<in> leaf_nodes leaves. int v \<le> max_code) \<and> - 1 \<le> max_code \<and> max_code < int E
     \<and> (0 \<le> max_code \<longrightarrow> nat max_code \<in> leaf_nodes leaves)"

lemma scan_establishes:
  assumes "E \<le> 286" and "length tree = 2 * E + 1"
  shows "\<exists>tree' lo hi max_code. fold scan_leaf [0..<E] (tree, [], replicate 257 0, replicate 257 0, -1) =
      (tree', leaf_entries tree E, lo, hi, max_code)
    \<and> scan_ok E tree' (leaf_entries tree E) max_code \<and> length tree' = length tree
    \<and> (\<forall>n. Freq (tree' ! n) = Freq (tree ! n))
    \<and> sort_leaves (leaf_entries tree E) lo hi = sort (leaf_entries tree E)"
proof -
  obtain tree' lo hi where f: "fold scan_leaf [0..<E] (tree, [], replicate 257 0, replicate 257 0, -1) =
      (tree', leaf_entries tree E, lo, hi, if used_nodes tree E = [] then -1 else int (last (used_nodes tree E)))"
    and len: "length tree' = length tree"
    and at: "\<And>n. tree' ! n = (if n < E \<and> Freq (tree ! n) = 0 then (tree ! n)\<lparr>dl := 0\<rparr> else tree ! n)"
    and cnt: "digit_counts_ok 10 (leaf_entries tree E) lo" "digit_counts_ok 18 (leaf_entries tree E) hi"
    using scan_leaves [of E tree] assms by auto
  have nodes: "map pq_node (leaf_entries tree E) = used_nodes tree E"
    using assms(1) by (auto simp: leaf_entries_def used_nodes_def intro!: map_idI)
  have lv: "leaf_nodes (leaf_entries tree E) = set (used_nodes tree E)" by (simp only: leaf_nodes_def nodes)
  have srt: "sorted (used_nodes tree E)" "distinct (used_nodes tree E)" by (simp_all add: used_nodes_def sorted_wrt_filter)
  have last: "v \<le> last (used_nodes tree E)" if v: "v \<in> set (used_nodes tree E)" for v
  proof -
    obtain i where "i < length (used_nodes tree E)" "v = used_nodes tree E ! i" using v by (auto simp: in_set_conv_nth)
    then show ?thesis using sorted_nth_mono [OF srt(1), of i "length (used_nodes tree E) - 1"]
      by (cases "used_nodes tree E") (auto simp: last_conv_nth)
  qed
  define mc where "mc = (if used_nodes tree E = [] then -1 else int (last (used_nodes tree E)))"
  have lin: "used_nodes tree E \<noteq> [] \<Longrightarrow> last (used_nodes tree E) \<in> set (used_nodes tree E)" by (rule last_in_set)
  have su: "set (used_nodes tree E) = {n. n < E \<and> Freq (tree ! n) \<noteq> 0}" by (auto simp: used_nodes_def)
  have "scan_ok E tree' (leaf_entries tree E) mc"
  proof (cases "used_nodes tree E = []")
    case True
    then show ?thesis unfolding scan_ok_def nodes lv mc_def using su by (auto simp: at)
  next
    case False
    then show ?thesis unfolding scan_ok_def nodes lv mc_def using srt(2) last lin [OF False] su by (auto simp: at)
  qed
  moreover have "Freq (tree' ! n) = Freq (tree ! n)" for n by (simp add: at)
  moreover have "sort_leaves (leaf_entries tree E) lo hi = sort (leaf_entries tree E)"
    using assms(1) cnt by (rule sort_leaves_sorts)
  ultimately show ?thesis using f len mc_def by blast
qed

lemma force_node:
  assumes ok: "scan_ok E tree leaves mc" and len: "length leaves < 2" and E: "3 \<le> E"
  defines "mc' \<equiv> (if mc < 2 then mc + 1 else mc)" and "node \<equiv> (if mc < 2 then nat (mc + 1) else 0)"
  assumes lt: "length tree = 2 * E + 1"
  shows "node \<le> 2" and "node \<notin> leaf_nodes leaves" and "scan_ok E (tree[node := (tree ! node)\<lparr>fc := 1\<rparr>]) (leaves @ [pq_pack 1 node]) mc'"
proof -
  have mc: "- 1 \<le> mc" "mc < int E" and le: "\<And>v. v \<in> leaf_nodes leaves \<Longrightarrow> int v \<le> mc"
    and top: "0 \<le> mc \<Longrightarrow> nat mc \<in> leaf_nodes leaves" using ok by (auto simp: scan_ok_def)
  show small: "node \<le> 2" unfolding node_def using mc by auto
  show new: "node \<notin> leaf_nodes leaves"
  proof (cases "mc < 2")
    case True
    then show ?thesis using le [of node] mc by (auto simp: node_def)
  next
    case False
    then have "nat mc \<in> leaf_nodes leaves" "nat mc \<noteq> 0" using top by simp_all
    moreover have "leaf_nodes leaves = {nat mc}"
      using len \<open>nat mc \<in> leaf_nodes leaves\<close> by (cases leaves) (auto simp: leaf_nodes_def)
    ultimately show ?thesis using False by (simp add: node_def)
  qed
  have pn: "pq_node (pq_pack 1 node) = node" using small by simp
  have lv: "leaf_nodes (leaves @ [pq_pack 1 node]) = insert node (leaf_nodes leaves)"
    using pn by (simp add: leaf_nodes_def)
  have at: "tree[node := (tree ! node)\<lparr>fc := 1\<rparr>] ! n = (if n = node then (tree ! node)\<lparr>fc := 1\<rparr> else tree ! n)" for n
    using small lt E by (simp add: nth_list_update)
  show "scan_ok E (tree[node := (tree ! node)\<lparr>fc := 1\<rparr>]) (leaves @ [pq_pack 1 node]) mc'"
    unfolding scan_ok_def lv at
  proof (intro conjI)
    show "distinct (map pq_node (leaves @ [pq_pack 1 node]))" using ok new pn by (simp add: scan_ok_def leaf_nodes_def)
    show "insert node (leaf_nodes leaves) = {n. n < E \<and> Freq (if n = node then (tree ! node)\<lparr>fc := 1\<rparr> else tree ! n) \<noteq> 0}"
      using ok small E by (auto simp: scan_ok_def)
    show "\<forall>n < E. Freq (if n = node then (tree ! node)\<lparr>fc := 1\<rparr> else tree ! n) = 0 \<longrightarrow> Len (if n = node then (tree ! node)\<lparr>fc := 1\<rparr> else tree ! n) = 0"
      using ok by (auto simp: scan_ok_def)
    show "\<forall>v \<in> insert node (leaf_nodes leaves). int v \<le> mc'" using mc by (auto simp: mc'_def node_def dest!: le)
    show "- 1 \<le> mc'" "mc' < int E" using mc E by (auto simp: mc'_def)
    show "0 \<le> mc' \<longrightarrow> nat mc' \<in> insert node (leaf_nodes leaves)" using top mc by (auto simp: mc'_def node_def)
  qed
qed

text \<open>\<open>F\<close> is the set of forced symbols; each of them is given frequency one.\<close>

lemma force_leaves_ok:
  assumes "scan_ok E tree leaves mc" and "3 \<le> E" and "length tree = 2 * E + 1"
  shows "\<exists>tree' leaves' mc' F. force_leaves sd (tree, leaves, mc, ol, sl) =
      (tree', leaves', mc', ol - of_nat (card F), sl - (\<Sum>n \<in> F. stree_len sd n))
    \<and> scan_ok E tree' leaves' mc' \<and> 2 \<le> length leaves' \<and> length tree' = length tree \<and> F \<subseteq> {0, 1, 2}
    \<and> leaf_nodes leaves' = leaf_nodes leaves \<union> F \<and> leaf_nodes leaves \<inter> F = {}
    \<and> (F = {} \<longrightarrow> leaves' = leaves) \<and> (F \<noteq> {} \<longrightarrow> length leaves' = 2)
    \<and> (\<forall>n. Freq (tree' ! n) = (if n \<in> F then 1 else Freq (tree ! n)))"
  using assms
proof (induction "2 - length leaves" arbitrary: tree leaves mc ol sl)
  case 0
  then show ?case by (intro exI [of _ tree] exI [of _ leaves] exI [of _ mc] exI [of _ "{}"]) simp
next
  case (Suc k)
  then have l2: "length leaves < 2" by simp
  let ?mc = "if mc < 2 then mc + 1 else mc" and ?node = "if mc < 2 then nat (mc + 1) else 0"
  let ?tree = "tree[?node := (tree ! ?node)\<lparr>fc := 1\<rparr>]" and ?leaves = "leaves @ [pq_pack 1 ?node]"
  note fn = force_node [OF Suc.prems(1) l2 Suc.prems(2,3)]
  have step: "force_leaves sd (tree, leaves, mc, ol, sl) =
      force_leaves sd (?tree, ?leaves, ?mc, ol - 1, sl - stree_len sd ?node)"
    using l2 by (subst force_leaves.simps) (simp add: Let_def)
  have "k = 2 - length ?leaves" using Suc.hyps(2) l2 by simp
  from Suc.hyps(1) [OF this fn(3) Suc.prems(2), of "ol - 1" "sl - stree_len sd ?node"] Suc.prems(3)
  obtain tree' leaves' mc' F where r: "force_leaves sd (?tree, ?leaves, ?mc, ol - 1, sl - stree_len sd ?node) =
      (tree', leaves', mc', ol - 1 - of_nat (card F), sl - stree_len sd ?node - (\<Sum>n \<in> F. stree_len sd n))"
    and p: "scan_ok E tree' leaves' mc'" "2 \<le> length leaves'" "length tree' = length tree" "F \<subseteq> {0, 1, 2}"
      "leaf_nodes leaves' = leaf_nodes ?leaves \<union> F" "leaf_nodes ?leaves \<inter> F = {}" "F = {} \<longrightarrow> leaves' = ?leaves"
      "F \<noteq> {} \<longrightarrow> length leaves' = 2" "\<And>n. Freq (tree' ! n) = (if n \<in> F then 1 else Freq (?tree ! n))"
    by auto
  have pn: "pq_node (pq_pack 1 ?node) = ?node" using fn(1) by (intro pq_node_pack) linarith
  have lv: "leaf_nodes ?leaves = insert ?node (leaf_nodes leaves)" using pn by (simp add: leaf_nodes_def del: if_split_asm)
  have nF: "?node \<notin> F" and fin: "finite F" using p(4,6) lv by (auto intro: finite_subset)
  have nlt: "?node < length tree" using fn(1) Suc.prems(2,3) by linarith
  have freq: "Freq (tree' ! n) = (if n \<in> insert ?node F then 1 else Freq (tree ! n))" for n
    unfolding p(9) using nlt nF by (cases "n = ?node") (simp_all add: nth_list_update del: if_split)
  have res: "force_leaves sd (tree, leaves, mc, ol, sl) = (tree', leaves', mc', ol - of_nat (card (insert ?node F)),
      sl - (\<Sum>n \<in> insert ?node F. stree_len sd n))"
    unfolding step r using nF fin by (simp add: algebra_simps del: if_split)
  have "length leaves' = 2" if "F = {}" using p(2,7) that l2 by simp
  then show ?case
    unfolding res using p lv fn(1,2) freq
    by (intro exI [of _ tree'] exI [of _ leaves'] exI [of _ mc'] exI [of _ "insert ?node F"]) auto
qed

section \<open>Costs\<close>

definition tree_cost :: "static_tree_desc \<Rightarrow> tree \<Rightarrow> (nat \<Rightarrow> nat) \<Rightarrow> u32" where
  "tree_cost sd tree l = (\<Sum>n < elems sd. ucast (Freq (tree ! n)) * of_nat (l n + xbits sd n))"

definition tree_static_cost :: "static_tree_desc \<Rightarrow> tree \<Rightarrow> u32" where
  "tree_static_cost sd tree = (case static_tree sd of None \<Rightarrow> 0 | Some stree \<Rightarrow>
     (\<Sum>n < elems sd. ucast (Freq (tree ! n)) * (ucast (Len (stree ! n)) + of_nat (xbits sd n))))"

lemma sum_leaves:
  fixes g :: "nat \<Rightarrow> u32"
  assumes "distinct (map pq_node leaves)" and "leaf_nodes leaves = {n. n < E \<and> Freq (tree ! n) \<noteq> 0}"
  shows "(\<Sum>e \<leftarrow> leaves. ucast (Freq (tree ! pq_node e)) * g (pq_node e)) = (\<Sum>n < E. ucast (Freq (tree ! n)) * g n)"
proof -
  have "(\<Sum>e \<leftarrow> leaves. ucast (Freq (tree ! pq_node e)) * g (pq_node e)) = (\<Sum>n \<in> leaf_nodes leaves. ucast (Freq (tree ! n)) * g n)"
    using sum.distinct_set_conv_list [OF assms(1), of "\<lambda>n. ucast (Freq (tree ! n)) * g n"]
    by (simp add: leaf_nodes_def comp_def)
  also have "\<dots> = (\<Sum>n < E. ucast (Freq (tree ! n)) * g n)"
    unfolding assms(2) by (rule sum.mono_neutral_left) auto
  finally show ?thesis .
qed

lemma forced_sum:
  fixes g :: "nat \<Rightarrow> u32"
  assumes F: "F \<subseteq> {..<E}" and freq: "\<And>n. Freq (tree' ! n) = (if n \<in> F then 1 else Freq (tree ! n))"
    and zero: "\<And>n. n \<in> F \<Longrightarrow> Freq (tree ! n) = 0"
  shows "(\<Sum>n < E. ucast (Freq (tree' ! n)) * g n) = (\<Sum>n < E. ucast (Freq (tree ! n)) * g n) + (\<Sum>n \<in> F. g n)"
proof -
  have "(\<Sum>n < E. ucast (Freq (tree' ! n)) * g n) = (\<Sum>n < E. ucast (Freq (tree ! n)) * g n + (if n \<in> F then g n else 0))"
    by (rule sum.cong) (simp_all add: freq zero)
  also have "\<dots> = (\<Sum>n < E. ucast (Freq (tree ! n)) * g n) + (\<Sum>n < E. if n \<in> F then g n else 0)"
    by (rule sum.distrib)
  also have "(\<Sum>n < E. if n \<in> F then g n else 0) = (\<Sum>n \<in> F. g n)"
    using F by (simp add: sum.If_cases Int_absorb1)
  finally show ?thesis .
qed

section \<open>The result of build_tree\<close>

definition desc_ok :: "static_tree_desc \<Rightarrow> bool" where
  "desc_ok sd \<longleftrightarrow> 3 \<le> elems sd \<and> elems sd \<le> 286 \<and> 1 \<le> max_length sd \<and> max_length sd \<le> 15
     \<and> elems sd \<le> 2 ^ max_length sd \<and> (\<forall>n \<le> 2. xbits sd n = 0)"

lemma all_le_2: "(\<forall>n \<le> (2 :: nat). P n) \<longleftrightarrow> P 0 \<and> P 1 \<and> P 2"
  by (auto simp: le_Suc_eq numeral_2_eq_2)

lemma descs_ok: "desc_ok static_l_desc" "desc_ok static_d_desc" "desc_ok static_bl_desc"
  by (simp_all add: desc_ok_def all_le_2 static_l_desc_def static_d_desc_def static_bl_desc_def xbits_def L_CODES_def
      LITERALS_def LENGTH_CODES_def D_CODES_def BL_CODES_def MAX_BITS_def MAX_BL_BITS_def extra_dbits_def extra_blbits_def)

text \<open>Two leaves have one bit each.\<close>

lemma two_leaves:
  fixes a b L :: nat
  assumes "1 \<le> a" "a \<le> L" "1 \<le> b" "b \<le> L" and "2 ^ (L - a) + 2 ^ (L - b) = (2 ^ L :: nat)"
  shows "a = 1 \<and> b = 1"
proof (rule ccontr)
  assume ne: "\<not> ?thesis"
  have half: "2 ^ (L - 1) + 2 ^ (L - 1) = (2 ^ L :: nat)" using assms by (cases L) simp_all
  have le: "2 ^ (L - x) \<le> (2 ^ (L - 1) :: nat)" if "1 \<le> x" for x using that by (intro power_increasing) simp_all
  have lt: "2 ^ (L - x) < (2 ^ (L - 1) :: nat)" if "1 < x" "x \<le> L" for x using that by (intro power_strict_increasing) simp_all
  from ne assms have "1 < a \<or> 1 < b" by auto
  then show False using le [OF assms(1)] le [OF assms(3)] lt [of a] lt [of b] assms half by linarith
qed

lemma ov_inv_kraft:
  assumes "ov_inv L N 0 bl" and "L \<le> 15" and "\<And>b. b < 16 \<Longrightarrow> unat (bl ! b) = c b"
  shows "(\<Sum>j = 1..15. c j * 2 ^ (15 - j)) = 2 ^ 15"
proof -
  have z: "c b = 0" if "L < b" "b < 16" for b
  proof -
    have "bl ! b = 0" using assms(1) that by (simp add: ov_inv_def)
    then show ?thesis using assms(3) [OF that(2)] by simp
  qed
  have "(\<Sum>j = 1..15. c j * 2 ^ (15 - j)) = (\<Sum>j = 1..L. c j * 2 ^ (15 - j))"
    using assms(2) z by (intro sum.mono_neutral_right) auto
  also have "\<dots> = (\<Sum>j = 1..L. unat (bl ! j) * 2 ^ (L - j) * 2 ^ (15 - L))"
    using assms by (intro sum.cong) (simp_all flip: power_add)
  also have "\<dots> = 2 ^ L * 2 ^ (15 - L)" using assms(1) by (simp add: ov_inv_def flip: sum_distrib_right)
  also have "\<dots> = 2 ^ 15" using assms(2) by (simp flip: power_add)
  finally show ?thesis .
qed

lemma sort_two: "length xs = 2 \<Longrightarrow> sort_leaves xs lo hi = sort xs"
  by (auto simp: sort_leaves_def Let_def numeral_2_eq_2 length_Suc_conv)

lemma leaf_nodes_sort: "leaf_nodes (sort xs) = leaf_nodes xs" "distinct (map pq_node (sort xs)) = distinct (map pq_node xs)"
proof -
  show "leaf_nodes (sort xs) = leaf_nodes xs" by (simp add: leaf_nodes_def)
  have "mset (map pq_node (sort xs)) = mset (map pq_node xs)" by simp
  then show "distinct (map pq_node (sort xs)) = distinct (map pq_node xs)" by (rule mset_eq_imp_distinct_iff)
qed

lemma count_list_card: "count_list xs b = card {i. i < length xs \<and> xs ! i = b}"
  by (simp add: count_list_eq_length_filter length_filter_conv_card eq_commute)

text \<open>The statistics of the leaves are those of the whole tree.\<close>

lemma tree_counts:
  assumes lens: "lens_ok sd tree leaves tree' bl" and dist: "distinct (map pq_node leaves)"
    and sub: "leaf_nodes leaves \<subseteq> {..<elems sd}" and n: "n \<le> elems sd" "elems sd \<le> length tree'"
    and zero: "\<And>m. m < elems sd \<Longrightarrow> m \<notin> leaf_nodes leaves \<Longrightarrow> node_len tree' m = 0"
    and top: "\<And>m. m \<in> leaf_nodes leaves \<Longrightarrow> m < n" and L: "max_length sd \<le> 15"
  shows "counts_for bl (tree_lens tree' n)" and "kraft_sum (tree_lens tree' n) = 2 ^ 15"
proof -
  let ?lens = "tree_lens tree' n"
  have len: "length ?lens = n" and nth: "\<And>m. m < n \<Longrightarrow> ?lens ! m = node_len tree' m"
    using n by (simp_all add: tree_lens_def node_len_def)
  have bl: "unat (bl ! b) = count_list (map (\<lambda>e. node_len tree' (pq_node e)) leaves) b" if "b < 16" for b
    using lens that by (simp add: lens_ok_def)
  have cnt: "unat (bl ! b) = count_list ?lens b" if "1 \<le> b" "b < 16" for b
  proof -
    have leaf: "i \<in> leaf_nodes leaves" if "i < n" "node_len tree' i = b" for i
      using zero [of i] that n(1) \<open>1 \<le> b\<close> by (cases "i \<in> leaf_nodes leaves") auto
    then have "{i. i < length ?lens \<and> ?lens ! i = b} = {v \<in> leaf_nodes leaves. node_len tree' v = b}"
      using top by (auto simp: len nth)
    then have "count_list ?lens b = length (filter (\<lambda>e. node_len tree' (pq_node e) = b) leaves)"
      by (simp add: count_list_card card_nodes_filter [OF dist])
    then show ?thesis using bl [OF that(2)] by (simp add: count_list_eq_length_filter filter_map comp_def eq_commute)
  qed
  have inv: "ov_inv (max_length sd) (length leaves) 0 bl" using lens by (simp add: lens_ok_def)
  have "bl ! b = of_nat (count_list ?lens b)" if "1 \<le> b \<and> b \<le> 15" for b
  proof -
    have "bl ! b = of_nat (unat (bl ! b))" by simp
    then show ?thesis using cnt [of b] that by simp
  qed
  then show "counts_for bl ?lens" using inv by (simp add: counts_for_def ov_inv_def)
  have "kraft_sum ?lens = (\<Sum>j = 1..15. unat (bl ! j) * 2 ^ (15 - j))"
    unfolding kraft_sum_def by (rule sum.cong) (simp_all add: cnt)
  also have "\<dots> = 2 ^ 15" using inv L by (rule ov_inv_kraft) simp
  finally show "kraft_sum ?lens = 2 ^ 15" .
qed

definition tree_built :: "static_tree_desc \<Rightarrow> tree \<Rightarrow> tree \<Rightarrow> int \<Rightarrow> bool" where
  "tree_built sd tree tree' mc \<longleftrightarrow> length tree' = length tree \<and> 0 \<le> mc \<and> mc < int (elems sd)
     \<and> kraft_sum (tree_lens tree' (nat (mc + 1))) = 2 ^ 15
     \<and> (\<forall>m < elems sd. node_len tree' m \<le> max_length sd \<and> code_ok (tree' ! m))
     \<and> (\<forall>m < elems sd. Freq (tree ! m) \<noteq> 0 \<longrightarrow> node_len tree' m \<noteq> 0)
     \<and> (\<forall>m < elems sd. node_len tree' m \<noteq> 0 \<longrightarrow> int m \<le> mc)
     \<and> prefix_code (used_codes tree' (nat (mc + 1))) (\<lambda>m. code_bits (tree' ! m))
     \<and> canonical_codes tree' (nat (mc + 1))"

lemma gen_codes_built:
  assumes lens: "lens_ok sd tree leaves tree' bl" and scan: "scan_ok (elems sd) tree leaves mc"
    and ok: "leaves_ok (elems sd) leaves" and len: "length tree = 2 * elems sd + 1" and L: "max_length sd \<le> 15"
    and zero: "\<And>m. m < elems sd \<Longrightarrow> m \<notin> leaf_nodes leaves \<Longrightarrow> tree' ! m = tree ! m"
    and freq: "\<And>m. m < elems sd \<Longrightarrow> Freq (tree0 ! m) \<noteq> 0 \<Longrightarrow> Freq (tree ! m) \<noteq> 0" and len0: "length tree0 = length tree"
  shows "tree_built sd tree0 (gen_codes tree' mc bl) mc"
    and "\<And>m. m < elems sd \<Longrightarrow> node_len (gen_codes tree' mc bl) m = node_len tree' m"
proof -
  let ?n = "nat (mc + 1)" and ?t = "gen_codes tree' mc bl"
  have dist: "distinct (map pq_node leaves)" and sub: "leaf_nodes leaves \<subseteq> {..<elems sd}" "2 \<le> length leaves"
    using ok by (simp_all add: leaves_ok_def)
  have lv: "leaf_nodes leaves = {n. n < elems sd \<and> Freq (tree ! n) \<noteq> 0}"
    and z: "\<And>m. m < elems sd \<Longrightarrow> Freq (tree ! m) = 0 \<Longrightarrow> Len (tree ! m) = 0"
    and top: "\<And>v. v \<in> leaf_nodes leaves \<Longrightarrow> int v \<le> mc" and mc: "- 1 \<le> mc" "mc < int (elems sd)"
    using scan by (auto simp: scan_ok_def)
  have mc0: "0 \<le> mc"
  proof -
    obtain e where "e \<in> set leaves" using sub(2) by (cases leaves) auto
    then have "pq_node e \<in> leaf_nodes leaves" by (simp add: leaf_nodes_def)
    from top [OF this] show ?thesis by linarith
  qed
  have len': "length tree' = length tree" and nl: "\<And>v. v \<in> leaf_nodes leaves \<Longrightarrow> 1 \<le> node_len tree' v \<and> node_len tree' v \<le> max_length sd"
    using lens by (simp_all add: lens_ok_def)
  have zl: "node_len tree' m = 0" if "m < elems sd" "m \<notin> leaf_nodes leaves" for m
    using zero [OF that] z [OF that(1)] that lv by (simp add: node_len_def)
  have n: "?n \<le> elems sd" "elems sd \<le> length tree'" using mc len len' by simp_all
  note tc = tree_counts [OF lens dist sub(1) n zl _ L]
  have cnt: "counts_for bl (tree_lens tree' ?n)" and kr: "kraft_sum (tree_lens tree' ?n) = 2 ^ 15"
    using tc top by (auto simp: zless_nat_eq_int_zless)
  have all: "node_len tree' m \<le> 15" if "m < elems sd" for m
    using nl [of m] zl [OF that] L by (cases "m \<in> leaf_nodes leaves") auto
  have le15: "\<forall>l \<in> set (tree_lens tree' ?n). l \<le> 15"
  proof
    fix l assume "l \<in> set (tree_lens tree' ?n)"
    then obtain m where "m < ?n" "l = node_len tree' m"
      using n by (auto simp: tree_lens_def node_len_def in_set_conv_nth)
    then show "l \<le> 15" using all n(1) by simp
  qed
  have nn: "?n \<le> length tree'" using n by simp
  have leq: "Len (?t ! m) = Len (tree' ! m)" if "m < elems sd" for m
    using gen_codes_Len [OF cnt le15 nn, of m] that n(2) by simp
  then have nlen: "node_len ?t m = node_len tree' m" if "m < elems sd" for m
    using that by (simp add: node_len_def)
  then show "\<And>m. m < elems sd \<Longrightarrow> node_len ?t m = node_len tree' m" .
  have tl: "tree_lens ?t ?n = tree_lens tree' ?n"
    using n nlen gen_codes_canonical(1) [OF cnt le15 nn] by (intro nth_equalityI) (simp_all add: tree_lens_def node_len_def)
  have uc: "used_codes ?t ?n = used_codes tree' ?n"
    using leq n(1) by (auto simp: used_codes_def)
  have tln: "tree_lens tree' ?n ! m = node_len tree' m" if "m < ?n" for m
    using that n by (simp add: tree_lens_def node_len_def)
  have gc: "?t ! m = (if m < ?n \<and> node_len tree' m \<noteq> 0
      then (tree' ! m)\<lparr>fc := bi_reverse (of_nat (canonical (tree_lens tree' ?n) m)) (node_len tree' m)\<rparr> else tree' ! m)"
    if "m < elems sd" for m
    using gen_codes_canonical(2) [OF cnt le15 nn, of m] that n(2) by (cases "m < ?n") (simp_all add: tln)
  have cok: "code_ok (?t ! m)" if "m < elems sd" for m
  proof (cases "node_len tree' m = 0")
    case True
    then have "m \<notin> leaf_nodes leaves" using nl by fastforce
    then have "Freq (tree' ! m) = 0" "Len (tree' ! m) = 0" using zero that lv z [OF that] by auto
    moreover have "?t ! m = tree' ! m" using gc [OF that] True by simp
    ultimately show ?thesis by (simp add: code_ok_def)
  next
    case False
    then have "m \<in> leaf_nodes leaves" using zl [OF that] by auto
    from top [OF this] have m: "m < ?n" by (simp add: zless_nat_eq_int_zless)
    then have t: "?t ! m = (tree' ! m)\<lparr>fc := bi_reverse (of_nat (canonical (tree_lens tree' ?n) m)) (node_len tree' m)\<rparr>"
      using gc [OF that] False by simp
    have "node_len tree' m \<le> 15" using nl [OF \<open>m \<in> leaf_nodes leaves\<close>] L by simp
    then show ?thesis unfolding t code_ok_def
      using bi_reverse_fits [of "node_len tree' m" "of_nat (canonical (tree_lens tree' ?n) m)"] by (simp add: node_len_def)
  qed
  have pre: "prefix_code (used_codes ?t ?n) (\<lambda>m. code_bits (?t ! m))"
    unfolding uc using gen_codes_prefix_code [OF cnt le15 nn] kr by simp
  have can: "canonical_codes ?t ?n"
    unfolding canonical_codes_def uc tl using gen_codes_bits [OF cnt le15 nn] kr by (simp add: used_codes_def)
  show "tree_built sd tree0 ?t mc"
    unfolding tree_built_def tl
  proof (intro conjI allI impI)
    show "length ?t = length tree0" using gen_codes_canonical(1) [OF cnt le15 nn] len' len0 by simp
    fix m assume m: "m < elems sd"
    show "node_len ?t m \<le> max_length sd" using nlen [OF m] nl zl [OF m] by (cases "m \<in> leaf_nodes leaves") simp_all
    show "node_len ?t m \<noteq> 0" if "Freq (tree0 ! m) \<noteq> 0"
      using nl [of m] nlen [OF m] freq [OF m that] m lv by simp
    show "int m \<le> mc" if "node_len ?t m \<noteq> 0"
      using that nlen [OF m] zl [OF m] top by fastforce
  qed (use mc0 mc kr cok pre can in simp_all)
qed

lemma build_tree_result:
  assumes sd: "desc_ok sd" and len: "length tree = 2 * elems sd + 1"
  shows "\<exists>tree' mc bl. build_tree sd tree ol sl = Some (tree', mc, bl,
      ol + tree_cost sd tree (node_len tree'), sl + tree_static_cost sd tree) \<and> tree_built sd tree tree' mc"
proof -
  define E L where "E = elems sd" and "L = max_length sd"
  have E: "3 \<le> E" "E \<le> 286" "E \<le> 2 ^ L" and L: "1 \<le> L" "L \<le> 15" and x0: "\<And>n. n \<le> 2 \<Longrightarrow> xbits sd n = 0"
    using sd by (simp_all add: desc_ok_def E_def L_def)
  have lenE: "length tree = 2 * E + 1" using len by (simp add: E_def)
  obtain t1 lo hi mc1 where scan: "fold scan_leaf [0..<E] (tree, [], replicate 257 0, replicate 257 0, -1) =
      (t1, leaf_entries tree E, lo, hi, mc1)" "scan_ok E t1 (leaf_entries tree E) mc1" "length t1 = length tree"
      "\<And>n. Freq (t1 ! n) = Freq (tree ! n)" "sort_leaves (leaf_entries tree E) lo hi = sort (leaf_entries tree E)"
    using scan_establishes [OF E(2) lenE] by blast
  obtain t2 xs mc F where force: "force_leaves sd (t1, leaf_entries tree E, mc1, ol, sl) =
      (t2, xs, mc, ol - of_nat (card F), sl - (\<Sum>n \<in> F. stree_len sd n))"
    and f: "scan_ok E t2 xs mc" "2 \<le> length xs" "length t2 = length t1" "F \<subseteq> {0, 1, 2}"
      "leaf_nodes xs = leaf_nodes (leaf_entries tree E) \<union> F" "leaf_nodes (leaf_entries tree E) \<inter> F = {}"
      "F = {} \<Longrightarrow> xs = leaf_entries tree E" "F \<noteq> {} \<Longrightarrow> length xs = 2"
      "\<And>n. Freq (t2 ! n) = (if n \<in> F then 1 else Freq (t1 ! n))"
    using force_leaves_ok [OF scan(2) E(1), of sd ol sl] lenE scan(3) by auto
  define leaves where "leaves = sort xs"
  have sorted: "sort_leaves xs lo hi = leaves"
    using f(7,8) scan(5) sort_two [of xs lo hi] by (cases "F = {}") (auto simp: leaves_def)
  have lv: "leaf_nodes leaves = leaf_nodes xs" "distinct (map pq_node leaves)" "length leaves = length xs"
    using f(1) leaf_nodes_sort [of xs] by (simp_all add: leaves_def scan_ok_def)
  have scan2: "scan_ok E t2 leaves mc" using f(1) lv(2) unfolding scan_ok_def lv(1) by blast
  have sub: "leaf_nodes leaves = {n. n < E \<and> Freq (t2 ! n) \<noteq> 0}" using scan2 by (simp add: scan_ok_def)
  have "length leaves = card (leaf_nodes leaves)" using lv(2) by (metis distinct_card leaf_nodes_def length_map)
  also have "\<dots> \<le> card {..<E}" unfolding sub by (rule card_mono) auto
  finally have NE: "length leaves \<le> E" by simp
  have ok: "leaves_ok E leaves" using lv f(2) NE E sub by (auto simp: leaves_ok_def)
  have len2: "length t2 = 2 * E + 1" using f(3) scan(3) lenE by simp
  obtain t3 li ints ih node where merge: "merge_all sd t2 leaves = (t3, li, ints, ih, node)" by (metis surj_pair)
  note md = merge_all_dads [OF ok [unfolded E_def] len2 [unfolded E_def] merge, folded E_def]
  have node: "node - 1 = E + length leaves - 2" using md(1) by simp
  obtain t4 bl where bitlen: "gen_bitlen sd t3 leaves (node - 1) ol' sl' =
      Some (t4, bl, ol' + leaf_cost sd t3 (node_len t4) leaves, sl' + static_cost sd t3 leaves)"
    and lens: "lens_ok sd t3 leaves t4 bl"
    if "ol' = ol - of_nat (card F)" "sl' = sl - (\<Sum>n \<in> F. stree_len sd n)" for ol' sl'
    using gen_bitlen_ok [of sd leaves t3 "ol - of_nat (card F)" "sl - (\<Sum>n \<in> F. stree_len sd n)", folded E_def L_def]
      ok md(2,5) len2 L NE E(3) node by auto
  have fr3: "Freq (t3 ! n) = Freq (t2 ! n)" if "n < E" for n using md(3) that by simp
  note bitlen = bitlen [OF refl refl] and lens = lens [OF refl refl]
  have one: "node_len t4 v = 1" if "F \<noteq> {}" "v \<in> leaf_nodes leaves" for v
  proof -
    have "length leaves = 2" using f(8) that(1) lv(3) by simp
    then obtain a b where ab: "leaves = [a, b]" by (auto simp: numeral_2_eq_2 length_Suc_conv)
    have l: "1 \<le> node_len t4 v \<and> node_len t4 v \<le> L" if "v \<in> leaf_nodes leaves" for v
      using lens that by (simp add: lens_ok_def L_def)
    have "(\<Sum>b = 1..L. count_list (map (\<lambda>e. node_len t4 (pq_node e)) leaves) b * 2 ^ (L - b)) = 2 ^ L"
    proof -
      have "(\<Sum>b = 1..L. count_list (map (\<lambda>e. node_len t4 (pq_node e)) leaves) b * 2 ^ (L - b)) = (\<Sum>b = 1..L. unat (bl ! b) * 2 ^ (L - b))"
        using lens L by (intro sum.cong) (auto simp: lens_ok_def)
      then show ?thesis using lens by (simp add: lens_ok_def ov_inv_def L_def)
    qed
    moreover have "set (map (\<lambda>e. node_len t4 (pq_node e)) leaves) \<subseteq> {1..L}" using l by (auto simp: leaf_nodes_def)
    ultimately have "(\<Sum>x \<leftarrow> map (\<lambda>e. node_len t4 (pq_node e)) leaves. 2 ^ (L - x)) = (2 ^ L :: nat)"
      using sum_count_weight [of "{1..L}" "map (\<lambda>e. node_len t4 (pq_node e)) leaves" "\<lambda>b. 2 ^ (L - b)"] by simp
    then have "node_len t4 (pq_node a) = 1 \<and> node_len t4 (pq_node b) = 1"
      using l [of "pq_node a"] l [of "pq_node b"] by (intro two_leaves [where L = L]) (simp_all add: ab leaf_nodes_def)
    then show ?thesis using that(2) by (auto simp: ab leaf_nodes_def)
  qed
  have FE: "F \<subseteq> {..<E}" using f(4) E(1) by auto
  have freq2: "Freq (t2 ! n) = (if n \<in> F then 1 else Freq (tree ! n))" for n using f(9) scan(4) by simp
  have Fz: "Freq (tree ! n) = 0" if "n \<in> F" for n
    using f(6) scan(2,4) FE that by (auto simp: scan_ok_def)
  have Fl: "n \<in> leaf_nodes leaves" if "n \<in> F" for n using f(5) lv(1) that by auto
  have Fx: "n \<le> 2" if "n \<in> F" for n using f(4) that by auto
  have sums: "(\<Sum>e \<leftarrow> leaves. ucast (Freq (t3 ! pq_node e)) * g (pq_node e)) = (\<Sum>n < E. ucast (Freq (tree ! n)) * g n) + (\<Sum>n \<in> F. g n)" for g :: "nat \<Rightarrow> u32"
  proof -
    have "(\<Sum>e \<leftarrow> leaves. ucast (Freq (t3 ! pq_node e)) * g (pq_node e)) = (\<Sum>e \<leftarrow> leaves. ucast (Freq (t2 ! pq_node e)) * g (pq_node e))"
    proof (intro arg_cong [of _ _ sum_list] map_cong refl)
      fix e assume "e \<in> set leaves"
      then have "pq_node e \<in> leaf_nodes leaves" by (simp add: leaf_nodes_def)
      then have "pq_node e < E" by (simp add: sub)
      then show "ucast (Freq (t3 ! pq_node e)) * g (pq_node e) = ucast (Freq (t2 ! pq_node e)) * g (pq_node e)" by (simp add: fr3)
    qed
    also have "\<dots> = (\<Sum>n < E. ucast (Freq (t2 ! n)) * g n)" by (rule sum_leaves [OF lv(2) sub])
    also have "\<dots> = (\<Sum>n < E. ucast (Freq (tree ! n)) * g n) + (\<Sum>n \<in> F. g n)" by (rule forced_sum [OF FE freq2 Fz])
    finally show ?thesis .
  qed
  have "(\<Sum>n \<in> F. of_nat (node_len t4 n + xbits sd n)) = (of_nat (card F) :: u32)"
    using one Fl x0 [OF Fx] by (simp cong: sum.cong) (cases "F = {}"; simp)
  then have cost: "leaf_cost sd t3 (node_len t4) leaves = tree_cost sd tree (node_len t4) + of_nat (card F)"
    unfolding leaf_cost_def tree_cost_def E_def [symmetric]
    using sums [of "\<lambda>n. of_nat (node_len t4 n + xbits sd n)"] by (simp only:)
  have scost: "static_cost sd t3 leaves = tree_static_cost sd tree + (\<Sum>n \<in> F. stree_len sd n)"
  proof (cases "static_tree sd")
    case (Some st)
    have "(\<Sum>n \<in> F. ucast (Len (st ! n)) + of_nat (xbits sd n)) = (\<Sum>n \<in> F. ucast (Len (st ! n)) :: u32)"
      using x0 [OF Fx] by (intro sum.cong) simp_all
    then show ?thesis
      using sums [of "\<lambda>n. ucast (Len (st ! n)) + of_nat (xbits sd n)"]
      by (simp add: static_cost_def tree_static_cost_def stree_len_def Some flip: E_def)
  qed (simp add: static_cost_def tree_static_cost_def stree_len_def)
  have zero: "t4 ! m = t2 ! m" if "m < E" "m \<notin> leaf_nodes leaves" for m
    using lens md(4) that by (simp add: lens_ok_def E_def)
  have lens2: "lens_ok sd t2 leaves t4 bl" using lens md(2-4) unfolding lens_ok_def E_def by auto
  note gb = gen_codes_built [of sd t2 leaves t4 bl mc tree, OF lens2 scan2 [unfolded E_def] ok [unfolded E_def] len2 [unfolded E_def]
      L(2) [unfolded L_def], OF zero [unfolded E_def]]
  have built: "tree_built sd tree (gen_codes t4 mc bl) mc"
    and nl: "\<And>m. m < E \<Longrightarrow> node_len (gen_codes t4 mc bl) m = node_len t4 m"
    using gb freq2 len2 lenE by (auto simp: E_def)
  have "tree_cost sd tree (node_len (gen_codes t4 mc bl)) = tree_cost sd tree (node_len t4)"
    unfolding tree_cost_def by (rule sum.cong) (simp_all add: nl E_def)
  moreover have "build_tree sd tree ol sl = Some (gen_codes t4 mc bl, mc, bl,
      ol + tree_cost sd tree (node_len t4), sl + tree_static_cost sd tree)"
    unfolding build_tree_def E_def [symmetric]
    by (simp only: scan(1) force sorted merge bitlen Let_def prod.case option.case) (simp add: cost scost)
  ultimately show ?thesis using built by simp
qed

section \<open>Properties\<close>

text \<open>
  C28: For every frequency table build_tree returns: no index leaves its arrays and the loops end. The lengths it
  assigns satisfy the Kraft equation, none exceeds the limit of the tree (15, or 7 for the bit length tree), every symbol with
  a frequency has a code, the codes fit their lengths and no code is a prefix of another one.
\<close>

theorem build_tree_complete_code:
  assumes "sd \<in> {static_l_desc, static_d_desc, static_bl_desc}" and "length tree = 2 * elems sd + 1"
  shows "\<exists>tree' mc bl ol' sl'. build_tree sd tree ol sl = Some (tree', mc, bl, ol', sl')
    \<and> 0 \<le> mc \<and> mc < int (elems sd)
    \<and> kraft_sum (tree_lens tree' (nat (mc + 1))) = 2 ^ 15
    \<and> (\<forall>m < elems sd. unat (Len (tree' ! m)) \<le> max_length sd
        \<and> (Freq (tree ! m) \<noteq> 0 \<longrightarrow> Len (tree' ! m) \<noteq> 0) \<and> (Len (tree' ! m) \<noteq> 0 \<longrightarrow> int m \<le> mc)
        \<and> take_bit (unat (Len (tree' ! m))) (Code (tree' ! m)) = Code (tree' ! m))
    \<and> (\<forall>a b. a \<in> used_codes tree' (nat (mc + 1)) \<and> b \<in> used_codes tree' (nat (mc + 1))
        \<and> prefix (code_bits (tree' ! a)) (code_bits (tree' ! b)) \<longrightarrow> a = b)"
proof -
  have "desc_ok sd" using assms(1) descs_ok by auto
  from build_tree_result [OF this assms(2), of ol sl] obtain tree' mc bl where
    b: "build_tree sd tree ol sl = Some (tree', mc, bl, ol + tree_cost sd tree (node_len tree'), sl + tree_static_cost sd tree)"
    and t: "tree_built sd tree tree' mc" by blast
  have lens: "unat (Len (tree' ! m)) \<le> max_length sd \<and> (Freq (tree ! m) \<noteq> 0 \<longrightarrow> Len (tree' ! m) \<noteq> 0)
      \<and> (Len (tree' ! m) \<noteq> 0 \<longrightarrow> int m \<le> mc) \<and> take_bit (unat (Len (tree' ! m))) (Code (tree' ! m)) = Code (tree' ! m)"
    if "m < elems sd" for m
    using t that by (auto simp: tree_built_def node_len_def code_ok_def unat_eq_0)
  have "a = b" if "a \<in> used_codes tree' (nat (mc + 1))" "b \<in> used_codes tree' (nat (mc + 1))"
    "prefix (code_bits (tree' ! a)) (code_bits (tree' ! b))" for a b
    using prefix_code.prefix_free [of "used_codes tree' (nat (mc + 1))" "\<lambda>m. code_bits (tree' ! m)" a b] t that
    by (simp add: tree_built_def)
  with b t lens show ?thesis by (simp add: tree_built_def)
qed

text \<open>
  C29: build_tree adds to opt_len exactly the number of bits that the symbols take with the new tree, extra bits
  included, and to static_len the number they take with the static tree: the correction for the symbols
  it has to force cancels their cost, and the repair of too long codes keeps the count exact.
\<close>

theorem build_tree_opt_len:
  assumes "sd \<in> {static_l_desc, static_d_desc, static_bl_desc}" and "length tree = 2 * elems sd + 1"
  shows "\<exists>tree' mc bl. build_tree sd tree ol sl = Some (tree', mc, bl,
      ol + (\<Sum>n < elems sd. ucast (Freq (tree ! n)) * of_nat (unat (Len (tree' ! n)) + xbits sd n)),
      sl + tree_static_cost sd tree)"
proof -
  have "desc_ok sd" using assms(1) descs_ok by auto
  from build_tree_result [OF this assms(2), of ol sl] show ?thesis by (auto simp: tree_cost_def node_len_def)
qed

theorem build_tree_complete_code_witness:
  "\<exists>tree' mc bl ol' sl'. build_tree static_d_desc (replicate 61 \<lparr>fc = 3, dl = 0\<rparr>) 0 0 = Some (tree', mc, bl, ol', sl')
    \<and> kraft_sum (tree_lens tree' (nat (mc + 1))) = 2 ^ 15"
proof -
  have "length (replicate 61 \<lparr>fc = 3, dl = 0\<rparr>) = 2 * elems static_d_desc + 1"
    by (simp add: static_d_desc_def D_CODES_def)
  from build_tree_complete_code [OF _ this, of 0 0] show ?thesis by blast
qed

theorem build_tree_opt_len_witness:
  "\<exists>tree' mc bl. build_tree static_bl_desc (replicate 39 \<lparr>fc = 2, dl = 7\<rparr>) 5 0 = Some (tree', mc, bl,
      5 + (\<Sum>n < 19. ucast (Freq (replicate 39 \<lparr>fc = 2, dl = 7\<rparr> ! n)) * of_nat (unat (Len (tree' ! n)) + xbits static_bl_desc n)), 0)"
proof -
  have "length (replicate 39 \<lparr>fc = 2, dl = 7\<rparr>) = 2 * elems static_bl_desc + 1" and e: "elems static_bl_desc = 19"
    by (simp_all add: static_bl_desc_def BL_CODES_def)
  moreover have "tree_static_cost static_bl_desc t = 0" for t by (simp add: tree_static_cost_def static_bl_desc_def)
  ultimately show ?thesis
    using build_tree_opt_len [of static_bl_desc "replicate 39 \<lparr>fc = 2, dl = 7\<rparr>" 5 0] by auto
qed

end
