(* ===== verification/Trees.thy ===== *)
theory Trees
  imports Trees_Complete
begin

text \<open>
  The block encoder of trees.c on the compressor state: the symbol buffer and the frequency counts (deflate_p.h), the run-length
  coding of the trees, the header of a dynamic block, stored blocks and the choice of the block type. The symbol buffer, which
  the C code overlays on the pending buffer, is a buffer of its own here.
\<close>

section \<open>State\<close>

record tree_state = bit_state +
  sym_buf :: bytes
  sym_next :: nat
  sym_end :: nat
  opt_len :: u32
  static_len :: u32
  l_max_code :: int
  d_max_code :: int
  bl_max_code :: int
  bl_count :: "u16 list"
  dyn_ltree :: tree
  dyn_dtree :: tree
  bl_tree :: tree
  level :: int
  strategy :: int
  data_type :: int

definition Z_BINARY :: int where "Z_BINARY = 0"
definition Z_TEXT :: int where "Z_TEXT = 1"
definition Z_UNKNOWN :: int where "Z_UNKNOWN = 2"
definition Z_FIXED :: int where "Z_FIXED = 4"

definition inc_freq :: "nat \<Rightarrow> u16 \<Rightarrow> tree \<Rightarrow> tree" where
  "inc_freq n k tree = tree[n := (tree ! n)\<lparr>fc := fc (tree ! n) + k\<rparr>]"

definition zero_freqs :: "nat \<Rightarrow> tree \<Rightarrow> tree" where
  "zero_freqs n tree = fold (\<lambda>i tree. tree[i := (tree ! i)\<lparr>fc := 0\<rparr>]) [0..<n] tree"

definition init_block :: "'a tree_state_scheme \<Rightarrow> 'a tree_state_scheme" where
  "init_block s =
    (let lt = zero_freqs L_CODES (dyn_ltree s)
     in s\<lparr>dyn_ltree := lt[END_BLOCK := (lt ! END_BLOCK)\<lparr>fc := 1\<rparr>],
          dyn_dtree := zero_freqs D_CODES (dyn_dtree s), bl_tree := zero_freqs BL_CODES (bl_tree s),
          opt_len := 0, static_len := 0, sym_next := 0\<rparr>)"

definition zng_tr_init :: "'a tree_state_scheme \<Rightarrow> 'a tree_state_scheme" where
  "zng_tr_init s = init_block (s\<lparr>bi_buf := 0, bi_valid := 0, bi_used := 0\<rparr>)"

section \<open>Tallying symbols (deflate\_p.h)\<close>

definition zng_tr_tally_lit :: "u8 \<Rightarrow> 'a tree_state_scheme \<Rightarrow> 'a tree_state_scheme \<times> bool" where
  "zng_tr_tally_lit c s =
    (let s = s\<lparr>sym_buf := zng_memwrite_4 (sym_buf s) (sym_next s) (push_bit 16 (ucast c)), sym_next := sym_next s + 3\<rparr>;
         s = s\<lparr>dyn_ltree := inc_freq (unat c) 1 (dyn_ltree s)\<rparr>
     in (s, sym_next s = sym_end s))"

definition zng_tr_tally_dist :: "u32 \<Rightarrow> u32 \<Rightarrow> 'a tree_state_scheme \<Rightarrow> 'a tree_state_scheme \<times> bool" where
  "zng_tr_tally_dist dist len s =
    (let s = s\<lparr>sym_buf := zng_memwrite_4 (sym_buf s) (sym_next s) (dist OR push_bit 16 len), sym_next := sym_next s + 3\<rparr>;
         dist = dist - 1;
         s = s\<lparr>dyn_ltree := inc_freq (zng_length_code ! unat len + LITERALS + 1) 1 (dyn_ltree s)\<rparr>;
         s = s\<lparr>dyn_dtree := inc_freq (d_code (unat dist)) 1 (dyn_dtree s)\<rparr>
     in (s, sym_next s = sym_end s))"

section \<open>Run-length coding of the trees\<close>

text \<open>
  scan_tree and send_tree run through the lengths with the same control flow. \<open>run_step\<close> is one iteration of it: it takes
  the length of the next element and returns the run that ends here, if one does. A run is a number of single
  lengths, a repetition (with a flag that tells whether the length has to be sent first), or a short or
  long run of zeros.
\<close>

datatype run = Copies nat nat | Repeat bool nat nat | Zeros_3_10 nat | Zeros_11_138 nat

record run_state =
  prevlen :: int
  nextlen :: nat
  run_count :: nat
  max_count :: nat
  min_count :: nat

definition ended_run :: "nat \<Rightarrow> nat \<Rightarrow> run_state \<Rightarrow> run" where
  "ended_run curlen cnt st =
     (if cnt < min_count st then Copies curlen cnt
      else if curlen \<noteq> 0 then Repeat (int curlen \<noteq> prevlen st) curlen cnt
      else if cnt \<le> 10 then Zeros_3_10 cnt
      else Zeros_11_138 cnt)"

definition run_step :: "nat \<Rightarrow> run_state \<Rightarrow> run_state \<times> run option" where
  "run_step next_len st =
    (let curlen = nextlen st; cnt = run_count st + 1 in
     if cnt < max_count st \<and> curlen = next_len
     then (st\<lparr>nextlen := next_len, run_count := cnt\<rparr>, None)
     else (\<lparr>prevlen = int curlen, nextlen = next_len, run_count = 0,
            max_count = (if next_len = 0 then 138 else if curlen = next_len then 6 else 7),
            min_count = (if next_len = 0 then 3 else if curlen = next_len then 3 else 4)\<rparr>,
           Some (ended_run curlen cnt st)))"

definition run_init :: "nat \<Rightarrow> run_state" where
  "run_init len = \<lparr>prevlen = -1, nextlen = len, run_count = 0,
     max_count = (if len = 0 then 138 else 7), min_count = (if len = 0 then 3 else 4)\<rparr>"

definition run_loop :: "(run \<Rightarrow> 's \<Rightarrow> 's) \<Rightarrow> tree \<Rightarrow> int \<Rightarrow> 's \<Rightarrow> 's" where
  "run_loop f tree max_code s =
     snd (fold (\<lambda>n (st, s). case run_step (unat (Len (tree ! (n + 1)))) st of
         (st, None) \<Rightarrow> (st, s)
       | (st, Some r) \<Rightarrow> (st, f r s))
       [0..<nat (max_code + 1)] (run_init (unat (Len (tree ! 0))), s))"

definition scan_run :: "run \<Rightarrow> tree \<Rightarrow> tree" where
  "scan_run r bl = (case r of
     Copies len cnt \<Rightarrow> inc_freq len (of_nat cnt) bl
   | Repeat first len cnt \<Rightarrow> inc_freq REP_3_6 1 (if first then inc_freq len 1 bl else bl)
   | Zeros_3_10 cnt \<Rightarrow> inc_freq REPZ_3_10 1 bl
   | Zeros_11_138 cnt \<Rightarrow> inc_freq REPZ_11_138 1 bl)"

text \<open>The guard after the last element is part of the result.\<close>

definition set_guard :: "tree \<Rightarrow> int \<Rightarrow> tree" where
  "set_guard tree max_code = tree[nat (max_code + 1) := (tree ! nat (max_code + 1))\<lparr>dl := 0xffff\<rparr>]"

definition scan_tree :: "tree \<Rightarrow> int \<Rightarrow> tree \<Rightarrow> tree \<times> tree" where
  "scan_tree tree max_code bl = (let tree = set_guard tree max_code in (tree, run_loop scan_run tree max_code bl))"

definition send_run :: "tree \<Rightarrow> run \<Rightarrow> 'a bit_state_scheme \<Rightarrow> 'a bit_state_scheme" where
  "send_run bl r s = (case r of
     Copies len cnt \<Rightarrow> (send_code len bl ^^ cnt) s
   | Repeat first len cnt \<Rightarrow>
       (let (s, cnt) = (if first then (send_code len bl s, cnt - 1) else (s, cnt))
        in send_bits (of_nat (cnt - 3)) 2 (send_code REP_3_6 bl s))
   | Zeros_3_10 cnt \<Rightarrow> send_bits (of_nat (cnt - 3)) 3 (send_code REPZ_3_10 bl s)
   | Zeros_11_138 cnt \<Rightarrow> send_bits (of_nat (cnt - 11)) 7 (send_code REPZ_11_138 bl s))"

definition send_tree :: "tree \<Rightarrow> tree \<Rightarrow> int \<Rightarrow> 'a bit_state_scheme \<Rightarrow> 'a bit_state_scheme" where
  "send_tree bl tree max_code s = run_loop (send_run bl) tree max_code s"

section \<open>Block headers and blocks\<close>

definition build_l_tree :: "'a tree_state_scheme \<Rightarrow> 'a tree_state_scheme option" where
  "build_l_tree s = (case build_tree static_l_desc (dyn_ltree s) (opt_len s) (static_len s) of
     None \<Rightarrow> None
   | Some (tree, mc, bl, ol, sl) \<Rightarrow>
       Some (s\<lparr>dyn_ltree := tree, l_max_code := mc, bl_count := bl, opt_len := ol, static_len := sl\<rparr>))"

definition build_d_tree :: "'a tree_state_scheme \<Rightarrow> 'a tree_state_scheme option" where
  "build_d_tree s = (case build_tree static_d_desc (dyn_dtree s) (opt_len s) (static_len s) of
     None \<Rightarrow> None
   | Some (tree, mc, bl, ol, sl) \<Rightarrow>
       Some (s\<lparr>dyn_dtree := tree, d_max_code := mc, bl_count := bl, opt_len := ol, static_len := sl\<rparr>))"

fun last_blindex :: "tree \<Rightarrow> nat \<Rightarrow> nat" where
  "last_blindex bl i = (if i < 3 then i else if Len (bl ! (bl_order ! i)) \<noteq> 0 then i else last_blindex bl (i - 1))"

definition build_bl_tree :: "'a tree_state_scheme \<Rightarrow> ('a tree_state_scheme \<times> nat) option" where
  "build_bl_tree s =
    (let (lt, bl) = scan_tree (dyn_ltree s) (l_max_code s) (bl_tree s);
         (dt, bl) = scan_tree (dyn_dtree s) (d_max_code s) bl
     in case build_tree static_bl_desc bl (opt_len s) (static_len s) of
          None \<Rightarrow> None
        | Some (bl, mc, cnt, ol, sl) \<Rightarrow>
            let max_blindex = last_blindex bl (BL_CODES - 1)
            in Some (s\<lparr>dyn_ltree := lt, dyn_dtree := dt, bl_tree := bl, bl_max_code := mc, bl_count := cnt,
                 opt_len := ol + (3 * (of_nat max_blindex + 1) + 5 + 5 + 4), static_len := sl\<rparr>, max_blindex))"

definition send_all_trees :: "int \<Rightarrow> int \<Rightarrow> nat \<Rightarrow> 'a tree_state_scheme \<Rightarrow> 'a tree_state_scheme" where
  "send_all_trees lcodes dcodes blcodes s =
    (let s = send_bits (of_int (lcodes - 257)) 5 s;
         s = send_bits (of_int (dcodes - 1)) 5 s;
         s = send_bits (of_int (int blcodes - 4)) 4 s;
         s = fold (\<lambda>rank s. send_bits (ucast (Len (bl_tree s ! (bl_order ! rank)))) 3 s) [0..<blcodes] s;
         s = send_tree (bl_tree s) (dyn_ltree s) (lcodes - 1) s
     in send_tree (bl_tree s) (dyn_dtree s) (dcodes - 1) s)"

text \<open>The lengths are cut to 16 bits; \<open>buf\<close> is the input block.\<close>

definition zng_tr_stored_block :: "bytes \<Rightarrow> u32 \<Rightarrow> bool \<Rightarrow> 'a bit_state_scheme \<Rightarrow> 'a bit_state_scheme" where
  "zng_tr_stored_block buf stored_len is_last s =
    (let s = zng_tr_emit_align (zng_tr_emit_tree STORED_BLOCK is_last s);
         s = put_short (ucast (NOT stored_len)) (put_short (ucast stored_len) s)
     in s\<lparr>pending_buf := pending_buf s @ take (unat stored_len) buf\<rparr>)"

definition zng_tr_align :: "'a bit_state_scheme \<Rightarrow> 'a bit_state_scheme" where
  "zng_tr_align s = zng_tr_flush_bits (zng_tr_emit_end_block static_ltree False (zng_tr_emit_tree STATIC_TREES False s))"

definition compress_block :: "tree \<Rightarrow> tree \<Rightarrow> 'a tree_state_scheme \<Rightarrow> 'a tree_state_scheme" where
  "compress_block ltree dtree s =
     zng_emit_end_block ltree (compress_loop ltree dtree (sym_buf s) (sym_next s) 0 s)"

definition detect_data_type :: "tree \<Rightarrow> int" where
  "detect_data_type ltree =
    (if \<exists>n \<in> set [0..<32]. bit (0xf3ffc07f :: u64) n \<and> Freq (ltree ! n) \<noteq> 0 then Z_BINARY
     else if Freq (ltree ! 9) \<noteq> 0 \<or> Freq (ltree ! 10) \<noteq> 0 \<or> Freq (ltree ! 13) \<noteq> 0 then Z_TEXT
     else if \<exists>n \<in> set [32..<LITERALS]. Freq (ltree ! n) \<noteq> 0 then Z_TEXT
     else Z_BINARY)"

text \<open>
  The first half of zng_tr_flush_block: build the trees and compute the lengths of the block in bytes with
  the best and with the static trees.
\<close>

definition block_lengths :: "u32 \<Rightarrow> 'a tree_state_scheme \<Rightarrow> ('a tree_state_scheme \<times> u32 \<times> u32 \<times> nat) option" where
  "block_lengths stored_len s =
    (if sym_next s = 0 then Some (s\<lparr>static_len := 7\<rparr>, 0, 0, 0)
     else if level s > 0
     then let s = (if data_type s = Z_UNKNOWN then s\<lparr>data_type := detect_data_type (dyn_ltree s)\<rparr> else s)
       in case Option.bind (build_l_tree s) build_d_tree of
            None \<Rightarrow> None
          | Some s \<Rightarrow> (case build_bl_tree s of
              None \<Rightarrow> None
            | Some (s, max_blindex) \<Rightarrow>
                let opt_lenb = drop_bit 3 (opt_len s + 3 + 7); static_lenb = drop_bit 3 (static_len s + 3 + 7)
                in Some (s, if static_lenb \<le> opt_lenb \<or> strategy s = Z_FIXED then static_lenb else opt_lenb,
                     static_lenb, max_blindex))
     else Some (s, stored_len + 5, stored_len + 5, 0))"

definition zng_tr_flush_block :: "bytes option \<Rightarrow> u32 \<Rightarrow> bool \<Rightarrow> 'a tree_state_scheme \<Rightarrow> 'a tree_state_scheme option" where
  "zng_tr_flush_block buf stored_len is_last s =
    (case block_lengths stored_len s of
       None \<Rightarrow> None
     | Some (s, opt_lenb, static_lenb, max_blindex) \<Rightarrow>
         let s = (case (stored_len + 4 \<le> opt_lenb, buf) of
               (True, Some data) \<Rightarrow> zng_tr_stored_block data stored_len is_last s
             | _ \<Rightarrow>
                 if static_lenb = opt_lenb
                 then compress_block static_ltree static_dtree (zng_tr_emit_tree STATIC_TREES is_last s)
                 else let s = zng_tr_emit_tree DYN_TREES is_last s;
                          s = send_all_trees (l_max_code s + 1) (d_max_code s + 1) (max_blindex + 1) s
                      in compress_block (dyn_ltree s) (dyn_dtree s) s);
             s = init_block s
         in Some (if is_last then zng_tr_emit_align s else s))"

section \<open>The symbols read back are the ones tallied\<close>

lemma memwrite_nth:
  assumes "pos + 4 \<le> length buf"
  shows "zng_memwrite_4 buf pos v ! i = (if pos \<le> i \<and> i < pos + 4 then ucast (drop_bit (8 * (i - pos)) v) else buf ! i)"
    and "length (zng_memwrite_4 buf pos v) = length buf"
proof -
  have l: "length (take pos buf) = pos" using assms by simp
  show "length (zng_memwrite_4 buf pos v) = length buf" using assms by (simp add: zng_memwrite_4_def)
  consider "i < pos" | "pos \<le> i" "i < pos + 4" | "pos + 4 \<le> i" by linarith
  then show "zng_memwrite_4 buf pos v ! i = (if pos \<le> i \<and> i < pos + 4 then ucast (drop_bit (8 * (i - pos)) v) else buf ! i)"
  proof cases
    case 1
    then show ?thesis using assms by (simp add: zng_memwrite_4_def nth_append l)
  next
    case 2
    then have "i - pos < 4" by simp
    with 2 assms show ?thesis by (simp add: zng_memwrite_4_def nth_append l le_bytes_def)
  next
    case 3
    then have "\<not> i < pos" "\<not> i < pos + 4" "\<not> i - pos < 4" "pos + 4 + (i - pos - 4) = i" by simp_all
    then show ?thesis using assms by (auto simp: zng_memwrite_4_def nth_append l)
  qed
qed

lemma sym_at_write:
  assumes "pos + 4 \<le> length buf"
  shows "sym_at (zng_memwrite_4 buf pos v) pos = (unat v mod 2 ^ 16, unat v div 2 ^ 16 mod 256)"
    and "i + 3 \<le> pos \<Longrightarrow> sym_at (zng_memwrite_4 buf pos v) i = sym_at buf i"
proof -
  have u: "unat (ucast w :: u8) = unat w mod 256" for w :: u32
    by (simp add: unsigned_ucast_eq take_bit_eq_mod)
  have "unat v mod 256 + 256 * (unat v div 256 mod 256) = unat v mod (256 * 256)"
    using mod_mult2_eq [of "unat v" 256 256] by simp
  then show "sym_at (zng_memwrite_4 buf pos v) pos = (unat v mod 2 ^ 16, unat v div 2 ^ 16 mod 256)"
    by (simp add: sym_at_def memwrite_nth [OF assms] u unat_drop_bit_div)
  show "i + 3 \<le> pos \<Longrightarrow> sym_at (zng_memwrite_4 buf pos v) i = sym_at buf i"
    by (simp add: sym_at_def memwrite_nth [OF assms])
qed

lemma syms_write:
  assumes "3 * n + 4 \<le> length buf" and "dist < 2 ^ 16" and "lc < 256" and v: "unat v = dist + 2 ^ 16 * lc"
  shows "syms (zng_memwrite_4 buf (3 * n) v) (Suc n) = syms buf n @ [(dist, lc)]"
proof -
  have "sym_at (zng_memwrite_4 buf (3 * n) v) (3 * n) = (dist, lc)"
    using sym_at_write(1) [OF assms(1), of v] assms(2,3) by (simp add: v)
  moreover have "sym_at (zng_memwrite_4 buf (3 * n) v) (3 * i) = sym_at buf (3 * i)" if "i < n" for i
    using that by (intro sym_at_write(2) assms(1)) simp
  ultimately show ?thesis by (simp add: syms_def)
qed

text \<open>The tallied symbols of a state; a frequency counter counts the codes of the tallied symbols modulo its width.\<close>

definition tallied :: "'a tree_state_scheme \<Rightarrow> (nat \<times> nat) list" where
  "tallied s = syms (sym_buf s) (sym_next s div 3)"

definition lit_code :: "nat \<times> nat \<Rightarrow> nat" where
  "lit_code sy = (case sy of (dist, lc) \<Rightarrow> if dist = 0 then lc else zng_length_code ! lc + LITERALS + 1)"

definition dist_codes :: "(nat \<times> nat) list \<Rightarrow> nat list" where
  "dist_codes ss = map (\<lambda>(dist, lc). d_code (dist - 1)) (filter (\<lambda>(dist, lc). dist \<noteq> 0) ss)"

definition tally_inv :: "'a tree_state_scheme \<Rightarrow> bool" where
  "tally_inv s \<longleftrightarrow> 3 dvd sym_next s \<and> 3 dvd sym_end s \<and> sym_next s \<le> sym_end s + 3 \<and> sym_end s + 4 \<le> length (sym_buf s)
     \<and> length (dyn_ltree s) = 2 * L_CODES + 1 \<and> length (dyn_dtree s) = 2 * D_CODES + 1 \<and> length (bl_tree s) = 2 * BL_CODES + 1
     \<and> (\<forall>n < L_CODES. Freq (dyn_ltree s ! n) = of_nat (count_list (END_BLOCK # map lit_code (tallied s)) n))
     \<and> (\<forall>n < D_CODES. Freq (dyn_dtree s ! n) = of_nat (count_list (dist_codes (tallied s)) n))
     \<and> (\<forall>n < BL_CODES. Freq (bl_tree s ! n) = 0)
     \<and> syms_ok (tallied s)"

lemma inc_freq_nth:
  "n < length tree \<Longrightarrow> inc_freq n k tree ! i = (if i = n then (tree ! n)\<lparr>fc := fc (tree ! n) + k\<rparr> else tree ! i)"
  "length (inc_freq n k tree) = length tree"
  by (simp_all add: inc_freq_def nth_list_update)

lemma inc_freq_count:
  assumes "n < m" and "m \<le> length tree" and "\<forall>i < m. Freq (tree ! i) = of_nat (count_list xs i)"
  shows "\<forall>i < m. Freq (inc_freq n 1 tree ! i) = of_nat (count_list (xs @ [n]) i)"
  using assms by (auto simp: inc_freq_nth)

lemma tally_lit_ok:
  assumes inv: "tally_inv s" and room: "sym_next s \<le> sym_end s"
  shows "tallied (fst (zng_tr_tally_lit c s)) = tallied s @ [(0, unat c)]"
    and "tally_inv (fst (zng_tr_tally_lit c s))"
    and "snd (zng_tr_tally_lit c s) \<longleftrightarrow> sym_next (fst (zng_tr_tally_lit c s)) = sym_end s"
proof -
  let ?s = "fst (zng_tr_tally_lit c s)"
  obtain n where n: "sym_next s = 3 * n" using inv by (auto simp: tally_inv_def)
  obtain m where m: "sym_end s = 3 * m" using inv by (auto simp: tally_inv_def)
  have buf: "3 * n + 4 \<le> length (sym_buf s)" "sym_end s + 4 \<le> length (sym_buf s)" using inv room n m by (simp_all add: tally_inv_def)
  have "unat c < 2 ^ 32" by (rule order.strict_trans2 [OF unat_lt_256]) simp
  then have "unat (ucast c :: u32) = unat c" by (simp add: unsigned_ucast_eq take_bit_nat_eq_self)
  then have v: "unat (push_bit 16 (ucast c) :: u32) = 0 + 2 ^ 16 * unat c"
    using unat_or_push_bit [of "0 :: u32" 16 "ucast c" 8] by simp
  have f: "sym_buf ?s = zng_memwrite_4 (sym_buf s) (3 * n) (push_bit 16 (ucast c))" "sym_next ?s = 3 * Suc n"
    "sym_end ?s = sym_end s" "dyn_ltree ?s = inc_freq (unat c) 1 (dyn_ltree s)" "dyn_dtree ?s = dyn_dtree s" "bl_tree ?s = bl_tree s"
    by (simp_all add: zng_tr_tally_lit_def Let_def n)
  have t: "tallied s = syms (sym_buf s) n" by (simp add: tallied_def n)
  show tal: "tallied ?s = tallied s @ [(0, unat c)]"
    unfolding tallied_def f(1,2) n using syms_write [OF buf(1) _ _ v] by simp
  show "snd (zng_tr_tally_lit c s) \<longleftrightarrow> sym_next ?s = sym_end s" by (simp add: zng_tr_tally_lit_def Let_def)
  have c: "unat c < L_CODES" by (simp add: L_CODES_def LITERALS_def LENGTH_CODES_def order.strict_trans2 [OF unat_lt_256])
  have "\<forall>i < L_CODES. Freq (inc_freq (unat c) 1 (dyn_ltree s) ! i)
      = of_nat (count_list ((END_BLOCK # map lit_code (tallied s)) @ [unat c]) i)"
    using inv c by (intro inc_freq_count) (simp_all add: tally_inv_def)
  moreover have "dist_codes (tallied s @ [(0, unat c)]) = dist_codes (tallied s)" by (simp add: dist_codes_def)
  ultimately show "tally_inv ?s"
    unfolding tally_inv_def tal f using inv room n m memwrite_nth(2) [OF buf(1)]
    by (simp add: tally_inv_def inc_freq_nth lit_code_def syms_ok_def)
qed

lemma tally_dist_ok:
  assumes inv: "tally_inv s" and room: "sym_next s \<le> sym_end s"
    and dist: "1 \<le> unat dist" "unat dist \<le> 32768" and len: "unat len < 256"
  shows "tallied (fst (zng_tr_tally_dist dist len s)) = tallied s @ [(unat dist, unat len)]"
    and "tally_inv (fst (zng_tr_tally_dist dist len s))"
    and "snd (zng_tr_tally_dist dist len s) \<longleftrightarrow> sym_next (fst (zng_tr_tally_dist dist len s)) = sym_end s"
proof -
  let ?s = "fst (zng_tr_tally_dist dist len s)"
  obtain n where n: "sym_next s = 3 * n" using inv by (auto simp: tally_inv_def)
  obtain m where m: "sym_end s = 3 * m" using inv by (auto simp: tally_inv_def)
  have buf: "3 * n + 4 \<le> length (sym_buf s)" "sym_end s + 4 \<le> length (sym_buf s)" using inv room n m by (simp_all add: tally_inv_def)
  have v: "unat (dist OR push_bit 16 len) = unat dist + 2 ^ 16 * unat len"
    using dist len by (intro unat_or_push_bit [where n = 8]) simp_all
  have ud: "unat (dist - 1) = unat dist - 1" using dist by (intro unat_minus_one) auto
  define lcode where "lcode = zng_length_code ! unat len + LITERALS + 1"
  define dcode where "dcode = d_code (unat dist - 1)"
  have f: "sym_buf ?s = zng_memwrite_4 (sym_buf s) (3 * n) (dist OR push_bit 16 len)" "sym_next ?s = 3 * Suc n"
    "sym_end ?s = sym_end s" "dyn_ltree ?s = inc_freq lcode 1 (dyn_ltree s)" "dyn_dtree ?s = inc_freq dcode 1 (dyn_dtree s)" "bl_tree ?s = bl_tree s"
    by (simp_all add: zng_tr_tally_dist_def Let_def n lcode_def dcode_def ud)
  show tal: "tallied ?s = tallied s @ [(unat dist, unat len)]"
    unfolding tallied_def f(1,2) n using syms_write [OF buf(1) _ len v] dist by simp
  show "snd (zng_tr_tally_dist dist len s) \<longleftrightarrow> sym_next ?s = sym_end s" by (simp add: zng_tr_tally_dist_def Let_def)
  have lc: "lcode < L_CODES" using length_code_base [OF len] by (simp add: lcode_def L_CODES_def LENGTH_CODES_def)
  have dc: "dcode < D_CODES" using d_code_base [of "unat dist - 1"] dist by (simp add: dcode_def D_CODES_def)
  have "\<forall>i < L_CODES. Freq (inc_freq lcode 1 (dyn_ltree s) ! i) = of_nat (count_list ((END_BLOCK # map lit_code (tallied s)) @ [lcode]) i)"
    using inv lc by (intro inc_freq_count) (simp_all add: tally_inv_def)
  moreover have "\<forall>i < D_CODES. Freq (inc_freq dcode 1 (dyn_dtree s) ! i) = of_nat (count_list (dist_codes (tallied s) @ [dcode]) i)"
    using inv dc by (intro inc_freq_count) (simp_all add: tally_inv_def)
  moreover have "dist_codes (tallied s @ [(unat dist, unat len)]) = dist_codes (tallied s) @ [dcode]"
    "lit_code (unat dist, unat len) = lcode"
    using dist by (simp_all add: dist_codes_def lit_code_def dcode_def lcode_def)
  ultimately show "tally_inv ?s"
    unfolding tally_inv_def tal f using inv room n m memwrite_nth(2) [OF buf(1)] dist
    by (simp add: tally_inv_def inc_freq_nth syms_ok_def)
qed

lemma zero_freqs_nth:
  "n \<le> length tree \<Longrightarrow> zero_freqs n tree ! i = (if i < n then (tree ! i)\<lparr>fc := 0\<rparr> else tree ! i) \<and> length (zero_freqs n tree) = length tree"
proof (induction n arbitrary: i)
  case (Suc n)
  then show ?case by (auto simp: zero_freqs_def nth_list_update)
qed (simp add: zero_freqs_def)

lemma init_block_inv:
  assumes "length (dyn_ltree s) = 2 * L_CODES + 1" "length (dyn_dtree s) = 2 * D_CODES + 1" "length (bl_tree s) = 2 * BL_CODES + 1"
    and "3 dvd sym_end s" "sym_end s + 4 \<le> length (sym_buf s)"
  shows "tally_inv (init_block s)" and "tallied (init_block s) = []"
proof -
  show t: "tallied (init_block s) = []" by (simp add: tallied_def init_block_def Let_def syms_def)
  have e: "END_BLOCK < L_CODES" by (simp add: END_BLOCK_def L_CODES_def LITERALS_def LENGTH_CODES_def)
  show "tally_inv (init_block s)"
    unfolding tally_inv_def t using assms e zero_freqs_nth [of L_CODES "dyn_ltree s"] zero_freqs_nth [of D_CODES "dyn_dtree s"]
      zero_freqs_nth [of BL_CODES "bl_tree s"]
    by (simp add: init_block_def Let_def nth_list_update dist_codes_def syms_ok_def)
qed

end
