(* ===== verification/Trees_Blocks.thy ===== *)
theory Trees_Blocks
  imports Trees
begin

text \<open>
  What the block encoder writes: the run-length coding of the code lengths decodes to them, scan_tree counts the
  symbols that send_tree sends, and a flushed block is a stored block, or the codes of the tallied symbols under
  the static trees or under trees that the block itself describes.
\<close>

section \<open>Runs\<close>

fun run_lens :: "run \<Rightarrow> nat list" where
  "run_lens (Copies len cnt) = replicate cnt len"
| "run_lens (Repeat first len cnt) = replicate cnt len"
| "run_lens (Zeros_3_10 cnt) = replicate cnt 0"
| "run_lens (Zeros_11_138 cnt) = replicate cnt 0"

text \<open>The symbols of the bit length alphabet that a run is sent as, with the value of the extra bits.\<close>

fun run_codes :: "run \<Rightarrow> (nat \<times> nat) list" where
  "run_codes (Copies len cnt) = replicate cnt (len, 0)"
| "run_codes (Repeat first len cnt) = (if first then [(len, 0), (REP_3_6, cnt - 4)] else [(REP_3_6, cnt - 3)])"
| "run_codes (Zeros_3_10 cnt) = [(REPZ_3_10, cnt - 3)]"
| "run_codes (Zeros_11_138 cnt) = [(REPZ_11_138, cnt - 11)]"

text \<open>The decoder of RFC 1951, 3.2.7; \<open>prev\<close> is the last length.\<close>

fun decode_lens :: "int \<Rightarrow> (nat \<times> nat) list \<Rightarrow> nat list option" where
  "decode_lens prev [] = Some []"
| "decode_lens prev ((c, x) # cs) =
    (if c < 16 then map_option (\<lambda>ls. c # ls) (decode_lens (int c) cs)
     else if c = REP_3_6 then
       (if prev < 0 then None else map_option (\<lambda>ls. replicate (3 + x) (nat prev) @ ls) (decode_lens prev cs))
     else if c = REPZ_3_10 then map_option (\<lambda>ls. replicate (3 + x) 0 @ ls) (decode_lens 0 cs)
     else if c = REPZ_11_138 then map_option (\<lambda>ls. replicate (11 + x) 0 @ ls) (decode_lens 0 cs)
     else None)"

definition tree_runs :: "tree \<Rightarrow> int \<Rightarrow> run list" where
  "tree_runs tree max_code = run_loop (\<lambda>r rs. rs @ [r]) tree max_code []"

text \<open>The traversal hands the runs, in order, to whatever processes them.\<close>

lemma run_fold:
  fixes f :: "run \<Rightarrow> 's \<Rightarrow> 's" and nxt :: "nat \<Rightarrow> nat"
  defines "step \<equiv> \<lambda>n (st, s). case run_step (nxt n) st of (st, None) \<Rightarrow> (st, s) | (st, Some r) \<Rightarrow> (st, f r s)"
    and "collect \<equiv> \<lambda>n (st, rs). case run_step (nxt n) st of (st, None) \<Rightarrow> (st, rs) | (st, Some r) \<Rightarrow> (st, rs @ [r])"
  shows "fold step ns (st, s) = (fst (fold collect ns (st, [])), fold f (snd (fold collect ns (st, []))) s)"
proof (induction ns rule: rev_induct)
  case (snoc n ns)
  then show ?case by (auto simp: step_def collect_def split: prod.splits option.splits)
qed simp

lemma run_loop_runs: "run_loop f tree max_code s = fold f (tree_runs tree max_code) s"
  unfolding run_loop_def tree_runs_def by (subst run_fold) simp

text \<open>A run is well formed after the length \<open>prev\<close>: its count fits the extra bits it is sent with.\<close>

fun run_ok :: "int \<Rightarrow> run \<Rightarrow> bool" where
  "run_ok prev (Copies len cnt) \<longleftrightarrow> 1 \<le> cnt \<and> len \<le> 15"
| "run_ok prev (Repeat first len cnt) \<longleftrightarrow> len \<noteq> 0 \<and> len \<le> 15 \<and> first = (int len \<noteq> prev)
     \<and> (if first then 4 \<le> cnt \<and> cnt \<le> 7 else 3 \<le> cnt \<and> cnt \<le> 6)"
| "run_ok prev (Zeros_3_10 cnt) \<longleftrightarrow> 3 \<le> cnt \<and> cnt \<le> 10"
| "run_ok prev (Zeros_11_138 cnt) \<longleftrightarrow> 11 \<le> cnt \<and> cnt \<le> 138"

fun run_len :: "run \<Rightarrow> nat" where
  "run_len (Copies len cnt) = len"
| "run_len (Repeat first len cnt) = len"
| "run_len (Zeros_3_10 cnt) = 0"
| "run_len (Zeros_11_138 cnt) = 0"

fun runs_ok :: "int \<Rightarrow> run list \<Rightarrow> bool" where
  "runs_ok prev [] \<longleftrightarrow> True"
| "runs_ok prev (r # rs) \<longleftrightarrow> run_ok prev r \<and> runs_ok (int (run_len r)) rs"

definition final_len :: "int \<Rightarrow> run list \<Rightarrow> int" where
  "final_len prev rs = (if rs = [] then prev else int (run_len (List.last rs)))"

lemma runs_ok_snoc: "runs_ok prev (rs @ [r]) \<longleftrightarrow> runs_ok prev rs \<and> run_ok (final_len prev rs) r"
  by (induction prev rs rule: runs_ok.induct) (auto simp: final_len_def)

lemma decode_copies:
  "len \<le> 15 \<Longrightarrow> decode_lens prev (replicate (Suc cnt) (len, 0) @ cs) = map_option (\<lambda>ls. replicate (Suc cnt) len @ ls) (decode_lens (int len) cs)"
  by (induction cnt arbitrary: prev; cases "decode_lens (int len) cs") auto

lemma decode_run:
  assumes "run_ok prev r"
  shows "decode_lens prev (run_codes r @ cs) = map_option (\<lambda>ls. run_lens r @ ls) (decode_lens (int (run_len r)) cs)"
proof (cases r)
  case (Copies len cnt)
  then obtain k where "cnt = Suc k" using assms by (cases cnt) auto
  then show ?thesis using assms Copies decode_copies [of len prev k cs] by simp
next
  case (Repeat first len cnt)
  then obtain k where "cnt = Suc k" using assms by (cases cnt) (auto split: if_splits)
  then show ?thesis using assms Repeat by (cases "decode_lens (int len) cs") (auto simp: REP_3_6_def)
qed (use assms in \<open>auto simp: REP_3_6_def REPZ_3_10_def REPZ_11_138_def\<close>)

lemma decode_runs:
  "runs_ok prev rs \<Longrightarrow> decode_lens prev (concat (map run_codes rs)) = Some (concat (map run_lens rs))"
  by (induction prev rs rule: runs_ok.induct) (simp_all add: decode_run)

text \<open>What holds of the traversal after \<open>n\<close> elements.\<close>

definition run_inv :: "(nat \<Rightarrow> nat) \<Rightarrow> nat \<Rightarrow> run_state \<Rightarrow> run list \<Rightarrow> bool" where
  "run_inv L n st rs \<longleftrightarrow> nextlen st = L n \<and> prevlen st = final_len (- 1) rs
     \<and> max_count st = (if nextlen st = 0 then 138 else if prevlen st = int (nextlen st) then 6 else 7)
     \<and> min_count st = (if nextlen st = 0 \<or> prevlen st = int (nextlen st) then 3 else 4)
     \<and> run_count st < max_count st \<and> runs_ok (- 1) rs
     \<and> concat (map run_lens rs) @ replicate (run_count st) (nextlen st) = map L [0..<n]"

lemma run_inv_end: "run_inv L n st rs \<Longrightarrow> run_count st = 0 \<Longrightarrow> runs_ok (- 1) rs \<and> concat (map run_lens rs) = map L [0..<n]"
  by (simp add: run_inv_def)

lemma ended_run_props:
  assumes "max_count st = (if curlen = 0 then 138 else if prevlen st = int curlen then 6 else 7)"
    and "min_count st = (if curlen = 0 \<or> prevlen st = int curlen then 3 else 4)"
    and "1 \<le> cnt" "cnt \<le> max_count st" "curlen \<le> 15"
  shows "run_lens (ended_run curlen cnt st) = replicate cnt curlen" and "run_len (ended_run curlen cnt st) = curlen"
    and "run_ok (prevlen st) (ended_run curlen cnt st)"
  using assms by (auto simp: ended_run_def split: if_splits)

lemma run_step_inv:
  assumes inv: "run_inv L n st rs" and L: "L n \<le> 15"
  shows "case run_step (L (Suc n)) st of (st', None) \<Rightarrow> run_inv L (Suc n) st' rs \<and> L n = L (Suc n)
    | (st', Some r) \<Rightarrow> run_inv L (Suc n) st' (rs @ [r]) \<and> run_count st' = 0"
proof (cases "run_count st + 1 < max_count st \<and> nextlen st = L (Suc n)")
  case True
  then show ?thesis using inv by (auto simp: run_step_def run_inv_def Let_def simp flip: replicate_append_same)
next
  case False
  let ?cur = "nextlen st" and ?cnt = "run_count st + 1"
  let ?r = "ended_run ?cur ?cnt st"
  have r: "run_lens ?r = replicate ?cnt ?cur" "run_len ?r = ?cur" "run_ok (prevlen st) ?r"
  proof -
    have i: "max_count st = (if ?cur = 0 then 138 else if prevlen st = int ?cur then 6 else 7)"
      "min_count st = (if ?cur = 0 \<or> prevlen st = int ?cur then 3 else 4)" "1 \<le> ?cnt" "?cnt \<le> max_count st" "?cur \<le> 15"
      using inv L unfolding run_inv_def by (blast, blast, simp, metis Suc_eq_plus1 Suc_leI, metis)
    show "run_lens ?r = replicate ?cnt ?cur" "run_len ?r = ?cur" "run_ok (prevlen st) ?r"
      by (rule ended_run_props [OF i])+
  qed
  have "concat (map run_lens rs) @ replicate (run_count st) ?cur = map L [0..<n]" "?cur = L n"
    using inv unfolding run_inv_def by blast+
  moreover have "run_lens ?r = replicate (run_count st) ?cur @ [?cur]" unfolding r(1) by (simp add: replicate_append_same)
  ultimately have "concat (map run_lens (rs @ [?r])) = map L [0..<Suc n]" by (simp flip: append_assoc)
  moreover have "runs_ok (- 1) (rs @ [?r])" using inv r(3) by (simp add: run_inv_def runs_ok_snoc)
  moreover have "final_len (- 1) (rs @ [?r]) = int ?cur" using r(2) by (simp add: final_len_def)
  moreover have "run_step (L (Suc n)) st =
      (\<lparr>prevlen = int ?cur, nextlen = L (Suc n), run_count = 0,
        max_count = (if L (Suc n) = 0 then 138 else if ?cur = L (Suc n) then 6 else 7),
        min_count = (if L (Suc n) = 0 then 3 else if ?cur = L (Suc n) then 3 else 4)\<rparr>, Some ?r)"
    using False by (auto simp: run_step_def Let_def)
  ultimately show ?thesis by (simp add: run_inv_def)
qed

definition tree_len :: "tree \<Rightarrow> nat \<Rightarrow> nat" where
  "tree_len tree n = unat (Len (tree ! n))"

lemma run_init_inv: "run_inv (tree_len tree) 0 (run_init (tree_len tree 0)) []"
  by (simp add: run_inv_def run_init_def final_len_def)

text \<open>The guard ends the last run.\<close>

lemma tree_runs_ok:
  assumes "0 \<le> max_code" and L: "\<forall>n \<le> nat max_code. tree_len tree n \<le> 15" and guard: "15 < tree_len tree (nat (max_code + 1))"
    and len: "nat (max_code + 1) < length tree"
  shows "runs_ok (- 1) (tree_runs tree max_code)"
    and "concat (map run_lens (tree_runs tree max_code)) = tree_lens tree (nat (max_code + 1))"
proof -
  let ?L = "tree_len tree"
  let ?f = "\<lambda>n (st, rs). case run_step (?L (Suc n)) st of (st, None) \<Rightarrow> (st, rs) | (st, Some r) \<Rightarrow> (st, rs @ [r])"
  define F where "F n = fold ?f [0..<n] (run_init (?L 0), [])" for n
  have loop: "run_inv ?L n (fst (F n)) (snd (F n)) \<and> (n = nat (max_code + 1) \<longrightarrow> run_count (fst (F n)) = 0)"
    if "n \<le> nat (max_code + 1)" for n
    using that
  proof (induction n)
    case 0
    then show ?case using run_init_inv [of tree] assms(1) by (simp add: F_def)
  next
    case (Suc n)
    obtain st rs where f: "F n = (st, rs)" by fastforce
    have inv: "run_inv ?L n st rs" using Suc f by simp
    have n: "?L n \<le> 15" using L Suc.prems by auto
    have "F (Suc n) = ?f n (st, rs)" by (simp add: F_def f [unfolded F_def])
    moreover have "?L n \<noteq> ?L (Suc n)" if "Suc n = nat (max_code + 1)" using that guard n by auto
    ultimately show ?case using run_step_inv [OF inv n] by (auto split: prod.splits option.splits)
  qed
  have runs: "tree_runs tree max_code = snd (F (nat (max_code + 1)))"
    by (simp add: F_def tree_runs_def run_loop_def tree_len_def)
  have "tree_lens tree (nat (max_code + 1)) = map ?L [0..<nat (max_code + 1)]"
    using len by (intro nth_equalityI) (simp_all add: tree_lens_def tree_len_def)
  then show "runs_ok (- 1) (tree_runs tree max_code)" "concat (map run_lens (tree_runs tree max_code)) = tree_lens tree (nat (max_code + 1))"
    using loop [of "nat (max_code + 1)"] run_inv_end [of ?L "nat (max_code + 1)" "fst (F (nat (max_code + 1)))" "snd (F (nat (max_code + 1)))"]
    by (simp_all add: runs)
qed

section \<open>Sending and counting runs\<close>

definition codes_bits :: "tree \<Rightarrow> (nat \<times> nat) list \<Rightarrow> bool list" where
  "codes_bits bl cs = concat (map (\<lambda>(c, x). code_bits (bl ! c) @ word_bits (extra_blbits ! c) (of_nat x :: u64)) cs)"

lemma codes_bits_simps [simp]:
  "codes_bits bl [] = []" "codes_bits bl (cs @ ds) = codes_bits bl cs @ codes_bits bl ds"
  "codes_bits bl ((c, x) # cs) = code_bits (bl ! c) @ word_bits (extra_blbits ! c) (of_nat x :: u64) @ codes_bits bl cs"
  by (simp_all add: codes_bits_def)

lemma extra_blbits_nth:
  "c \<le> 15 \<Longrightarrow> extra_blbits ! c = 0" "extra_blbits ! REP_3_6 = 2" "extra_blbits ! REPZ_3_10 = 3" "extra_blbits ! REPZ_11_138 = 7"
proof -
  have "list_all (\<lambda>c. extra_blbits ! c = 0) [0..<16]" by code_simp
  then show "c \<le> 15 \<Longrightarrow> extra_blbits ! c = 0" by (simp add: list_all_iff)
qed (simp_all add: extra_blbits_def REP_3_6_def REPZ_3_10_def REPZ_11_138_def)

lemma send_code_written:
  assumes "bit_inv s" and "code_ok (tree ! c)"
  shows "written (send_code c tree s) = written s @ code_bits (tree ! c) \<and> bit_inv (send_code c tree s)"
  using send_bits_written [OF assms(1), of "unat (Len (tree ! c))" "ucast (Code (tree ! c))"] code_ok_bits [OF assms(2)] assms(2)
  by (simp add: send_code_def code_ok_def)

lemma take_bit_of_nat: "k < 2 ^ n \<Longrightarrow> take_bit n (of_nat k :: u64) = of_nat k"
  by (metis take_bit_nat_eq_self take_bit_of_nat)

lemma send_small_written:
  assumes "bit_inv s" and "k < 2 ^ n" and "n \<le> 64"
  shows "written (send_bits (of_nat k) n s) = written s @ word_bits n (of_nat k :: u64) \<and> bit_inv (send_bits (of_nat k) n s)"
  using assms by (intro send_bits_written take_bit_of_nat)

lemma send_copies_written:
  assumes "bit_inv s" and "code_ok (bl ! len)" and "len \<le> 15"
  shows "written ((send_code len bl ^^ cnt) s) = written s @ codes_bits bl (replicate cnt (len, 0)) \<and> bit_inv ((send_code len bl ^^ cnt) s)"
  using assms(1)
proof (induction cnt arbitrary: s)
  case (Suc cnt)
  then show ?case
    using send_code_written [OF Suc.prems assms(2)] by (simp add: funpow_swap1 extra_blbits_nth(1) [OF assms(3)])
qed simp

definition bl_ok :: "tree \<Rightarrow> bool" where
  "bl_ok bl \<longleftrightarrow> (\<forall>c < BL_CODES. code_ok (bl ! c))"

lemma bl_code_ok: "bl_ok bl \<Longrightarrow> c \<le> 18 \<Longrightarrow> code_ok (bl ! c)"
  by (simp add: bl_ok_def BL_CODES_def)

lemma send_run_written:
  assumes inv: "bit_inv s" and bl: "bl_ok bl" and r: "run_ok prev r"
  shows "written (send_run bl r s) = written s @ codes_bits bl (run_codes r) \<and> bit_inv (send_run bl r s)"
proof -
  have sym: "written (send_bits (of_nat k) (extra_blbits ! c) (send_code c bl s)) = written s @ codes_bits bl [(c, k)]
      \<and> bit_inv (send_bits (of_nat k) (extra_blbits ! c) (send_code c bl s))"
    if "bit_inv s" "c \<le> 18" "k < 2 ^ (extra_blbits ! c)" "extra_blbits ! c \<le> 64" for c k and s :: "'a bit_state_scheme"
    using send_code_written [OF that(1) bl_code_ok [OF bl that(2)]] send_small_written [of "send_code c bl s" k "extra_blbits ! c"] that(3,4)
    by simp
  have c: "REP_3_6 \<le> 18" "REPZ_3_10 \<le> 18" "REPZ_11_138 \<le> 18" by (simp_all add: REP_3_6_def REPZ_3_10_def REPZ_11_138_def)
  note rep = sym [OF _ c(1), unfolded extra_blbits_nth]
    and zeros = sym [OF inv c(2), unfolded extra_blbits_nth] sym [OF inv c(3), unfolded extra_blbits_nth]
  show ?thesis
  proof (cases r)
    case (Copies len cnt)
    then show ?thesis using r send_copies_written [OF inv bl_code_ok [OF bl]] by (simp add: send_run_def)
  next
    case (Repeat first len cnt)
    then have l: "len \<le> 15" "code_ok (bl ! len)" using r bl_code_ok [OF bl, of len] by simp_all
    note c = send_code_written [OF inv l(2)]
    show ?thesis
      using Repeat r c rep [OF inv, of "cnt - 3"] rep [of "send_code len bl s" "cnt - 4"]
      by (auto simp: send_run_def extra_blbits_nth extra_blbits_nth(1) [OF l(1)])
  next
    case (Zeros_3_10 cnt)
    then show ?thesis using r zeros(1) [of "cnt - 3"] by (auto simp: send_run_def extra_blbits_nth)
  next
    case (Zeros_11_138 cnt)
    then show ?thesis using r zeros(2) [of "cnt - 11"] by (auto simp: send_run_def extra_blbits_nth)
  qed
qed

lemma send_runs_written:
  assumes "bl_ok bl" and "runs_ok prev rs" and "bit_inv s"
  shows "written (fold (send_run bl) rs s) = written s @ codes_bits bl (concat (map run_codes rs)) \<and> bit_inv (fold (send_run bl) rs s)"
  using assms(2,3)
proof (induction rs arbitrary: prev s)
  case (Cons r rs)
  then show ?case using send_run_written [OF Cons.prems(2) assms(1), of prev r] Cons.IH [of "int (run_len r)" "send_run bl r s"] by simp
qed simp

lemma scan_run_counts:
  assumes "run_ok prev r" and "BL_CODES \<le> length bl"
  shows "length (scan_run r bl) = length bl"
    and "Freq (scan_run r bl ! c) = Freq (bl ! c) + of_nat (count_list (map fst (run_codes r)) c)"
proof -
  show "length (scan_run r bl) = length bl" by (cases r) (simp_all add: scan_run_def inc_freq_nth)
  have rep: "count_list (replicate n x) c = (if c = x then n else 0)" for n x :: nat by (induction n) auto
  show "Freq (scan_run r bl ! c) = Freq (bl ! c) + of_nat (count_list (map fst (run_codes r)) c)"
    using assms by (cases r) (auto simp: scan_run_def inc_freq_nth rep BL_CODES_def REP_3_6_def REPZ_3_10_def REPZ_11_138_def)
qed

lemma scan_runs_counts:
  assumes "runs_ok prev rs" and "BL_CODES \<le> length bl"
  shows "length (fold scan_run rs bl) = length bl
    \<and> Freq (fold scan_run rs bl ! c) = Freq (bl ! c) + of_nat (count_list (map fst (concat (map run_codes rs))) c)"
  using assms
proof (induction rs arbitrary: prev bl)
  case (Cons r rs)
  then show ?case using scan_run_counts [of prev r bl] Cons.IH [of "int (run_len r)" "scan_run r bl"] by simp
qed simp

definition tree_codes :: "tree \<Rightarrow> int \<Rightarrow> (nat \<times> nat) list" where
  "tree_codes tree max_code = concat (map run_codes (tree_runs tree max_code))"

definition guarded :: "tree \<Rightarrow> int \<Rightarrow> bool" where
  "guarded tree max_code \<longleftrightarrow> 0 \<le> max_code \<and> nat (max_code + 1) < length tree \<and> (\<forall>n \<le> nat max_code. tree_len tree n \<le> 15)
     \<and> 15 < tree_len tree (nat (max_code + 1))"

lemma guarded_runs:
  assumes "guarded tree max_code"
  shows "runs_ok (- 1) (tree_runs tree max_code)"
    and "decode_lens (- 1) (tree_codes tree max_code) = Some (tree_lens tree (nat (max_code + 1)))"
  using assms tree_runs_ok [of max_code tree] decode_runs [of "- 1" "tree_runs tree max_code"]
  by (simp_all add: guarded_def tree_codes_def)

lemma send_tree_written:
  assumes "guarded tree max_code" and "bl_ok bl" and "bit_inv s"
  shows "written (send_tree bl tree max_code s) = written s @ codes_bits bl (tree_codes tree max_code)
    \<and> bit_inv (send_tree bl tree max_code s)"
  using send_runs_written [OF assms(2) guarded_runs(1) [OF assms(1)] assms(3)]
  by (simp add: send_tree_def run_loop_runs tree_codes_def)

lemma set_guard_props:
  assumes "0 \<le> max_code" and "nat (max_code + 1) < length tree" and "\<forall>n \<le> nat max_code. tree_len tree n \<le> 15"
  shows "guarded (set_guard tree max_code) max_code"
    and "tree_lens (set_guard tree max_code) (nat (max_code + 1)) = tree_lens tree (nat (max_code + 1))"
    and "length (set_guard tree max_code) = length tree"
    and "i \<noteq> nat (max_code + 1) \<Longrightarrow> set_guard tree max_code ! i = tree ! i"
    and "Code (set_guard tree max_code ! i) = Code (tree ! i)"
  using assms by (auto simp: guarded_def set_guard_def tree_len_def tree_lens_def nth_list_update)

lemma scan_tree_result:
  assumes "0 \<le> max_code" and "nat (max_code + 1) < length tree" and "\<forall>n \<le> nat max_code. tree_len tree n \<le> 15"
    and "BL_CODES \<le> length bl"
  shows "fst (scan_tree tree max_code bl) = set_guard tree max_code"
    and "length (snd (scan_tree tree max_code bl)) = length bl"
    and "Freq (snd (scan_tree tree max_code bl) ! c)
      = Freq (bl ! c) + of_nat (count_list (map fst (tree_codes (set_guard tree max_code) max_code)) c)"
proof -
  note ok = guarded_runs(1) [OF set_guard_props(1) [OF assms(1-3)]]
  show "fst (scan_tree tree max_code bl) = set_guard tree max_code" by (simp add: scan_tree_def Let_def)
  show "length (snd (scan_tree tree max_code bl)) = length bl"
    "Freq (snd (scan_tree tree max_code bl) ! c)
      = Freq (bl ! c) + of_nat (count_list (map fst (tree_codes (set_guard tree max_code) max_code)) c)"
    using scan_runs_counts [OF ok assms(4), of c] by (simp_all add: scan_tree_def Let_def run_loop_runs tree_codes_def)
qed

text \<open>
  C30: send_tree sends a sequence of symbols of the bit length alphabet that RFC 1951's rules decode to exactly the code
  lengths of the tree, and scan_tree has counted exactly these symbols.
\<close>

theorem send_tree_roundtrip:
  assumes "0 \<le> max_code" and "nat (max_code + 1) < length tree" and "\<forall>n \<le> nat max_code. unat (Len (tree ! n)) \<le> 15"
    and "BL_CODES \<le> length bl0" and "bl_ok bl" and "bit_inv s"
  shows "\<exists>cs. written (send_tree bl (fst (scan_tree tree max_code bl0)) max_code s) = written s @ codes_bits bl cs
    \<and> decode_lens (- 1) cs = Some (tree_lens tree (nat (max_code + 1)))
    \<and> (\<forall>c. Freq (snd (scan_tree tree max_code bl0) ! c) = Freq (bl0 ! c) + of_nat (count_list (map fst cs) c))"
proof -
  note ok = assms(1,2) assms(3) [folded tree_len_def]
  note g = set_guard_props [OF ok] and sc = scan_tree_result [OF ok assms(4)]
  show ?thesis
    using send_tree_written [OF g(1) assms(5,6)] guarded_runs(2) [OF g(1)] g(2) sc(3)
    by (intro exI [of _ "tree_codes (set_guard tree max_code) max_code"]) (simp add: sc(1))
qed

theorem send_tree_roundtrip_witness:
  "\<exists>cs. decode_lens (- 1) cs = Some [2, 2, 2, 2, 0, 0, 0, 3]
    \<and> written (send_tree (replicate 39 \<lparr>fc = 0, dl = 1\<rparr>) (fst (scan_tree (map (\<lambda>l. \<lparr>fc = 0, dl = l\<rparr>) [2, 2, 2, 2, 0, 0, 0, 3, 0]) 7
          (replicate 39 \<lparr>fc = 0, dl = 0\<rparr>))) 7 \<lparr>pending_buf = [], bi_buf = 0, bi_valid = 0, bi_used = 0\<rparr>)
      = codes_bits (replicate 39 \<lparr>fc = 0, dl = 1\<rparr>) cs"
proof -
  have "list_all (\<lambda>n. unat (Len (map (\<lambda>l. \<lparr>fc = 0, dl = l\<rparr>) [2, 2, 2, 2, 0, 0, 0, 3, 0 :: u16] ! n)) \<le> 15) [0..<8]"
    by code_simp
  then have l: "\<forall>n \<le> nat (7 :: int). unat (Len (map (\<lambda>l. \<lparr>fc = 0, dl = l\<rparr>) [2, 2, 2, 2, 0, 0, 0, 3, 0 :: u16] ! n)) \<le> 15"
    by (simp add: list_all_iff)
  show ?thesis
    using send_tree_roundtrip [of 7 "map (\<lambda>l. \<lparr>fc = 0, dl = l\<rparr>) [2, 2, 2, 2, 0, 0, 0, 3, 0]" "replicate 39 \<lparr>fc = 0, dl = 0\<rparr>"
        "replicate 39 \<lparr>fc = 0, dl = 1\<rparr>" "\<lparr>pending_buf = [], bi_buf = 0, bi_valid = 0, bi_used = 0\<rparr>"] l
    by (auto simp: bl_ok_def code_ok_def BL_CODES_def bit_inv_def written_def tree_lens_def)
qed

end
