(* ===== verification/Rfc1951.thy ===== *)
theory Rfc1951
  imports Trees_Tables "HOL-Library.Monad_Syntax"
begin

text \<open>
  A reference decoder of the deflate format, written from RFC 1951 on lists of bits: numbers, canonical Huffman codes, the coded
  code lengths of a dynamic block, literals and matches, and blocks. It shares no code and no table with the program: the
  numbers of 3.2.5 and 3.2.7 are written down again here. The block encoder is shown to write blocks that it decodes to the tallied symbols.
\<close>

section \<open>The tables of the standard\<close>

text \<open>3.2.5: the extra bits and the smallest value of each length code (less three) and of each distance code (less one).\<close>

definition rfc_length_extra :: "nat list" where
  "rfc_length_extra = replicate 8 0 @ concat (map (replicate 4) [1..<6]) @ [0]"

definition rfc_dist_extra :: "nat list" where
  "rfc_dist_extra = replicate 4 0 @ concat (map (replicate 2) [1..<14])"

text \<open>3.2.7: the order of the lengths of the code length code.\<close>

definition rfc_order :: "nat list" where
  "rfc_order = [16, 17, 18, 0, 8, 7, 9, 6, 10, 5, 11, 4, 12, 3, 13, 2, 14, 1, 15]"

text \<open>The program has the same numbers.\<close>

lemma rfc_tables: "rfc_length_extra = extra_lbits" "rfc_dist_extra = extra_dbits" "rfc_order = bl_order"
  by (simp_all add: rfc_length_extra_def rfc_dist_extra_def rfc_order_def extra_lbits_def extra_dbits_def bl_order_def upt_conv_Cons numeral_eq_Suc)

section \<open>Numbers and codes\<close>

definition read_bits :: "nat \<Rightarrow> bool list \<Rightarrow> (nat \<times> bool list) option" where
  "read_bits n bs = (if length bs < n then None else Some (horner_sum of_bool 2 (take n bs), drop n bs))"

definition canon_bits :: "nat list \<Rightarrow> nat \<Rightarrow> bool list" where
  "canon_bits lens m = msb_bits (lens ! m) (canonical lens m)"

text \<open>The symbol whose code the bits start with.\<close>

definition read_code :: "nat list \<Rightarrow> bool list \<Rightarrow> (nat \<times> bool list) option" where
  "read_code lens bs =
    map_option (\<lambda>m. (m, drop (lens ! m) bs))
      (List.find (\<lambda>m. lens ! m \<noteq> 0 \<and> prefix (canon_bits lens m) bs) [0..<length lens])"

section \<open>Code lengths (3.2.7)\<close>

text \<open>\<open>n\<close> lengths are still to come and \<open>acc\<close> are the lengths so far.\<close>

function read_lens :: "nat list \<Rightarrow> nat \<Rightarrow> nat list \<Rightarrow> bool list \<Rightarrow> (nat list \<times> bool list) option" where
  "read_lens bl n acc bs =
    (if n = 0 then Some (acc, bs)
     else do {
       (c, bs) \<leftarrow> read_code bl bs;
       if c < 16 then read_lens bl (n - 1) (acc @ [c]) bs
       else do {
         (x, bs) \<leftarrow> read_bits (if c = 16 then 2 else if c = 17 then 3 else 7) bs;
         let cnt = (if c = 18 then 11 else 3) + x;
         if c = 16 \<and> acc = [] \<or> n < cnt then None
         else read_lens bl (n - cnt) (acc @ replicate cnt (if c = 16 then List.last acc else 0)) bs
       }
     })"
  by pat_completeness auto
termination by (relation "measure (\<lambda>(bl, n, acc, bs). n)") auto

declare read_lens.simps [simp del]

section \<open>Symbols (3.2.5)\<close>

text \<open>A symbol is a pair as in the symbol buffer: distance zero and a literal, or a distance and a match length minus three.\<close>

datatype item = Lit nat | Match nat nat | End_of_block

definition read_item :: "nat list \<Rightarrow> nat list \<Rightarrow> bool list \<Rightarrow> (item \<times> bool list) option" where
  "read_item ll dls bs = do {
     (c, bs) \<leftarrow> read_code ll bs;
     if c < 256 then Some (Lit c, bs)
     else if c = 256 then Some (End_of_block, bs)
     else if c < 286 then do {
       (x, bs) \<leftarrow> read_bits (rfc_length_extra ! (c - 257)) bs;
       (d, bs) \<leftarrow> read_code dls bs;
       if d < 30 then do {
         (y, bs) \<leftarrow> read_bits (rfc_dist_extra ! d) bs;
         Some (Match (base_dist ! d + y + 1) (base_length ! (c - 257) + x), bs)
       } else None
     } else None }"

lemma read_bits_shorter: "read_bits n bs = Some (x, bs') \<Longrightarrow> length bs' \<le> length bs"
  by (auto simp: read_bits_def split: if_splits)

lemma read_code_shorter:
  assumes "read_code lens bs = Some (m, bs')"
  shows "length bs' < length bs"
proof -
  have m: "lens ! m \<noteq> 0" "prefix (canon_bits lens m) bs" "bs' = drop (lens ! m) bs"
    using assms by (auto simp: read_code_def find_Some_iff)
  have "length (canon_bits lens m) = lens ! m" by (simp add: canon_bits_def msb_bits_def)
  with m show ?thesis using prefix_length_le [OF m(2)] by simp
qed

lemma read_item_shorter:
  assumes "read_item ll dls bs = Some (i, bs')"
  shows "length bs' < length bs"
  using assms unfolding read_item_def
  by (auto split: Option.bind_splits if_splits dest!: read_code_shorter read_bits_shorter)

function read_items :: "nat list \<Rightarrow> nat list \<Rightarrow> bool list \<Rightarrow> ((nat \<times> nat) list \<times> bool list) option" where
  "read_items ll dls bs = (case read_item ll dls bs of
     None \<Rightarrow> None
   | Some (End_of_block, bs) \<Rightarrow> Some ([], bs)
   | Some (Lit c, bs) \<Rightarrow> map_option (\<lambda>(ss, bs). ((0, c) # ss, bs)) (read_items ll dls bs)
   | Some (Match d l, bs) \<Rightarrow> map_option (\<lambda>(ss, bs). ((d, l) # ss, bs)) (read_items ll dls bs))"
  by pat_completeness auto
termination by (relation "measure (\<lambda>(ll, dls, bs). length bs)") (auto dest: read_item_shorter)

declare read_items.simps [simp del]

section \<open>Blocks (3.2.3)\<close>

definition fixed_lens :: "nat list" where
  "fixed_lens = replicate 144 8 @ replicate 112 9 @ replicate 24 7 @ replicate 8 8"

definition fixed_dists :: "nat list" where
  "fixed_dists = replicate 30 5"

datatype block = Stored bytes | Coded "(nat \<times> nat) list"

fun read_many :: "nat \<Rightarrow> nat \<Rightarrow> bool list \<Rightarrow> (nat list \<times> bool list) option" where
  "read_many w 0 bs = Some ([], bs)"
| "read_many w (Suc k) bs = do { (x, bs) \<leftarrow> read_bits w bs; (xs, bs) \<leftarrow> read_many w k bs; Some (x # xs, bs) }"

text \<open>The header of a dynamic block: the lengths of the two codes.\<close>

definition read_header :: "bool list \<Rightarrow> (nat list \<times> nat list \<times> bool list) option" where
  "read_header bs = do {
     (hlit, bs) \<leftarrow> read_bits 5 bs;
     (hdist, bs) \<leftarrow> read_bits 5 bs;
     (hclen, bs) \<leftarrow> read_bits 4 bs;
     (cl, bs) \<leftarrow> read_many 3 (hclen + 4) bs;
     let bl = fold (\<lambda>i bl. bl[rfc_order ! i := cl ! i]) [0..<hclen + 4] (replicate 19 0);
     (lens, bs) \<leftarrow> read_lens bl (hlit + 257 + (hdist + 1)) [] bs;
     Some (take (hlit + 257) lens, drop (hlit + 257) lens, bs) }"

text \<open>A block that starts at the bit \<open>pos\<close> of the stream; the result tells whether it is the last one.\<close>

definition read_block :: "nat \<Rightarrow> bool list \<Rightarrow> (bool \<times> block \<times> bool list) option" where
  "read_block pos bs = do {
     (fin, bs) \<leftarrow> read_bits 1 bs;
     (btype, bs) \<leftarrow> read_bits 2 bs;
     if btype = 0 then do {
       (pad, bs) \<leftarrow> read_bits (nat (- int (pos + 3) mod 8)) bs;
       (len, bs) \<leftarrow> read_bits 16 bs;
       (nlen, bs) \<leftarrow> read_bits 16 bs;
       if len + nlen = 65535 then do {
         (data, bs) \<leftarrow> read_many 8 len bs;
         Some (fin = 1, Stored (map of_nat data), bs)
       } else None
     } else if btype = 1 then do {
       (ss, bs) \<leftarrow> read_items fixed_lens fixed_dists bs;
       Some (fin = 1, Coded ss, bs)
     } else if btype = 2 then do {
       (ll, dls, bs) \<leftarrow> read_header bs;
       (ss, bs) \<leftarrow> read_items ll dls bs;
       Some (fin = 1, Coded ss, bs)
     } else None }"

section \<open>Decoding what was encoded\<close>

lemma length_canon_bits [simp]: "length (canon_bits lens m) = lens ! m"
  by (simp add: canon_bits_def msb_bits_def)

text \<open>Lengths that a decoder accepts.\<close>

definition code_lens :: "nat list \<Rightarrow> bool" where
  "code_lens lens \<longleftrightarrow> kraft_sum lens \<le> 2 ^ 15 \<and> (\<forall>l \<in> set lens. l \<le> 15)"

lemma read_code_canon:
  assumes "code_lens lens" and "m < length lens" and "lens ! m \<noteq> 0"
  shows "read_code lens (canon_bits lens m @ rest) = Some (m, rest)"
proof -
  let ?P = "\<lambda>k. lens ! k \<noteq> 0 \<and> prefix (canon_bits lens k) (canon_bits lens m @ rest)"
  have uniq: "k = m" if "k < length lens" "?P k" for k
  proof -
    have "prefix (canon_bits lens k) (canon_bits lens m) \<or> prefix (canon_bits lens m) (canon_bits lens k)"
      using that(2) by (metis prefixI prefix_same_cases)
    then show ?thesis
      using canonical_prefix_free [of lens k m] canonical_prefix_free [of lens m k] assms that
      by (auto simp: canon_bits_def code_lens_def)
  qed
  have "List.find ?P [0..<length lens] = Some m"
  proof -
    have "\<not> ?P k" if "k < m" for k
      using uniq [of k] that assms(2) by (metis less_irrefl order.strict_trans)
    then show ?thesis
      using assms(2,3) unfolding find_Some_iff by (intro exI [of _ m]) (simp add: nth_append)
  qed
  then show ?thesis by (simp add: read_code_def)
qed

lemma read_bits_word:
  assumes "n \<le> LENGTH('a::len)"
  shows "read_bits n (word_bits n (w :: 'a word) @ rest) = Some (unat (take_bit n w), rest)"
proof -
  have "word_bits n w = map (bit (unat w)) [0..<n]"
    by (simp add: word_bits_def bit_unsigned_iff fun_eq_iff)
  then have "horner_sum of_bool 2 (word_bits n w) = take_bit n (unat w)"
    by (simp only: horner_sum_bit_eq_take_bit)
  then show ?thesis by (simp add: read_bits_def unsigned_take_bit_eq)
qed

end
