(* ===== verification/Trees_Flush.thy ===== *)
theory Trees_Flush
  imports Trees_Blocks Rfc1951
begin

text \<open>
  A flushed block seen from the decoder: whatever zng_tr_flush_block chooses (a stored block, the static trees or trees of its own), the bits it
  appends are read back by the decoder of RFC 1951 as the stored bytes or the tallied symbols.
\<close>

declare compress_loop.simps [simp del]

section \<open>Appending bits\<close>

text \<open>The step from \<open>s\<close> to \<open>s'\<close> appends \<open>bs\<close> to the output and changes nothing but the bit writer.\<close>

definition emits :: "bool list \<Rightarrow> 'a bit_state_scheme \<Rightarrow> 'a bit_state_scheme \<Rightarrow> bool" where
  "emits bs s s' \<longleftrightarrow> written s' = written s @ bs \<and> bit_inv s' \<and> bit_state.more s' = bit_state.more s"

lemma emits_refl: "bit_inv s \<Longrightarrow> emits [] s s"
  by (simp add: emits_def)

lemma emits_trans: "emits as s s' \<Longrightarrow> emits bs s' s'' \<Longrightarrow> emits (as @ bs) s s''"
  by (simp add: emits_def)

lemma emits_inv: "emits bs s s' \<Longrightarrow> bit_inv s'"
  by (simp add: emits_def)

lemma same_more:
  assumes "bit_state.more s' = bit_state.more s"
  shows "s' = s\<lparr>pending_buf := pending_buf s', bi_buf := bi_buf s', bi_valid := bi_valid s', bi_used := bi_used s'\<rparr>"
  using assms by (cases s; cases s') simp

lemma more_put [simp]:
  "bit_state.more (put_byte c s) = bit_state.more s" "bit_state.more (put_short w s) = bit_state.more s"
  "bit_state.more (put_uint32 d s) = bit_state.more s" "bit_state.more (put_uint64 q s) = bit_state.more s"
  by (simp_all add: put_byte_def put_short_def put_uint32_def put_uint64_def)

lemma more_bits [simp]:
  "bit_state.more (send_bits val n s) = bit_state.more s" "bit_state.more (send_bits_merge val n s) = bit_state.more s"
  "bit_state.more (send_bits_flush s) = bit_state.more s" "bit_state.more (bi_windup s) = bit_state.more s"
  "bit_state.more (zng_tr_flush_bits s) = bit_state.more s"
  by (simp_all add: send_bits_def send_bits_merge_def send_bits_flush_def bi_windup_def zng_tr_flush_bits_def Let_def
    put_byte_def put_short_def put_uint32_def put_uint64_def)

lemma more_codes [simp]:
  "bit_state.more (send_code c tree s) = bit_state.more s" "bit_state.more (zng_emit_end_block tree s) = bit_state.more s"
  "bit_state.more (zng_tr_emit_tree type fin s) = bit_state.more s" "bit_state.more (zng_tr_emit_align s) = bit_state.more s"
  by (simp_all add: send_code_def zng_emit_end_block_def zng_tr_emit_tree_def zng_tr_emit_align_def)

lemma more_compress_loop [simp]:
  "bit_state.more (compress_loop ltree dtree buf nxt sx s) = bit_state.more s"
proof (induction ltree dtree buf nxt sx s rule: compress_loop.induct)
  case (1 ltree dtree buf nxt sx s)
  then show ?case
    by (subst compress_loop.simps) (auto simp: Let_def split: prod.splits)
qed

lemma more_funpow: "(\<And>s. bit_state.more (f s) = bit_state.more s) \<Longrightarrow> bit_state.more ((f ^^ n) s) = bit_state.more s"
  by (induction n) auto

lemma more_fold: "(\<And>x s. bit_state.more (f x s) = bit_state.more s) \<Longrightarrow> bit_state.more (fold f xs s) = bit_state.more s"
  by (induction xs arbitrary: s) auto

lemma more_send_run [simp]: "bit_state.more (send_run bl r s) = bit_state.more s"
  by (cases r) (simp_all add: send_run_def more_funpow split: prod.splits)

lemma more_send_tree [simp]: "bit_state.more (send_tree bl tree mc s) = bit_state.more s"
  by (simp add: send_tree_def run_loop_runs more_fold)

lemma emits_send_bits:
  assumes "bit_inv s" and "n \<le> 64" and "k < 2 ^ n"
  shows "emits (word_bits n (of_nat k :: u64)) s (send_bits (of_nat k) n s)"
  using send_small_written [OF assms(1,3,2)] by (simp add: emits_def)

lemma emits_send_code:
  assumes "bit_inv s" and "code_ok (tree ! c)"
  shows "emits (code_bits (tree ! c)) s (send_code c tree s)"
  using send_code_written [OF assms] by (simp add: emits_def)

lemma emits_send_tree:
  assumes "bit_inv s" and "guarded tree mc" and "bl_ok bl"
  shows "emits (codes_bits bl (tree_codes tree mc)) s (send_tree bl tree mc s)"
  using send_tree_written [OF assms(2,3,1)] by (simp add: emits_def)

lemma emits_align:
  assumes "bit_inv s"
  shows "emits (replicate (nat (- int (length (written s)) mod 8)) False) s (zng_tr_emit_align s)"
proof -
  have "int (length (written s)) = bi_valid s + 8 * int (length (pending_buf s))"
    using assms by (simp add: written_def bit_inv_def)
  then have "- int (length (written s)) mod 8 = - bi_valid s mod 8"
    using mod_mult_self2 [of "- bi_valid s" 8 "- int (length (pending_buf s))"] by (simp add: algebra_simps)
  then show ?thesis using bi_windup_written [OF assms] by (simp add: emits_def zng_tr_emit_align_def)
qed

section \<open>Reading symbols back\<close>

text \<open>A decoder that knows the code lengths knows the codes of the tree.\<close>

definition describes :: "tree \<Rightarrow> nat list \<Rightarrow> bool" where
  "describes tree lens \<longleftrightarrow> code_lens lens
     \<and> (\<forall>m < length lens. lens ! m = unat (Len (tree ! m)) \<and> (lens ! m \<noteq> 0 \<longrightarrow> code_bits (tree ! m) = canon_bits lens m))"

definition has_code :: "nat list \<Rightarrow> nat \<Rightarrow> bool" where
  "has_code lens m \<longleftrightarrow> m < length lens \<and> lens ! m \<noteq> 0"

lemma read_code_tree:
  "describes tree lens \<Longrightarrow> has_code lens m \<Longrightarrow> read_code lens (code_bits (tree ! m) @ rest) = Some (m, rest)"
  unfolding describes_def has_code_def using read_code_canon [of lens m rest] by metis

definition sym_has_codes :: "nat list \<Rightarrow> nat list \<Rightarrow> nat \<times> nat \<Rightarrow> bool" where
  "sym_has_codes ll dls sy \<longleftrightarrow> fst sy \<le> 32768 \<and> snd sy < 256 \<and> has_code ll (lit_code sy)
     \<and> (fst sy \<noteq> 0 \<longrightarrow> has_code dls (d_code (fst sy - 1)))"

lemma read_extra:
  assumes "n \<le> 64" and "x < 2 ^ 64"
  shows "read_bits n (word_bits n (of_nat x :: u64) @ rest) = Some (x mod 2 ^ n, rest)"
  using assms by (simp add: read_bits_word unat_take_bit_mod unat_of_nat)

lemma extra_small:
  "c < 29 \<Longrightarrow> extra_lbits ! c \<le> 64" "d < 30 \<Longrightarrow> extra_dbits ! d \<le> 64"
  using lmask_fields(3) [of c] dmask_fields(3) [of d] by simp_all

lemma read_item_sym:
  assumes l: "describes ltree ll" and d: "describes dtree dls" and sy: "sym_has_codes ll dls sy"
  shows "read_item ll dls (sym_bits ltree dtree sy @ rest)
    = Some (if fst sy = 0 then Lit (snd sy) else Match (fst sy) (snd sy), rest)"
proof -
  obtain dist lc where [simp]: "sy = (dist, lc)" by (cases sy)
  have lc: "lc < 256" "dist \<le> 32768" "has_code ll (lit_code (dist, lc))"
    "dist \<noteq> 0 \<Longrightarrow> has_code dls (d_code (dist - 1))"
    using sy by (simp_all add: sym_has_codes_def)
  note rl = read_code_tree [OF l lc(3)]
  show ?thesis
  proof (cases "dist = 0")
    case True
    then show ?thesis using rl lc(1) by (simp add: read_item_def rfc_tables sym_bits_def lit_code_def)
  next
    case False
    define c where "c = zng_length_code ! lc"
    define dc where "dc = d_code (dist - 1)"
    have c: "c < 29" "lc = base_length ! c + lc mod 2 ^ (extra_lbits ! c)"
      using length_code_base [OF lc(1)] by (simp_all add: c_def)
    have dd: "dist - 1 < 32768" using False lc(2) by simp
    have dc: "dc < 30" "dist - 1 = base_dist ! dc + (dist - 1) mod 2 ^ (extra_dbits ! dc)"
      using d_code_base [OF dd] by (simp_all add: dc_def)
    have code: "lit_code (dist, lc) = c + 257" using False by (simp add: lit_code_def c_def LITERALS_def)
    have "dc = d_code (dist - Suc 0)" by (simp add: dc_def)
    note rd = read_code_tree [OF d lc(4) [OF False], folded dc_def]
    have bits: "sym_bits ltree dtree sy = code_bits (ltree ! (c + 257)) @ word_bits (extra_lbits ! c) (of_nat lc :: u64)
        @ code_bits (dtree ! dc) @ word_bits (extra_dbits ! dc) (of_nat (dist - 1) :: u64)"
      using False by (simp add: sym_bits_def match_bits_def Let_def LITERALS_def add.commute flip: c_def dc_def One_nat_def)
    have x: "read_bits (extra_lbits ! c) (word_bits (extra_lbits ! c) (of_nat lc :: u64) @ r) = Some (lc mod 2 ^ (extra_lbits ! c), r)" for r
      using lc(1) extra_small(1) [OF c(1)] by (intro read_extra) simp_all
    have y: "read_bits (extra_dbits ! dc) (word_bits (extra_dbits ! dc) (of_nat (dist - 1) :: u64) @ r)
        = Some ((dist - 1) mod 2 ^ (extra_dbits ! dc), r)" for r
      using dd extra_small(2) [OF dc(1)] by (intro read_extra) simp_all
    have "Match (base_dist ! dc + (dist - 1) mod 2 ^ (extra_dbits ! dc) + 1) (base_length ! c + lc mod 2 ^ (extra_lbits ! c)) = Match dist lc"
      using c(2) dc(2) False by simp
    then show ?thesis
      unfolding bits using rl [unfolded code] rd x y c(1) dc(1) False
      by (simp add: read_item_def rfc_tables)
  qed
qed

lemma read_items_syms:
  assumes l: "describes ltree ll" and d: "describes dtree dls" and eob: "has_code ll END_BLOCK"
    and ss: "\<forall>sy \<in> set ss. sym_has_codes ll dls sy"
  shows "read_items ll dls (concat (map (sym_bits ltree dtree) ss) @ code_bits (ltree ! END_BLOCK) @ rest) = Some (ss, rest)"
  using ss
proof (induction ss)
  case Nil
  have "read_item ll dls (code_bits (ltree ! END_BLOCK) @ rest) = Some (End_of_block, rest)"
    using read_code_tree [OF l eob, of rest] by (simp add: read_item_def rfc_tables END_BLOCK_def)
  then show ?case by (subst read_items.simps) simp
next
  case (Cons sy ss)
  then show ?case
    using read_item_sym [OF l d, of sy] by (subst read_items.simps) (cases sy; auto)
qed

section \<open>The trees a block uses\<close>

lemma fixed_lens_static: "fixed_lens = static_lens"
  by (simp add: fixed_lens_def static_lens_def)

lemma static_ltree_describes: "describes static_ltree fixed_lens"
proof -
  have bits: "code_bits (static_ltree ! m) = canon_bits static_lens m" if m: "m < 288" for m
  proof -
    let ?l = "static_lens ! m" and ?c = "canonical static_lens m"
    have l: "0 < ?l" "?l \<le> 16" "?l < 2 ^ 16" and c: "?c < 2 ^ 16" using static_canonical [OF m] m by auto
    have u: "unat (of_nat ?l :: u16) = ?l" using l(3) by (simp add: unat_of_nat)
    have "code_bits (static_ltree ! m) = rev (word_bits ?l (of_nat ?c :: u16))"
      using bi_reverse_bits [OF l(1,2)] by (simp add: code_bits_def static_ltree_nth [OF m] u)
    then show ?thesis using msb_bits_word [OF c l(2)] by (simp add: canon_bits_def)
  qed
  have "static_lens ! m = unat (Len (static_ltree ! m))" if "m < 288" for m
    using static_canonical [OF that] by (simp add: static_ltree_nth [OF that])
  with bits show ?thesis
    using static_kraft static_lens_le by (simp add: describes_def code_lens_def fixed_lens_static static_lens_def)
qed

lemma static_dtree_describes: "describes static_dtree fixed_dists"
proof -
  have f: "first_code (replicate 30 5) 5 = 0"
    by (simp add: first_code_def)
  have c: "canonical (replicate 30 5) m = m" if "m < 30" for m using that by (simp add: canonical_def f)
  have "code_bits (static_dtree ! m) = canon_bits (replicate 30 5) m" if m: "m < 30" for m
    using bi_reverse_bits [of 5 "of_nat m"] msb_bits_word [of m 5] m
    by (simp add: code_bits_def static_dtree_nth [OF m] canon_bits_def c)
  moreover have "kraft_sum (replicate 30 5) \<le> 2 ^ 15" by (simp add: kraft_sum_list)
  ultimately show ?thesis
    by (simp add: describes_def code_lens_def fixed_dists_def static_dtree_nth)
qed

lemma lit_code_less: "snd sy < 256 \<Longrightarrow> lit_code sy < L_CODES \<and> lit_code sy \<noteq> END_BLOCK"
  using length_code_base [of "snd sy"]
  by (auto simp: lit_code_def L_CODES_def LITERALS_def LENGTH_CODES_def END_BLOCK_def split: prod.splits)

lemma static_has_codes:
  assumes "fst sy \<le> 32768" and "snd sy < 256"
  shows "sym_has_codes fixed_lens fixed_dists sy"
proof -
  have d: "d_code (fst sy - 1) < 30" using d_code_base [of "fst sy - 1"] assms(1) by simp
  have l: "lit_code sy < 286" using lit_code_less [OF assms(2)] by (simp add: L_CODES_def LITERALS_def LENGTH_CODES_def)
  have "fixed_lens ! lit_code sy \<noteq> 0" using static_canonical(1) [of "lit_code sy"] l by (simp add: fixed_lens_static)
  then show ?thesis
    using assms d l by (simp add: sym_has_codes_def has_code_def fixed_lens_static static_lens_def fixed_dists_def)
qed

lemma built_describes:
  assumes "tree_built sd tree0 tree mc" and "max_length sd \<le> 15" and "elems sd \<le> length tree"
  shows "describes (set_guard tree mc) (tree_lens tree (nat (mc + 1)))"
proof -
  have mc: "0 \<le> mc" "nat (mc + 1) \<le> elems sd" using assms(1) by (auto simp: tree_built_def)
  have nth: "tree_lens tree (nat (mc + 1)) ! m = unat (Len (tree ! m))" "set_guard tree mc ! m = tree ! m"
    if "m < nat (mc + 1)" for m
    using that mc assms(3) by (simp_all add: tree_lens_def set_guard_def)
  have le: "\<forall>l \<in> set (tree_lens tree (nat (mc + 1))). l \<le> 15"
  proof
    fix l assume "l \<in> set (tree_lens tree (nat (mc + 1)))"
    then obtain m where m: "m < nat (mc + 1)" "l = node_len tree m"
      using nth mc assms(3) by (auto simp: tree_lens_def in_set_conv_nth node_len_def)
    then have "m < elems sd" using mc by simp
    note m = this m(2)
    then show "l \<le> 15" using assms(1,2) by (force simp: tree_built_def)
  qed
  have "code_bits (tree ! m) = canon_bits (tree_lens tree (nat (mc + 1))) m" if "m < nat (mc + 1)" "Len (tree ! m) \<noteq> 0" for m
    using assms(1) that by (auto simp: tree_built_def canonical_codes_def used_codes_def canon_bits_def)
  then show ?thesis
    using le assms(1,3) mc nth
    by (auto simp: describes_def code_lens_def tree_built_def tree_lens_def unat_eq_0)
qed

lemma canonical_zeros:
  assumes "m < length lens" and "lens ! m \<noteq> 0"
  shows "canon_bits (lens @ replicate k 0) m = canon_bits lens m"
  using assms by (simp add: canon_bits_def canonical_def first_code_def nth_append)

lemma kraft_zeros: "kraft_sum (lens @ replicate k 0) = kraft_sum lens"
  by (simp add: kraft_sum_def)

lemma describes_zeros:
  assumes "describes tree lens" and "\<And>m. length lens \<le> m \<Longrightarrow> m < length lens + k \<Longrightarrow> Len (tree ! m) = 0"
  shows "describes tree (lens @ replicate k 0)"
proof -
  have "code_lens (lens @ replicate k 0)" using assms(1) by (auto simp: describes_def code_lens_def kraft_zeros)
  moreover have "(lens @ replicate k 0) ! m = unat (Len (tree ! m)) \<and>
      ((lens @ replicate k 0) ! m \<noteq> 0 \<longrightarrow> code_bits (tree ! m) = canon_bits (lens @ replicate k 0) m)"
    if "m < length (lens @ replicate k 0)" for m
    using assms that by (cases "m < length lens") (auto simp: describes_def nth_append canonical_zeros)
  ultimately show ?thesis by (simp add: describes_def)
qed

section \<open>The coded code lengths\<close>

lemma decode_start: "decode_lens (- 1) cs = Some ls \<Longrightarrow> decode_lens p cs = Some ls"
  by (cases cs) (auto split: if_splits)

definition last_len :: "int \<Rightarrow> nat list \<Rightarrow> int" where
  "last_len p ls = (if ls = [] then p else int (List.last ls))"

lemma last_len_append [simp]:
  "last_len p (c # ls) = last_len (int c) ls" "last_len p (as @ bs) = last_len (last_len p as) bs"
  "0 < k \<Longrightarrow> last_len p (replicate k c) = int c"
  by (auto simp: last_len_def)

lemma decode_append:
  "decode_lens p cs = Some ls \<Longrightarrow> decode_lens (last_len p ls) cs' = Some ls' \<Longrightarrow> decode_lens p (cs @ cs') = Some (ls @ ls')"
proof (induction p cs arbitrary: ls rule: decode_lens.induct)
  case (2 prev c x cs)
  from 2(5,6) show ?case
    by (auto simp: 2(1-4) REP_3_6_def REPZ_3_10_def REPZ_11_138_def split: if_splits)
qed (simp add: last_len_def)

text \<open>Symbols of the bit length alphabet that can be sent and read.\<close>

definition bl_sym_ok :: "nat list \<Rightarrow> nat \<times> nat \<Rightarrow> bool" where
  "bl_sym_ok bls cx \<longleftrightarrow> has_code bls (fst cx) \<and> fst cx \<le> 18 \<and> snd cx < 2 ^ (extra_blbits ! fst cx)"

lemma runs_codes_small:
  assumes "runs_ok prev rs" and "cx \<in> set (concat (map run_codes rs))"
  shows "fst cx \<le> 18 \<and> snd cx < 2 ^ (extra_blbits ! fst cx)"
proof -
  have "run_ok prev r \<Longrightarrow> cx \<in> set (run_codes r) \<Longrightarrow> fst cx \<le> 18 \<and> snd cx < 2 ^ (extra_blbits ! fst cx)" for prev r
    by (cases r) (auto simp: extra_blbits_nth split: if_splits, auto simp: REP_3_6_def REPZ_3_10_def REPZ_11_138_def)
  with assms show ?thesis by (induction rs arbitrary: prev) auto
qed

lemma read_lens_codes:
  assumes bl: "describes bl bls"
  shows "decode_lens (last_len (- 1) acc) cs = Some ls \<Longrightarrow> \<forall>cx \<in> set cs. bl_sym_ok bls cx \<Longrightarrow>
    read_lens bls (length ls) acc (codes_bits bl cs @ rest) = Some (acc @ ls, rest)"
proof (induction cs arbitrary: acc ls)
  case Nil
  then show ?case by (simp add: read_lens.simps)
next
  case (Cons cx cs)
  obtain c x where [simp]: "cx = (c, x)" by (cases cx)
  have c: "has_code bls c" "c \<le> 18" "x < 2 ^ (extra_blbits ! c)" using Cons.prems by (simp_all add: bl_sym_ok_def)
  note rc = read_code_tree [OF bl c(1)]
  show ?case
  proof (cases "c < 16")
    case True
    then obtain ls' where ls: "ls = c # ls'" "decode_lens (int c) cs = Some ls'" using Cons.prems by auto
    have "decode_lens (last_len (- 1) (acc @ [c])) cs = Some ls'" using ls by (simp add: last_len_def)
    note IH = Cons.IH [OF this]
    show ?thesis
      using rc IH Cons.prems True by (subst read_lens.simps) (simp add: ls extra_blbits_nth(1))
  next
    case False
    then have c3: "c = REP_3_6 \<or> c = REPZ_3_10 \<or> c = REPZ_11_138"
      using c(2) by (auto simp: REP_3_6_def REPZ_3_10_def REPZ_11_138_def)
    define k where "k = (if c = 18 then 11 else 3) + x"
    define l where "l = (if c = 16 then List.last acc else 0)"
    define e where "e = (if c = 16 then 2 else if c = 17 then 3 else 7 :: nat)"
    have e: "extra_blbits ! c = e" "e \<le> 64"
      using c3 by (auto simp: e_def extra_blbits_nth, auto simp: REP_3_6_def REPZ_3_10_def REPZ_11_138_def)
    have acc: "c = 16 \<Longrightarrow> acc \<noteq> []" using Cons.prems False by (auto simp: REP_3_6_def last_len_def split: if_splits)
    obtain ls' where ls: "ls = replicate k l @ ls'" "decode_lens (int l) cs = Some ls'"
      using Cons.prems False c3 acc by (auto simp: last_len_def k_def l_def REP_3_6_def REPZ_3_10_def REPZ_11_138_def split: if_splits)
    have "decode_lens (last_len (- 1) (acc @ replicate k l)) cs = Some ls'" using ls(2) by (simp add: k_def)
    note IH = Cons.IH [OF this]
    have "(2 :: nat) ^ e \<le> 2 ^ 64" by (rule power_increasing [OF e(2)]) simp
    then have "x < 2 ^ 64" using c(3) e(1) by (metis order.strict_trans2)
    then have rx: "read_bits e (word_bits e (of_nat x :: u64) @ r) = Some (x, r)" for r
      using read_extra [OF e(2), of x r] c(3) e(1) by simp
    have "0 < k" by (simp add: k_def)
    then show ?thesis
      using rc rx IH Cons.prems False acc
      by (subst read_lens.simps) (simp add: ls(1) e(1) flip: k_def l_def e_def)
  qed
qed

section \<open>The header of a dynamic block\<close>

lemma read_many_bits:
  assumes "w \<le> 64" and "\<forall>i < n. f (k + i) < 2 ^ w" and "w < 64"
  shows "read_many w n (concat (map (\<lambda>i. word_bits w (of_nat (f i) :: u64)) [k..<k + n]) @ rest) = Some (map f [k..<k + n], rest)"
  using assms(2)
proof (induction n arbitrary: k)
  case (Suc n)
  have u: "[k..<k + Suc n] = k # [Suc k..<Suc k + n]" by (simp add: upt_conv_Cons)
  have f: "f k < 2 ^ w" using Suc.prems by force
  have "(2 :: nat) ^ w \<le> 2 ^ 64" by (rule power_increasing [OF assms(1)]) simp
  with f have "f k < 2 ^ 64" by (rule order.strict_trans2)
  then have "read_bits w (word_bits w (of_nat (f k) :: u64) @ r) = Some (f k, r)" for r
    using read_extra [OF assms(1), of "f k" r] f by simp
  moreover have "\<forall>i < n. f (Suc k + i) < 2 ^ w" using Suc.prems by force
  ultimately show ?case unfolding u using Suc.IH [of "Suc k"] by simp
qed simp

definition bl_lens :: "tree \<Rightarrow> nat list" where
  "bl_lens bl = map (\<lambda>m. unat (Len (bl ! m))) [0..<19]"

lemma bl_order_facts:
  "\<forall>i < 19. bl_order ! i < 19" "\<forall>m < 19. \<exists>i < 19. bl_order ! i = m \<and> (m < 16 \<longrightarrow> 3 \<le> i)"
proof -
  have "list_all (\<lambda>i. bl_order ! i < 19) [0..<19]" by code_simp
  then show "\<forall>i < 19. bl_order ! i < 19" by (simp add: list_all_iff)
  have "list_all (\<lambda>m. list_ex (\<lambda>i. bl_order ! i = m \<and> (m < 16 \<longrightarrow> 3 \<le> i)) [0..<19]) [0..<19]" by code_simp
  then show "\<forall>m < 19. \<exists>i < 19. bl_order ! i = m \<and> (m < 16 \<longrightarrow> 3 \<le> i)"
    unfolding list_all_iff list_ex_iff set_upt by (metis atLeastLessThan_iff le0)
qed

lemma read_bl_lens:
  assumes nb: "nb \<le> 19" and zero: "\<forall>i. nb \<le> i \<and> i < 19 \<longrightarrow> Len (bl ! (bl_order ! i)) = 0"
  shows "fold (\<lambda>i xs. xs[bl_order ! i := map (\<lambda>i. unat (Len (bl ! (bl_order ! i)))) [0..<nb] ! i]) [0..<nb] (replicate 19 0) = bl_lens bl"
proof -
  let ?f = "\<lambda>i xs. xs[bl_order ! i := map (\<lambda>i. unat (Len (bl ! (bl_order ! i)))) [0..<nb] ! i]"
  have "fold ?f [0..<n] (replicate 19 0) = map (\<lambda>m. if \<exists>i < n. bl_order ! i = m then unat (Len (bl ! m)) else 0) [0..<19]"
    if "n \<le> nb" for n
    using that
  proof (induction n)
    case 0
    then show ?case by (simp add: map_replicate_const)
  next
    case (Suc n)
    let ?g = "\<lambda>n m. if \<exists>i < n. bl_order ! i = m then unat (Len (bl ! m)) else 0"
    have "(map (?g n) [0..<19])[bl_order ! n := unat (Len (bl ! (bl_order ! n)))] = map (?g (Suc n)) [0..<19]"
    proof (rule nth_equalityI)
      fix i assume "i < length ((map (?g n) [0..<19])[bl_order ! n := unat (Len (bl ! (bl_order ! n)))])"
      then show "(map (?g n) [0..<19])[bl_order ! n := unat (Len (bl ! (bl_order ! n)))] ! i = map (?g (Suc n)) [0..<19] ! i"
        by (cases "bl_order ! n = i") (auto simp: less_Suc_eq)
    qed simp
    moreover have "fold ?f [0..<n] (replicate 19 0) = map (?g n) [0..<19]" using Suc by simp
    ultimately show ?case using Suc.prems by simp
  qed
  from this [of nb] have "fold ?f [0..<nb] (replicate 19 0) = map (\<lambda>m. if \<exists>i < nb. bl_order ! i = m then unat (Len (bl ! m)) else 0) [0..<19]"
    by simp
  moreover have "(if \<exists>i < nb. bl_order ! i = m then unat (Len (bl ! m)) else 0) = unat (Len (bl ! m))" if "m < 19" for m
    using bl_order_facts(2) zero that by (metis not_less unsigned_0)
  then have "map (\<lambda>m. if \<exists>i < nb. bl_order ! i = m then unat (Len (bl ! m)) else 0) [0..<19] = bl_lens bl"
    unfolding bl_lens_def by (intro map_cong) simp_all
  ultimately show ?thesis by simp
qed

definition header_bits :: "nat \<Rightarrow> nat \<Rightarrow> nat \<Rightarrow> tree \<Rightarrow> (nat \<times> nat) list \<Rightarrow> bool list" where
  "header_bits nl nd nb bl cs = word_bits 5 (of_nat (nl - 257) :: u64) @ word_bits 5 (of_nat (nd - 1) :: u64)
     @ word_bits 4 (of_nat (nb - 4) :: u64)
     @ concat (map (\<lambda>i. word_bits 3 (of_nat (unat (Len (bl ! (bl_order ! i)))) :: u64)) [0..<nb]) @ codes_bits bl cs"

lemma read_header_bits:
  assumes nl: "257 \<le> nl" "nl \<le> 286" and nd: "1 \<le> nd" "nd \<le> 30" and nb: "4 \<le> nb" "nb \<le> 19"
    and bl: "describes bl (bl_lens bl)" "\<forall>m < 19. unat (Len (bl ! m)) \<le> 7"
    and zero: "\<forall>i. nb \<le> i \<and> i < 19 \<longrightarrow> Len (bl ! (bl_order ! i)) = 0"
    and cs: "decode_lens (- 1) cs = Some (ll @ dls)" "length ll = nl" "length dls = nd" "\<forall>cx \<in> set cs. bl_sym_ok (bl_lens bl) cx"
  shows "read_header (header_bits nl nd nb bl cs @ rest) = Some (ll, dls, rest)"
proof -
  let ?cl = "map (\<lambda>i. unat (Len (bl ! (bl_order ! i)))) [0..<nb]"
  have n: "read_bits 5 (word_bits 5 (of_nat (nl - 257) :: u64) @ r) = Some (nl - 257, r)"
    "read_bits 5 (word_bits 5 (of_nat (nd - 1) :: u64) @ r) = Some (nd - 1, r)"
    "read_bits 4 (word_bits 4 (of_nat (nb - 4) :: u64) @ r) = Some (nb - 4, r)" for r
    using read_extra [of 5 "nl - 257" r] read_extra [of 5 "nd - 1" r] read_extra [of 4 "nb - 4" r] nl nd nb by simp_all
  have "\<forall>i < nb. unat (Len (bl ! (bl_order ! (0 + i)))) < 2 ^ 3"
    using bl(2) bl_order_facts(1) nb by (auto simp: less_eq_Suc_le)
  then have m: "read_many 3 nb (concat (map (\<lambda>i. word_bits 3 (of_nat (unat (Len (bl ! (bl_order ! i)))) :: u64)) [0..<nb]) @ r) = Some (?cl, r)" for r
    using read_many_bits [of 3 nb "\<lambda>i. unat (Len (bl ! (bl_order ! i)))" 0 r] by simp
  have c: "read_lens (bl_lens bl) (nl + nd) [] (codes_bits bl cs @ rest) = Some (ll @ dls, rest)"
    using read_lens_codes [OF bl(1), of "[]" cs "ll @ dls"] cs by (simp add: last_len_def)
  have a: "nl - 257 + 257 = nl" "nd - 1 + 1 = nd" "nb - 4 + 4 = nb" using nl nd nb by simp_all
  show ?thesis
    unfolding read_header_def rfc_tables header_bits_def append_assoc n Option.bind.bind_lunit prod.case a m Let_def
      read_bl_lens [OF nb(2) zero] c
    using cs(2,3) by simp
qed

section \<open>The trees of a dynamic block\<close>

declare last_blindex.simps [simp del]

lemma last_blindex_props:
  "last_blindex bl i \<le> i \<and> (\<forall>k. last_blindex bl i < k \<and> k \<le> i \<longrightarrow> Len (bl ! (bl_order ! k)) = 0) \<and> (2 \<le> i \<longrightarrow> 2 \<le> last_blindex bl i)"
proof (induction bl i rule: last_blindex.induct)
  case (1 bl i)
  show ?case
  proof (cases "i < 3 \<or> Len (bl ! (bl_order ! i)) \<noteq> 0")
    case True
    then have "last_blindex bl i = i" by (subst last_blindex.simps) auto
    then show ?thesis by auto
  next
    case False
    then have e: "last_blindex bl i = last_blindex bl (i - 1)" by (subst last_blindex.simps) simp
    have IH: "last_blindex bl (i - 1) \<le> i - 1"
      "\<And>k. last_blindex bl (i - 1) < k \<Longrightarrow> k \<le> i - 1 \<Longrightarrow> Len (bl ! (bl_order ! k)) = 0" "2 \<le> last_blindex bl (i - 1)"
      using 1 False by auto
    have "Len (bl ! (bl_order ! k)) = 0" if "last_blindex bl (i - 1) < k" "k \<le> i" for k
      using IH(2) [of k] False that by (cases "k = i") auto
    then show ?thesis unfolding e using IH by auto
  qed
qed

text \<open>Some length has to be sent itself: a repetition code needs one before it.\<close>

lemma decode_Cons:
  assumes "decode_lens p ((c, x) # cs) = Some ls"
  obtains k l ls' where "0 < k" and "ls = replicate k l @ ls'" and "decode_lens (int l) cs = Some ls'" and "16 \<le> c \<and> p \<le> 0 \<longrightarrow> l = 0"
proof -
  consider "c < 16" | "\<not> c < 16" "c = REP_3_6" | "\<not> c < 16" "c = REPZ_3_10" "c \<noteq> REP_3_6" | "\<not> c < 16" "c = REPZ_11_138" "c \<noteq> REP_3_6" "c \<noteq> REPZ_3_10"
    using assms by (auto split: if_splits)
  then show thesis
  proof cases
    case 1
    then show thesis using assms that [of 1 c] by auto
  next
    case 2
    then show thesis using assms that [of "3 + x" "nat p"] by (auto split: if_splits)
  next
    case 3
    then show thesis using assms that [of "3 + x" 0] by auto
  next
    case 4
    then show thesis using assms that [of "11 + x" 0] by auto
  qed
qed

lemma decode_needs_length:
  "decode_lens p cs = Some ls \<Longrightarrow> p \<le> 0 \<Longrightarrow> \<forall>cx \<in> set cs. 16 \<le> fst cx \<Longrightarrow> set ls \<subseteq> {0}"
proof (induction cs arbitrary: p ls)
  case (Cons cx cs)
  obtain c x where cx: "cx = (c, x)" by (cases cx)
  obtain k l ls' where "0 < k" "ls = replicate k l @ ls'" "decode_lens (int l) cs = Some ls'" "16 \<le> c \<and> p \<le> 0 \<longrightarrow> l = 0"
    by (rule decode_Cons [OF Cons.prems(1) [unfolded cx]])
  with Cons.prems(2,3) Cons.IH [of "int l" ls'] show ?case by (auto simp: cx)
qed simp

lemma decode_codes_le: "decode_lens p cs = Some ls \<Longrightarrow> length cs \<le> length ls"
proof (induction cs arbitrary: p ls)
  case (Cons cx cs)
  obtain c x where cx: "cx = (c, x)" by (cases cx)
  obtain k l ls' where k: "0 < k" "ls = replicate k l @ ls'" "decode_lens (int l) cs = Some ls'"
    by (rule decode_Cons [OF Cons.prems(1) [unfolded cx]])
  have "length ls = k + length ls'" unfolding k(2) by simp
  with Cons.IH [OF k(3)] k(1) show ?case by simp
qed simp

text \<open>What the header of a dynamic block describes.\<close>

definition header_ok :: "'a tree_state_scheme \<Rightarrow> nat \<Rightarrow> nat list \<Rightarrow> nat list \<Rightarrow> bool" where
  "header_ok s mb ll dls \<longleftrightarrow> 257 \<le> length ll \<and> length ll \<le> 286 \<and> 1 \<le> length dls \<and> length dls \<le> 30
     \<and> l_max_code s = int (length ll) - 1 \<and> d_max_code s = int (length dls) - 1
     \<and> guarded (dyn_ltree s) (l_max_code s) \<and> guarded (dyn_dtree s) (d_max_code s)
     \<and> tree_lens (dyn_ltree s) (length ll) = ll \<and> tree_lens (dyn_dtree s) (length dls) = dls
     \<and> describes (dyn_ltree s) ll \<and> describes (dyn_dtree s) dls
     \<and> bl_ok (bl_tree s) \<and> describes (bl_tree s) (bl_lens (bl_tree s)) \<and> (\<forall>m < 19. unat (Len (bl_tree s ! m)) \<le> 7)
     \<and> 3 \<le> mb \<and> mb \<le> 18 \<and> (\<forall>i. mb < i \<and> i < 19 \<longrightarrow> Len (bl_tree s ! (bl_order ! i)) = 0)
     \<and> (\<forall>cx \<in> set (tree_codes (dyn_ltree s) (l_max_code s) @ tree_codes (dyn_dtree s) (d_max_code s)).
          bl_sym_ok (bl_lens (bl_tree s)) cx)"

lemma header_decodes:
  assumes "header_ok s mb ll dls"
  shows "decode_lens (- 1) (tree_codes (dyn_ltree s) (l_max_code s) @ tree_codes (dyn_dtree s) (d_max_code s)) = Some (ll @ dls)"
proof -
  have n: "nat (l_max_code s + 1) = length ll" "nat (d_max_code s + 1) = length dls" using assms by (simp_all add: header_ok_def)
  have "decode_lens (- 1) (tree_codes (dyn_ltree s) (l_max_code s)) = Some ll"
    "decode_lens (- 1) (tree_codes (dyn_dtree s) (d_max_code s)) = Some dls"
    using guarded_runs(2) [of "dyn_ltree s" "l_max_code s"] guarded_runs(2) [of "dyn_dtree s" "d_max_code s"] assms
    unfolding n header_ok_def by metis+
  then show ?thesis using decode_append decode_start by blast
qed

lemma more_fields:
  assumes "bit_state.more s' = bit_state.more (s :: 'a tree_state_scheme)"
  shows "sym_buf s' = sym_buf s" "sym_next s' = sym_next s" "sym_end s' = sym_end s" "dyn_ltree s' = dyn_ltree s"
    "dyn_dtree s' = dyn_dtree s" "bl_tree s' = bl_tree s" "l_max_code s' = l_max_code s" "d_max_code s' = d_max_code s"
    "tallied s' = tallied s" "tally_inv s' = tally_inv s" "level s' = level s" "strategy s' = strategy s" "tree_state.more s' = tree_state.more s"
  by (subst same_more [OF assms], simp add: tallied_def tally_inv_def)+

lemma emits_bl_lens:
  assumes "bit_inv s" and "\<forall>m < 19. unat (Len (bl_tree s ! m)) \<le> 7" and "n \<le> 19"
  shows "emits (concat (map (\<lambda>i. word_bits 3 (of_nat (unat (Len (bl_tree s ! (bl_order ! i)))) :: u64)) [0..<n])) s
    (fold (\<lambda>rank s. send_bits (ucast (Len (bl_tree s ! (bl_order ! rank)))) 3 s) [0..<n] s)"
  using assms(3)
proof (induction n)
  case 0
  then show ?case using assms(1) by (simp add: emits_refl)
next
  case (Suc n)
  let ?s = "fold (\<lambda>rank s. send_bits (ucast (Len (bl_tree s ! (bl_order ! rank)))) 3 s) [0..<n] s"
  have e: "emits (concat (map (\<lambda>i. word_bits 3 (of_nat (unat (Len (bl_tree s ! (bl_order ! i)))) :: u64)) [0..<n])) s ?s"
    using Suc by simp
  then have b: "bl_tree ?s = bl_tree s" by (intro more_fields(6)) (simp add: emits_def)
  have "unat (Len (bl_tree s ! (bl_order ! n))) < 2 ^ 3" using assms(2) bl_order_facts(1) Suc.prems by (simp add: less_eq_Suc_le)
  then have "emits (word_bits 3 (of_nat (unat (Len (bl_tree s ! (bl_order ! n)))) :: u64)) ?s
      (send_bits (of_nat (unat (Len (bl_tree s ! (bl_order ! n))))) 3 ?s)"
    using emits_inv [OF e] by (intro emits_send_bits) simp_all
  from emits_trans [OF e this] show ?case using b by simp
qed

lemma emits_all_trees:
  assumes "header_ok s mb ll dls" and "bit_inv s"
  shows "emits (header_bits (length ll) (length dls) (mb + 1) (bl_tree s)
      (tree_codes (dyn_ltree s) (l_max_code s) @ tree_codes (dyn_dtree s) (d_max_code s))) s
    (send_all_trees (l_max_code s + 1) (d_max_code s + 1) (mb + 1) s)"
proof -
  note h = assms(1) [unfolded header_ok_def]
  define s1 where "s1 = send_bits (of_nat (length ll - 257)) 5 s"
  define s2 where "s2 = send_bits (of_nat (length dls - 1)) 5 s1"
  define s3 where "s3 = send_bits (of_nat (mb + 1 - 4)) 4 s2"
  define s4 where "s4 = fold (\<lambda>rank s. send_bits (ucast (Len (bl_tree s ! (bl_order ! rank)))) 3 s) [0..<mb + 1] s3"
  define s5 where "s5 = send_tree (bl_tree s4) (dyn_ltree s4) (l_max_code s) s4"
  have e1: "emits (word_bits 5 (of_nat (length ll - 257) :: u64)) s s1"
    unfolding s1_def using assms h by (intro emits_send_bits) auto
  have e2: "emits (word_bits 5 (of_nat (length dls - 1) :: u64)) s1 s2"
    unfolding s2_def using emits_inv [OF e1] h by (intro emits_send_bits) auto
  have e3: "emits (word_bits 4 (of_nat (mb + 1 - 4) :: u64)) s2 s3"
    unfolding s3_def using emits_inv [OF e2] h by (intro emits_send_bits) auto
  have m3: "bit_state.more s3 = bit_state.more s" using e1 e2 e3 by (simp add: emits_def)
  note f3 = more_fields [OF m3]
  have e4: "emits (concat (map (\<lambda>i. word_bits 3 (of_nat (unat (Len (bl_tree s ! (bl_order ! i)))) :: u64)) [0..<mb + 1])) s3 s4"
    unfolding s4_def using emits_bl_lens [OF emits_inv [OF e3], of "mb + 1"] h by (simp add: f3)
  have m4: "bit_state.more s4 = bit_state.more s" using e4 m3 by (simp add: emits_def)
  note f4 = more_fields [OF m4]
  have e5: "emits (codes_bits (bl_tree s) (tree_codes (dyn_ltree s) (l_max_code s))) s4 s5"
    unfolding s5_def f4 using emits_inv [OF e4] h by (intro emits_send_tree) auto
  have m5: "bit_state.more s5 = bit_state.more s" using e5 m4 by (simp add: emits_def)
  note f5 = more_fields [OF m5]
  have e6: "emits (codes_bits (bl_tree s) (tree_codes (dyn_dtree s) (d_max_code s))) s5 (send_tree (bl_tree s5) (dyn_dtree s5) (d_max_code s) s5)"
    unfolding f5 using emits_inv [OF e5] h by (intro emits_send_tree) auto
  have "l_max_code s + 1 - 257 = int (length ll - 257)" "d_max_code s + 1 - 1 = int (length dls - 1)" "int (mb + 1) - 4 = int (mb + 1 - 4)"
    using h by auto
  then have lc: "(of_int (l_max_code s + 1 - 257) :: u64) = of_nat (length ll - 257)"
    and dc: "(of_int (d_max_code s + 1 - 1) :: u64) = of_nat (length dls - 1)"
    and bc: "(of_int (int (mb + 1) - 4) :: u64) = of_nat (mb + 1 - 4)"
    by (simp_all only: of_int_of_nat_eq)
  have "send_all_trees (l_max_code s + 1) (d_max_code s + 1) (mb + 1) s = send_tree (bl_tree s5) (dyn_dtree s5) (d_max_code s) s5"
    unfolding s5_def s4_def s3_def s2_def s1_def send_all_trees_def Let_def lc dc bc
    by (simp only: add_diff_cancel_right')
  then show ?thesis
    using emits_trans [OF e1 emits_trans [OF e2 emits_trans [OF e3 emits_trans [OF e4 emits_trans [OF e5 e6]]]]]
    by (simp add: header_bits_def)
qed

section \<open>Building the trees of a block\<close>

lemma descs: "elems static_l_desc = L_CODES" "elems static_d_desc = D_CODES" "elems static_bl_desc = BL_CODES"
  "max_length static_l_desc = 15" "max_length static_d_desc = 15" "max_length static_bl_desc = 7"
  by (simp_all add: static_l_desc_def static_d_desc_def static_bl_desc_def MAX_BITS_def MAX_BL_BITS_def)

lemma code_counts: "L_CODES = 286" "D_CODES = 30" "BL_CODES = 19"
  by (simp_all add: L_CODES_def LITERALS_def LENGTH_CODES_def D_CODES_def BL_CODES_def)

lemma built_guard:
  assumes b: "tree_built sd tree0 tree mc" and L: "max_length sd \<le> 15" and len: "length tree = 2 * elems sd + 1"
  defines "lens \<equiv> tree_lens tree (nat (mc + 1))"
  shows "guarded (set_guard tree mc) mc" and "describes (set_guard tree mc) lens" and "length lens = nat (mc + 1)"
    and "tree_lens (set_guard tree mc) (length lens) = lens" and "length lens \<le> elems sd" and "1 \<le> length lens"
    and "\<And>m. m < elems sd \<Longrightarrow> Freq (tree0 ! m) \<noteq> 0 \<Longrightarrow> has_code lens m"
    and "\<And>m. has_code lens m \<Longrightarrow> code_ok (set_guard tree mc ! m)"
    and "length (set_guard tree mc) = length tree"
proof -
  have mc: "0 \<le> mc" "nat (mc + 1) \<le> elems sd" "nat (mc + 1) < length tree" using b len by (auto simp: tree_built_def)
  have l: "\<forall>n \<le> nat mc. tree_len tree n \<le> 15"
  proof (intro allI impI)
    fix n assume "n \<le> nat mc"
    then have "n < elems sd" using mc by simp
    then have "node_len tree n \<le> max_length sd" using b by (simp add: tree_built_def)
    then show "tree_len tree n \<le> 15" using L by (simp add: tree_len_def node_len_def)
  qed
  note g = set_guard_props [OF mc(1,3) l]
  show n: "length lens = nat (mc + 1)" using mc by (simp add: lens_def tree_lens_def)
  show "guarded (set_guard tree mc) mc" "length (set_guard tree mc) = length tree" by (fact g)+
  show "tree_lens (set_guard tree mc) (length lens) = lens" unfolding n using g(2) by (simp add: lens_def)
  show "describes (set_guard tree mc) lens"
    unfolding lens_def using built_describes [OF b L] len by simp
  show "length lens \<le> elems sd" "1 \<le> length lens" using mc n by simp_all
  have nth: "lens ! m = node_len tree m" if "m < nat (mc + 1)" for m
    using that mc by (simp add: lens_def tree_lens_def node_len_def)
  show "has_code lens m" if "m < elems sd" "Freq (tree0 ! m) \<noteq> 0" for m
  proof -
    have "node_len tree m \<noteq> 0" "int m \<le> mc" using b that by (auto simp: tree_built_def)
    then show ?thesis using nth [of m] by (simp add: has_code_def n)
  qed
  show "code_ok (set_guard tree mc ! m)" if "has_code lens m" for m
  proof -
    have "m < nat (mc + 1)" using that by (simp add: has_code_def n)
    then have "m < elems sd" "m \<noteq> nat (mc + 1)" using mc by simp_all
    then show ?thesis using b g(4) [of m] by (simp add: tree_built_def)
  qed
qed

lemma count_nonzero:
  assumes "x \<in> set xs" and "length xs < 65536"
  shows "(of_nat (count_list xs x) :: u16) \<noteq> 0"
proof -
  have "count_list xs x \<le> length xs" by (rule count_le_length)
  moreover have "count_list xs x \<noteq> 0" using assms(1) by (simp add: count_list_0_iff)
  ultimately show ?thesis using assms(2) by (simp add: word_of_nat_eq_0_iff nat_dvd_not_less)
qed

lemma built_bl:
  assumes b: "tree_built static_bl_desc tree0 tree mc" and len: "length tree = 2 * BL_CODES + 1"
  shows "bl_ok tree" and "describes tree (bl_lens tree)" and "\<forall>m < 19. unat (Len (tree ! m)) \<le> 7"
    and "\<And>m. m < 19 \<Longrightarrow> Freq (tree0 ! m) \<noteq> 0 \<Longrightarrow> has_code (bl_lens tree) m"
proof -
  have e: "elems static_bl_desc = 19" by (simp add: descs code_counts)
  have mc: "0 \<le> mc" "nat (mc + 1) \<le> 19" "nat (mc + 1) \<le> length tree" using b len by (auto simp: tree_built_def e code_counts)
  show "bl_ok tree" using b by (simp add: bl_ok_def tree_built_def descs)
  show le: "\<forall>m < 19. unat (Len (tree ! m)) \<le> 7" using b by (simp add: tree_built_def descs code_counts node_len_def)
  show "has_code (bl_lens tree) m" if "m < 19" "Freq (tree0 ! m) \<noteq> 0" for m
    using b that by (simp add: tree_built_def e has_code_def bl_lens_def node_len_def)
  have d: "describes (set_guard tree mc) (tree_lens tree (nat (mc + 1)))"
    using built_describes [OF b] len by (simp add: descs)
  have "set_guard tree mc ! m = tree ! m" if "m < nat (mc + 1)" for m using that by (simp add: set_guard_def)
  with d have "describes tree (tree_lens tree (nat (mc + 1)))"
    using mc by (auto simp: describes_def tree_lens_def)
  moreover have "Len (tree ! m) = 0" if "nat (mc + 1) \<le> m" "m < 19" for m
    using b that mc by (auto simp: tree_built_def e node_len_def unat_eq_0)
  ultimately have "describes tree (tree_lens tree (nat (mc + 1)) @ replicate (19 - nat (mc + 1)) 0)"
    using mc by (intro describes_zeros) (simp_all add: tree_lens_def)
  moreover have "tree_lens tree (nat (mc + 1)) @ replicate (19 - nat (mc + 1)) 0 = bl_lens tree"
  proof (rule nth_equalityI)
    show "length (tree_lens tree (nat (mc + 1)) @ replicate (19 - nat (mc + 1)) 0) = length (bl_lens tree)"
      using mc by (simp add: tree_lens_def bl_lens_def)
    fix m assume "m < length (tree_lens tree (nat (mc + 1)) @ replicate (19 - nat (mc + 1)) 0)"
    then have "m < 19" using mc by (simp add: tree_lens_def)
    moreover have "unat (Len (tree ! m)) = 0" if "nat (mc + 1) \<le> m" "m < 19"
      using b that mc by (auto simp: tree_built_def e node_len_def)
    ultimately show "(tree_lens tree (nat (mc + 1)) @ replicate (19 - nat (mc + 1)) 0) ! m = bl_lens tree ! m"
      using mc by (simp add: tree_lens_def bl_lens_def nth_append)
  qed
  ultimately show "describes tree (bl_lens tree)" by simp
qed

lemma build_bl_tree_header:
  assumes l: "tree_built static_l_desc l0 (dyn_ltree s) (l_max_code s)" "length (dyn_ltree s) = 2 * L_CODES + 1" "Freq (l0 ! END_BLOCK) \<noteq> 0"
    and d: "tree_built static_d_desc d0 (dyn_dtree s) (d_max_code s)" "length (dyn_dtree s) = 2 * D_CODES + 1"
    and bl: "length (bl_tree s) = 2 * BL_CODES + 1" "\<forall>n < BL_CODES. Freq (bl_tree s ! n) = 0"
  shows "\<exists>bl mc cnt ol sl mb. let s' = s\<lparr>dyn_ltree := set_guard (dyn_ltree s) (l_max_code s), dyn_dtree := set_guard (dyn_dtree s) (d_max_code s),
        bl_tree := bl, bl_max_code := mc, bl_count := cnt, opt_len := ol, static_len := sl\<rparr>
      in build_bl_tree s = Some (s', mb) \<and> length bl = length (bl_tree s)
       \<and> header_ok s' mb (tree_lens (dyn_ltree s) (nat (l_max_code s + 1))) (tree_lens (dyn_dtree s) (nat (d_max_code s + 1)))"
proof -
  let ?lt = "set_guard (dyn_ltree s) (l_max_code s)" and ?dt = "set_guard (dyn_dtree s) (d_max_code s)"
  let ?ll = "tree_lens (dyn_ltree s) (nat (l_max_code s + 1))" and ?dls = "tree_lens (dyn_dtree s) (nat (d_max_code s + 1))"
  let ?cl = "tree_codes ?lt (l_max_code s)" and ?cd = "tree_codes ?dt (d_max_code s)"
  have L: "max_length static_l_desc \<le> 15" "max_length static_d_desc \<le> 15" by (simp_all add: descs)
  note gl = built_guard [OF l(1) L(1) l(2) [folded descs(1)]] and gd = built_guard [OF d(1) L(2) d(2) [folded descs(2)]]
  have tl: "0 \<le> l_max_code s" "nat (l_max_code s + 1) < length (dyn_ltree s)" "\<forall>n \<le> nat (l_max_code s). tree_len (dyn_ltree s) n \<le> 15"
    and td: "0 \<le> d_max_code s" "nat (d_max_code s + 1) < length (dyn_dtree s)" "\<forall>n \<le> nat (d_max_code s). tree_len (dyn_dtree s) n \<le> 15"
    using gl(1) gd(1) gl(9) gd(9) by (auto simp: guarded_def tree_len_def set_guard_def)
  define bl1 where "bl1 = snd (scan_tree (dyn_ltree s) (l_max_code s) (bl_tree s))"
  define bl2 where "bl2 = snd (scan_tree (dyn_dtree s) (d_max_code s) bl1)"
  have sl: "scan_tree (dyn_ltree s) (l_max_code s) (bl_tree s) = (?lt, bl1)" and sd: "scan_tree (dyn_dtree s) (d_max_code s) bl1 = (?dt, bl2)"
    by (simp_all add: prod_eq_iff bl1_def bl2_def scan_tree_def Let_def)
  have lb: "BL_CODES \<le> length (bl_tree s)" "BL_CODES \<le> length bl1" "length bl2 = 2 * BL_CODES + 1"
    using bl(1) scan_tree_result(2) [OF tl, of "bl_tree s"] scan_tree_result(2) [OF td, of bl1] by (simp_all add: bl1_def bl2_def)
  have dec: "decode_lens (- 1) ?cl = Some ?ll" "decode_lens (- 1) ?cd = Some ?dls"
    using guarded_runs(2) [OF gl(1)] guarded_runs(2) [OF gd(1)] gl(3,4) gd(3,4) by simp_all
  have short: "length (?cl @ ?cd) < 65536"
    using decode_codes_le [OF dec(1)] decode_codes_le [OF dec(2)] gl(5) gd(5) by (simp add: descs code_counts)
  have freq: "Freq (bl2 ! c) = of_nat (count_list (map fst (?cl @ ?cd)) c)" if "c < BL_CODES" for c
    using that bl(2) scan_tree_result(3) [OF tl lb(1), of c] scan_tree_result(3) [OF td lb(2), of c] by (simp add: bl1_def bl2_def)
  have used: "Freq (bl2 ! fst cx) \<noteq> 0" if "cx \<in> set (?cl @ ?cd)" "fst cx < BL_CODES" for cx
    unfolding freq [OF that(2)] using that(1) short by (intro count_nonzero) auto
  have small: "fst cx \<le> 18 \<and> snd cx < 2 ^ (extra_blbits ! fst cx)" if "cx \<in> set (?cl @ ?cd)" for cx
    using that runs_codes_small [OF guarded_runs(1) [OF gl(1)], of cx] runs_codes_small [OF guarded_runs(1) [OF gd(1)], of cx]
    unfolding tree_codes_def by (metis Un_iff set_append)
  obtain tr mc cnt where b: "build_tree static_bl_desc bl2 (opt_len s) (static_len s) = Some (tr, mc, cnt,
      opt_len s + tree_cost static_bl_desc bl2 (node_len tr), static_len s + tree_static_cost static_bl_desc bl2)"
    "tree_built static_bl_desc bl2 tr mc"
    using build_tree_result [OF descs_ok(3), of bl2 "opt_len s" "static_len s"] lb(3) unfolding descs by blast
  have trl: "length tr = 2 * BL_CODES + 1" using b(2) lb(3) by (simp add: tree_built_def)
  note bb = built_bl [OF b(2) trl]
  define mb where "mb = last_blindex tr 18"
  have mb: "mb \<le> 18" "2 \<le> mb" "\<And>k. mb < k \<Longrightarrow> k \<le> 18 \<Longrightarrow> Len (tr ! (bl_order ! k)) = 0"
    using last_blindex_props [of tr 18] by (auto simp: mb_def)
  have "END_BLOCK < elems static_l_desc" by (simp add: descs code_counts END_BLOCK_def)
  then have "has_code ?ll END_BLOCK" using l(3) by (rule gl(7))
  then have eob: "256 < length ?ll" "?ll ! 256 \<noteq> 0" by (simp_all add: has_code_def END_BLOCK_def)
  have "mb \<noteq> 2"
  proof
    assume "mb = 2"
    have "\<not> set ?ll \<subseteq> {0}" using nth_mem [OF eob(1)] eob(2) by (metis singletonD subsetD)
    then obtain cx where cx: "cx \<in> set ?cl" "fst cx < 16" using decode_needs_length [OF dec(1)] by fastforce
    then have "cx \<in> set (?cl @ ?cd)" "fst cx < BL_CODES" "fst cx < 19" by (simp_all add: code_counts)
    then have "has_code (bl_lens tr) (fst cx)" by (intro bb(4) used)
    then have "Len (tr ! fst cx) \<noteq> 0" using cx(2) by (auto simp: has_code_def bl_lens_def)
    moreover obtain i where "i < 19" "bl_order ! i = fst cx" "3 \<le> i" using bl_order_facts(2) [rule_format, of "fst cx"] cx(2) by auto
    ultimately show False using mb(3) [of i] \<open>mb = 2\<close> by simp
  qed
  with mb have mb3: "3 \<le> mb" by simp
  have syms: "bl_sym_ok (bl_lens tr) cx" if "cx \<in> set (?cl @ ?cd)" for cx
  proof -
    have "fst cx < BL_CODES" "fst cx < 19" using small [OF that] by (simp_all add: code_counts)
    then have "has_code (bl_lens tr) (fst cx)" by (intro bb(4) used that)
    then show ?thesis using small [OF that] by (simp add: bl_sym_ok_def)
  qed
  define s' where "s' = s\<lparr>dyn_ltree := ?lt, dyn_dtree := ?dt, bl_tree := tr, bl_max_code := mc, bl_count := cnt,
    opt_len := opt_len s + tree_cost static_bl_desc bl2 (node_len tr) + (3 * (of_nat mb + 1) + 5 + 5 + 4),
    static_len := static_len s + tree_static_cost static_bl_desc bl2\<rparr>"
  have num: "257 \<le> length ?ll" "length ?ll \<le> 286" "1 \<le> length ?dls" "length ?dls \<le> 30"
    "l_max_code s = int (length ?ll) - 1" "d_max_code s = int (length ?dls) - 1"
    using eob(1) gl(5) gd(5,6) gl(3) gd(3) tl(1) td(1) by (simp_all add: descs code_counts)
  have f: "dyn_ltree s' = ?lt" "dyn_dtree s' = ?dt" "l_max_code s' = l_max_code s" "d_max_code s' = d_max_code s" "bl_tree s' = tr"
    by (simp_all add: s'_def)
  have "header_ok s' mb ?ll ?dls"
    unfolding header_ok_def f
    by (intro conjI num gl(1,2,4) gd(1,2,4) bb(1-3) mb3 mb(1) ballI syms) (use mb(3) in auto)
  moreover have "build_bl_tree s = Some (s', mb)"
    by (simp add: build_bl_tree_def sl sd b(1) s'_def Let_def mb_def BL_CODES_def)
  moreover have "length tr = length (bl_tree s)" using trl bl(1) by simp
  ultimately show ?thesis unfolding s'_def Let_def by blast
qed

section \<open>Blocks\<close>

text \<open>What no operation of the block encoder touches.\<close>

definition block_frame :: "'a tree_state_scheme \<Rightarrow> 'a tree_state_scheme \<Rightarrow> bool" where
  "block_frame s s' \<longleftrightarrow> tree_state.more s' = tree_state.more s \<and> level s' = level s \<and> strategy s' = strategy s
     \<and> sym_buf s' = sym_buf s \<and> sym_end s' = sym_end s \<and> length (dyn_ltree s') = length (dyn_ltree s)
     \<and> length (dyn_dtree s') = length (dyn_dtree s) \<and> length (bl_tree s') = length (bl_tree s)"

lemma block_frame_refl: "block_frame s s" by (simp add: block_frame_def)

lemma block_frame_trans: "block_frame s s' \<Longrightarrow> block_frame s' s'' \<Longrightarrow> block_frame s s''"
  by (simp add: block_frame_def)

lemma more_block_frame:
  assumes "bit_state.more s' = bit_state.more (s :: 'a tree_state_scheme)"
  shows "block_frame s s'"
  by (simp add: block_frame_def more_fields [OF assms])

text \<open>The codes that a block is written with.\<close>

definition block_codes :: "tree \<Rightarrow> tree \<Rightarrow> nat list \<Rightarrow> nat list \<Rightarrow> (nat \<times> nat) list \<Rightarrow> bool" where
  "block_codes ltree dtree ll dls ss \<longleftrightarrow> describes ltree ll \<and> describes dtree dls \<and> has_code ll END_BLOCK
     \<and> (\<forall>sy \<in> set ss. sym_has_codes ll dls sy)
     \<and> (\<forall>m. has_code ll m \<longrightarrow> code_ok (ltree ! m)) \<and> (\<forall>m. has_code dls m \<longrightarrow> code_ok (dtree ! m))"

lemma tallied_snd: "sy \<in> set (tallied s) \<Longrightarrow> snd sy < 256"
  by (auto simp: tallied_def syms_def sym_at_lc)

lemma codes_trees_ok:
  assumes "block_codes ltree dtree ll dls ss"
  shows "trees_ok ltree dtree ss"
  using assms by (fastforce simp: block_codes_def trees_ok_def sym_ok_def sym_has_codes_def lit_code_def split: if_splits)

definition coded_bits :: "tree \<Rightarrow> tree \<Rightarrow> (nat \<times> nat) list \<Rightarrow> bool list" where
  "coded_bits ltree dtree ss = concat (map (sym_bits ltree dtree) ss) @ code_bits (ltree ! END_BLOCK)"

lemma read_coded:
  assumes "block_codes ltree dtree ll dls ss"
  shows "read_items ll dls (coded_bits ltree dtree ss @ rest) = Some (ss, rest)"
  using assms read_items_syms by (simp add: block_codes_def coded_bits_def)

definition syms_inv :: "'a tree_state_scheme \<Rightarrow> bool" where
  "syms_inv s \<longleftrightarrow> 3 dvd sym_next s \<and> sym_next s < length (sym_buf s) \<and> syms_ok (tallied s)"

lemma tally_syms_inv: "tally_inv s \<Longrightarrow> syms_inv s"
  by (simp add: tally_inv_def syms_inv_def)

lemma compress_block_emits:
  assumes inv: "syms_inv s" and b: "bit_inv s" and codes: "block_codes ltree dtree ll dls (tallied s)"
  shows "emits (coded_bits ltree dtree (tallied s)) s (compress_block ltree dtree s)"
proof -
  obtain n where n: "sym_next s = 3 * n" using inv by (auto simp: syms_inv_def)
  have t: "tallied s = syms (sym_buf s) n" by (simp add: tallied_def n)
  have buf: "3 * n < length (sym_buf s)" "syms_ok (syms (sym_buf s) n)" using inv n t by (simp_all add: syms_inv_def)
  let ?s = "compress_loop ltree dtree (sym_buf s) (sym_next s) 0 s"
  have e1: "emits (concat (map (sym_bits ltree dtree) (tallied s))) s ?s"
    using compress_loop_written [OF codes_trees_ok [OF codes, unfolded t] buf, of 0] b by (simp add: emits_def n t)
  have "code_ok (ltree ! END_BLOCK)" using codes by (simp add: block_codes_def)
  then have "emits (code_bits (ltree ! END_BLOCK)) ?s (zng_emit_end_block ltree ?s)"
    using emits_send_code [OF emits_inv [OF e1]] by (simp add: zng_emit_end_block_def)
  with e1 show ?thesis using emits_trans by (fastforce simp: compress_block_def coded_bits_def)
qed

lemma static_codes: "syms_inv s \<Longrightarrow> block_codes static_ltree static_dtree fixed_lens fixed_dists (tallied s)"
proof -
  assume inv: "syms_inv s"
  have ok: "code_ok (static_ltree ! m)" if "m < 288" for m
  proof -
    have l: "static_lens ! m \<le> 9" using static_canonical(1) [OF that] by auto
    then have "unat (of_nat (static_lens ! m) :: u16) = static_lens ! m" by (simp add: unat_of_nat)
    then show ?thesis using l by (simp add: code_ok_def static_ltree_nth [OF that] bi_reverse_fits)
  qed
  have "code_ok (static_dtree ! m)" if "m < 30" for m
    using that by (simp add: code_ok_def static_dtree_nth bi_reverse_fits)
  moreover have "has_code fixed_lens END_BLOCK"
    using static_canonical(1) [of 256] by (simp add: has_code_def END_BLOCK_def fixed_lens_static) (simp add: static_lens_def)
  moreover have "sym_has_codes fixed_lens fixed_dists sy" if "sy \<in> set (tallied s)" for sy
  proof (rule static_has_codes [OF _ tallied_snd [OF that]])
    show "fst sy \<le> 32768" using inv that unfolding syms_inv_def syms_ok_def by blast
  qed
  moreover have "length fixed_lens = 288" "length fixed_dists = 30" by (simp_all add: fixed_lens_def fixed_dists_def)
  ultimately show ?thesis
    using ok static_ltree_describes static_dtree_describes unfolding block_codes_def by (simp add: has_code_def)
qed

text \<open>The three header bits.\<close>

lemma header3:
  "word_bits 3 (of_nat (STORED_BLOCK * 2 + of_bool fin) :: u64) = [fin, False, False]"
  "word_bits 3 (of_nat (STATIC_TREES * 2 + of_bool fin) :: u64) = [fin, True, False]"
  "word_bits 3 (of_nat (DYN_TREES * 2 + of_bool fin) :: u64) = [fin, False, True]"
  by (cases fin; simp add: word_bits_def upt_rec bit_iff_odd STORED_BLOCK_def STATIC_TREES_def DYN_TREES_def)+

lemma emit_tree_emits:
  assumes "bit_inv s" and "type \<in> {STORED_BLOCK, STATIC_TREES, DYN_TREES}"
  shows "emits (word_bits 3 (of_nat (type * 2 + of_bool fin) :: u64)) s (zng_tr_emit_tree type fin s)"
  unfolding zng_tr_emit_tree_def using assms
  by (intro emits_send_bits) (auto simp: STORED_BLOCK_def STATIC_TREES_def DYN_TREES_def)

lemma read_block_bits:
  "read_bits 1 (b # bs) = Some (of_bool b, bs)" "read_bits 2 (b # c # bs) = Some (of_bool b + 2 * of_bool c, bs)"
  by (simp_all add: read_bits_def eval_nat_numeral)

lemma read_static_block:
  "read_items fixed_lens fixed_dists bs = Some (ss, rest) \<Longrightarrow> read_block pos ([fin, True, False] @ bs) = Some (fin, Coded ss, rest)"
  by (simp add: read_block_def read_block_bits del: One_nat_def)

lemma read_dynamic_block:
  "read_header bs = Some (ll, dls, bs') \<Longrightarrow> read_items ll dls bs' = Some (ss, rest) \<Longrightarrow>
    read_block pos ([fin, False, True] @ bs) = Some (fin, Coded ss, rest)"
  by (simp add: read_block_def read_block_bits del: One_nat_def)

section \<open>Stored blocks\<close>

lemma read_many_bytes: "read_many 8 (length bs) (bytes_bits bs @ rest) = Some (map unat bs, rest)"
proof (induction bs)
  case (Cons b bs)
  have "read_bits 8 (word_bits 8 b @ r) = Some (unat b, r)" for r
    using read_bits_word [of 8 b r] by (simp add: unat_take_bit_mod)
  with Cons show ?case by simp
qed simp

lemma unat_not16: "unat (NOT v) = 65535 - unat v" for v :: u16
proof -
  have "NOT v = - 1 - v" by (simp add: not_eq_complement)
  moreover have "unat (- 1 - v) = unat (- 1 :: u16) - unat v" by (rule unat_sub) (rule word_order.extremum)
  moreover have "unat (- 1 :: u16) = 65535" by (simp add: unsigned_minus_1_eq_mask mask_eq_exp_minus_1)
  ultimately show ?thesis by simp
qed

definition stored_bits :: "nat \<Rightarrow> bool \<Rightarrow> bytes \<Rightarrow> bool list" where
  "stored_bits pos fin data = [fin, False, False] @ replicate (nat (- int (pos + 3) mod 8)) False
     @ word_bits 16 (of_nat (length data) :: u16) @ word_bits 16 (NOT (of_nat (length data)) :: u16) @ bytes_bits data"

lemma stored_block_emits:
  assumes b: "bit_inv s" and len: "unat stored_len \<le> length buf" "unat stored_len \<le> 65535"
  shows "emits (stored_bits (length (written s)) fin (take (unat stored_len) buf)) s (zng_tr_stored_block buf stored_len fin s)"
proof -
  let ?data = "take (unat stored_len) buf"
  define s1 where "s1 = zng_tr_emit_tree STORED_BLOCK fin s"
  define s2 where "s2 = zng_tr_emit_align s1"
  define s3 where "s3 = put_short (ucast (NOT stored_len)) (put_short (ucast stored_len) s2)"
  have e1: "emits [fin, False, False] s s1"
    unfolding s1_def header3(1) [symmetric] using b by (intro emit_tree_emits) simp_all
  have w1: "length (written s1) = length (written s) + 3" using e1 by (simp add: emits_def)
  have e2: "emits (replicate (nat (- int (length (written s) + 3) mod 8)) False) s1 s2"
    unfolding s2_def using emits_align [OF emits_inv [OF e1]] by (simp add: w1)
  have v: "bi_valid s2 = 0" using bi_windup_written [OF emits_inv [OF e1]] by (simp add: s2_def zng_tr_emit_align_def)
  then have w: "written s2 = bytes_bits (pending_buf s2)" by (simp add: written_def)
  have c: "(ucast stored_len :: u16) = of_nat (length ?data)" "(ucast (NOT stored_len) :: u16) = NOT (of_nat (length ?data))"
  proof -
    show *: "(ucast stored_len :: u16) = of_nat (length ?data)" using len(1) by (simp add: min_absorb2)
    show "(ucast (NOT stored_len) :: u16) = NOT (of_nat (length ?data))"
      unfolding * [symmetric] by (rule bit_word_eqI) (simp add: bit_ucast_iff bit_not_iff)
  qed
  define s4 where "s4 = s3\<lparr>pending_buf := pending_buf s3 @ ?data\<rparr>"
  have p4: "pending_buf s4 = pending_buf s2 @ le_bytes 2 (ucast stored_len :: u16) @ le_bytes 2 (ucast (NOT stored_len) :: u16) @ ?data"
    "bi_valid s4 = 0" "bi_buf s4 = bi_buf s2"
    using v by (simp_all add: s4_def s3_def stream_simps)
  have "written s4 = written s2 @ word_bits 16 (of_nat (length ?data) :: u16) @ word_bits 16 (NOT (of_nat (length ?data)) :: u16) @ bytes_bits ?data"
    unfolding written_def p4 w [unfolded written_def] using v by (simp add: bytes_bits_le_bytes c)
  moreover have "bit_inv s4" using emits_inv [OF e2] v p4 by (simp add: bit_inv_def)
  moreover have "bit_state.more s4 = bit_state.more s2" by (simp add: s4_def s3_def)
  ultimately have e4: "emits (word_bits 16 (of_nat (length ?data) :: u16) @ word_bits 16 (NOT (of_nat (length ?data)) :: u16) @ bytes_bits ?data) s2 s4"
    by (simp add: emits_def)
  have "zng_tr_stored_block buf stored_len fin s = s4"
    by (simp add: zng_tr_stored_block_def Let_def s1_def s2_def s3_def s4_def)
  then show ?thesis using emits_trans [OF e1 emits_trans [OF e2 e4]] by (simp add: stored_bits_def)
qed

lemma read_stored_block:
  assumes "length data \<le> 65535"
  shows "read_block pos (stored_bits pos fin data @ rest) = Some (fin, Stored data, rest)"
proof -
  have p: "read_bits n (replicate n False @ r) = Some (horner_sum of_bool 2 (replicate n False), r)" for n r
    by (simp add: read_bits_def)
  have u: "unat (of_nat (length data) :: u16) = length data" using assms by (simp add: unat_of_nat)
  have l: "read_bits 16 (word_bits 16 (of_nat (length data) :: u16) @ r) = Some (length data, r)"
    "read_bits 16 (word_bits 16 (NOT (of_nat (length data)) :: u16) @ r) = Some (65535 - length data, r)" for r
  proof -
    show "read_bits 16 (word_bits 16 (of_nat (length data) :: u16) @ r) = Some (length data, r)"
      using read_bits_word [of 16 "of_nat (length data) :: u16" r] u assms by (simp add: unat_take_bit_mod)
    have "unat (NOT (of_nat (length data)) :: u16) = 65535 - length data"
      by (simp add: unat_not16 u)
    then show "read_bits 16 (word_bits 16 (NOT (of_nat (length data)) :: u16) @ r) = Some (65535 - length data, r)"
      using read_bits_word [of 16 "NOT (of_nat (length data)) :: u16" r] by (simp add: unat_take_bit_mod)
  qed
  have s: "length data + (65535 - length data) = 65535" using assms by simp
  have d: "map of_nat (map unat data) = data" by (simp add: o_def)
  show ?thesis
    unfolding read_block_def stored_bits_def append_assoc append_Cons append_Nil read_block_bits Option.bind.bind_lunit prod.case p l s
      read_many_bytes
    by (simp add: d o_def)
qed

section \<open>The choice of the block\<close>

definition same_input :: "'a tree_state_scheme \<Rightarrow> 'a tree_state_scheme \<Rightarrow> bool" where
  "same_input s s' \<longleftrightarrow> block_frame s s' \<and> sym_next s' = sym_next s \<and> pending_buf s' = pending_buf s \<and> bi_buf s' = bi_buf s
     \<and> bi_valid s' = bi_valid s"

lemma same_input_facts:
  assumes "same_input s s'"
  shows "tallied s' = tallied s" and "syms_inv s' = syms_inv s" and "written s' = written s" and "bit_inv s' = bit_inv s"
  using assms by (simp_all add: same_input_def block_frame_def tallied_def syms_inv_def written_def bit_inv_def)

lemma dynamic_trees:
  assumes inv: "tally_inv s" and short: "length (tallied s) < 65535"
  shows "\<exists>s2 s' mb ll dls. Option.bind (build_l_tree s) build_d_tree = Some s2 \<and> build_bl_tree s2 = Some (s', mb)
    \<and> header_ok s' mb ll dls \<and> block_codes (dyn_ltree s') (dyn_dtree s') ll dls (tallied s) \<and> same_input s s'"
proof -
  have len: "length (dyn_ltree s) = 2 * L_CODES + 1" "length (dyn_dtree s) = 2 * D_CODES + 1" "length (bl_tree s) = 2 * BL_CODES + 1"
    and freq: "\<And>n. n < L_CODES \<Longrightarrow> Freq (dyn_ltree s ! n) = of_nat (count_list (END_BLOCK # map lit_code (tallied s)) n)"
      "\<And>n. n < D_CODES \<Longrightarrow> Freq (dyn_dtree s ! n) = of_nat (count_list (dist_codes (tallied s)) n)"
    and bl: "\<forall>n < BL_CODES. Freq (bl_tree s ! n) = 0" and ok: "syms_ok (tallied s)"
    using inv by (simp_all add: tally_inv_def)
  obtain lt lmc lcnt where l: "build_tree static_l_desc (dyn_ltree s) (opt_len s) (static_len s) = Some (lt, lmc, lcnt,
      opt_len s + tree_cost static_l_desc (dyn_ltree s) (node_len lt), static_len s + tree_static_cost static_l_desc (dyn_ltree s))"
    "tree_built static_l_desc (dyn_ltree s) lt lmc"
    using build_tree_result [OF descs_ok(1), of "dyn_ltree s" "opt_len s" "static_len s"] len unfolding descs by blast
  define s1 where "s1 = s\<lparr>dyn_ltree := lt, l_max_code := lmc, bl_count := lcnt,
    opt_len := opt_len s + tree_cost static_l_desc (dyn_ltree s) (node_len lt),
    static_len := static_len s + tree_static_cost static_l_desc (dyn_ltree s)\<rparr>"
  have b1: "build_l_tree s = Some s1" by (simp add: build_l_tree_def l(1) s1_def)
  have "length (dyn_dtree s1) = 2 * elems static_d_desc + 1" using len by (simp add: s1_def descs)
  then obtain dt dmc dcnt where d: "build_tree static_d_desc (dyn_dtree s1) (opt_len s1) (static_len s1) = Some (dt, dmc, dcnt,
      opt_len s1 + tree_cost static_d_desc (dyn_dtree s1) (node_len dt), static_len s1 + tree_static_cost static_d_desc (dyn_dtree s1))"
    "tree_built static_d_desc (dyn_dtree s1) dt dmc"
    using build_tree_result [OF descs_ok(2), of "dyn_dtree s1" "opt_len s1" "static_len s1"] by blast
  define s2 where "s2 = s1\<lparr>dyn_dtree := dt, d_max_code := dmc, bl_count := dcnt,
    opt_len := opt_len s1 + tree_cost static_d_desc (dyn_dtree s1) (node_len dt),
    static_len := static_len s1 + tree_static_cost static_d_desc (dyn_dtree s1)\<rparr>"
  have b2: "build_d_tree s1 = Some s2" by (simp add: build_d_tree_def d(1) s2_def)
  have f: "dyn_ltree s2 = lt" "l_max_code s2 = lmc" "dyn_dtree s2 = dt" "d_max_code s2 = dmc" "bl_tree s2 = bl_tree s"
    "dyn_dtree s1 = dyn_dtree s"
    by (simp_all add: s2_def s1_def)
  have ll: "length lt = 2 * L_CODES + 1" "length dt = 2 * D_CODES + 1" using l(2) d(2) len by (simp_all add: tree_built_def f)
  have used_l: "Freq (dyn_ltree s ! n) \<noteq> 0" if "n < L_CODES" "n \<in> set (END_BLOCK # map lit_code (tallied s))" for n
    unfolding freq(1) [OF that(1)] using that(2) short by (intro count_nonzero) simp_all
  have used_d: "Freq (dyn_dtree s ! n) \<noteq> 0" if "n < D_CODES" "n \<in> set (dist_codes (tallied s))" for n
  proof -
    have "length (dist_codes (tallied s)) \<le> length (tallied s)" by (simp add: dist_codes_def)
    then show ?thesis unfolding freq(2) [OF that(1)] using that(2) short by (intro count_nonzero) linarith+
  qed
  have eob: "Freq (dyn_ltree s ! END_BLOCK) \<noteq> 0" by (rule used_l) (simp_all add: code_counts END_BLOCK_def)
  let ?ll = "tree_lens lt (nat (lmc + 1))" and ?dls = "tree_lens dt (nat (dmc + 1))"
  obtain blt bmc bcnt ol sl mb where b3: "build_bl_tree s2 = Some (s2\<lparr>dyn_ltree := set_guard lt lmc, dyn_dtree := set_guard dt dmc,
      bl_tree := blt, bl_max_code := bmc, bl_count := bcnt, opt_len := ol, static_len := sl\<rparr>, mb)" "length blt = length (bl_tree s)"
    "header_ok (s2\<lparr>dyn_ltree := set_guard lt lmc, dyn_dtree := set_guard dt dmc, bl_tree := blt, bl_max_code := bmc, bl_count := bcnt,
      opt_len := ol, static_len := sl\<rparr>) mb ?ll ?dls"
    using build_bl_tree_header [of "dyn_ltree s" s2 "dyn_dtree s1"] l(2) d(2) ll eob len bl unfolding f Let_def by blast
  define s' where "s' = s2\<lparr>dyn_ltree := set_guard lt lmc, dyn_dtree := set_guard dt dmc, bl_tree := blt, bl_max_code := bmc,
    bl_count := bcnt, opt_len := ol, static_len := sl\<rparr>"
  have L: "max_length static_l_desc \<le> 15" "max_length static_d_desc \<le> 15" by (simp_all add: descs)
  note gl = built_guard [OF l(2) L(1) ll(1) [folded descs(1)]] and gd = built_guard [OF d(2) L(2) ll(2) [folded descs(2)]]
  have hd: "has_code ?dls (d_code (fst sy - 1))" if "sy \<in> set (tallied s)" "fst sy \<noteq> 0" for sy
  proof -
    have "fst sy \<le> 32768" using ok that by (auto simp: syms_ok_def)
    then have "d_code (fst sy - 1) < 30" using d_code_base [of "fst sy - 1"] that(2) by simp
    moreover have "d_code (fst sy - 1) \<in> set (dist_codes (tallied s))" using that
      by (auto simp: dist_codes_def case_prod_beta intro!: image_eqI [where x = sy])
    ultimately show ?thesis using used_d gd(7) by (simp add: f descs code_counts)
  qed
  have "has_code ?ll (lit_code sy)" if "sy \<in> set (tallied s)" for sy
  proof -
    have "lit_code sy < L_CODES" using lit_code_less [OF tallied_snd [OF that]] by simp
    moreover have "lit_code sy \<in> set (END_BLOCK # map lit_code (tallied s))" using that by simp
    ultimately show ?thesis using used_l gl(7) by (simp add: descs)
  qed
  with hd have "\<forall>sy \<in> set (tallied s). sym_has_codes ?ll ?dls sy"
    using ok tallied_snd unfolding sym_has_codes_def syms_ok_def by blast
  moreover have "has_code ?ll END_BLOCK" using gl(7) [OF _ eob] by (simp add: descs code_counts END_BLOCK_def)
  ultimately have "block_codes (set_guard lt lmc) (set_guard dt dmc) ?ll ?dls (tallied s)"
    using gl(2,8) gd(2,8) unfolding block_codes_def by blast
  then have "block_codes (dyn_ltree s') (dyn_dtree s') ?ll ?dls (tallied s)" by (simp add: s'_def)
  moreover have "same_input s s'"
    using gl(9) gd(9) ll len b3(2) by (simp add: same_input_def block_frame_def s'_def s2_def s1_def)
  moreover have "Option.bind (build_l_tree s) build_d_tree = Some s2" by (simp add: b1 b2)
  ultimately show ?thesis using b3(1,3) unfolding s'_def [symmetric] by blast
qed

lemma block_lengths_input:
  assumes "tally_inv s" and "length (tallied s) < 65535"
  obtains s' opt_lenb static_lenb mb where "block_lengths stored_len s = Some (s', opt_lenb, static_lenb, mb)" and "same_input s s'"
    and "static_lenb \<noteq> opt_lenb \<Longrightarrow> \<exists>ll dls. header_ok s' mb ll dls \<and> block_codes (dyn_ltree s') (dyn_dtree s') ll dls (tallied s)"
proof (cases "sym_next s = 0 \<or> \<not> level s > 0")
  case True
  have "same_input s s" "same_input s (s\<lparr>static_len := 7\<rparr>)" by (simp_all add: same_input_def block_frame_def)
  then show thesis using True that by (cases "sym_next s = 0") (auto simp: block_lengths_def)
next
  case False
  define s0 where "s0 = (if data_type s = Z_UNKNOWN then s\<lparr>data_type := detect_data_type (dyn_ltree s)\<rparr> else s)"
  have s0: "tallied s0 = tallied s" "tally_inv s0 = tally_inv s" "same_input s s0"
    by (simp_all add: s0_def tallied_def tally_inv_def same_input_def block_frame_def)
  obtain s2 s' mb ll dls where d: "Option.bind (build_l_tree s0) build_d_tree = Some s2" "build_bl_tree s2 = Some (s', mb)"
    "header_ok s' mb ll dls" "block_codes (dyn_ltree s') (dyn_dtree s') ll dls (tallied s)" "same_input s0 s'"
    using dynamic_trees [of s0] assms unfolding s0 by blast
  have "same_input s s'" using s0(3) d(5) block_frame_trans unfolding same_input_def by metis
  then show thesis
    using d(3,4) False that by (auto simp: block_lengths_def d(1,2) Let_def simp flip: s0_def)
qed

text \<open>What a block with a header and a body looks like to the decoder.\<close>

definition block_bits :: "nat \<Rightarrow> bool \<Rightarrow> block \<Rightarrow> bool list \<Rightarrow> bool" where
  "block_bits pos fin b bs \<longleftrightarrow> (\<forall>rest. read_block pos (bs @ rest) = Some (fin, b, rest))"

lemma static_block_emits:
  assumes "syms_inv s" and "bit_inv s"
  obtains bs where "emits bs s (compress_block static_ltree static_dtree (zng_tr_emit_tree STATIC_TREES fin s))"
    and "block_bits pos fin (Coded (tallied s)) bs"
proof -
  let ?s = "zng_tr_emit_tree STATIC_TREES fin s"
  have e1: "emits [fin, True, False] s ?s"
    unfolding header3(2) [symmetric] using assms(2) by (intro emit_tree_emits) simp_all
  then have m: "bit_state.more ?s = bit_state.more s" by (simp add: emits_def)
  have i: "syms_inv ?s" "tallied ?s = tallied s" using assms(1) by (simp_all add: syms_inv_def more_fields [OF m])
  note c = static_codes [OF i(1)]
  show thesis
  proof (rule that [OF emits_trans [OF e1 compress_block_emits [OF i(1) emits_inv [OF e1] c]]])
    show "block_bits pos fin (Coded (tallied s)) ([fin, True, False] @ coded_bits static_ltree static_dtree (tallied ?s))"
      using read_static_block [OF read_coded [OF c]] by (simp add: block_bits_def i(2))
  qed
qed

lemma dynamic_block_emits:
  assumes "syms_inv s" and "bit_inv s" and h: "header_ok s mb ll dls" and c: "block_codes (dyn_ltree s) (dyn_dtree s) ll dls (tallied s)"
  obtains bs where "emits bs s (let s = zng_tr_emit_tree DYN_TREES fin s; s = send_all_trees (l_max_code s + 1) (d_max_code s + 1) (mb + 1) s
      in compress_block (dyn_ltree s) (dyn_dtree s) s)"
    and "block_bits pos fin (Coded (tallied s)) bs"
proof -
  define s1 where "s1 = zng_tr_emit_tree DYN_TREES fin s"
  define s2 where "s2 = send_all_trees (l_max_code s1 + 1) (d_max_code s1 + 1) (mb + 1) s1"
  let ?cs = "tree_codes (dyn_ltree s) (l_max_code s) @ tree_codes (dyn_dtree s) (d_max_code s)"
  have e1: "emits [fin, False, True] s s1"
    unfolding s1_def header3(3) [symmetric] using assms(2) by (intro emit_tree_emits) simp_all
  then have m1: "bit_state.more s1 = bit_state.more s" by (simp add: emits_def)
  note f1 = more_fields [OF m1]
  have "header_ok s1 mb ll dls" using h unfolding header_ok_def f1 .
  note e2 = emits_all_trees [OF this emits_inv [OF e1], folded s2_def, unfolded f1]
  have m2: "bit_state.more s2 = bit_state.more s" using e2 m1 by (simp add: emits_def)
  note f2 = more_fields [OF m2]
  have i: "syms_inv s2" using assms(1) by (simp add: syms_inv_def f2)
  have e3: "emits (coded_bits (dyn_ltree s) (dyn_dtree s) (tallied s)) s2 (compress_block (dyn_ltree s2) (dyn_dtree s2) s2)"
    using compress_block_emits [OF i emits_inv [OF e2], of "dyn_ltree s2" "dyn_dtree s2"] c by (simp add: f2)
  have hdr: "read_header (header_bits (length ll) (length dls) (mb + 1) (bl_tree s) ?cs @ r) = Some (ll, dls, r)" for r
  proof (rule read_header_bits)
    show "decode_lens (- 1) ?cs = Some (ll @ dls)" by (rule header_decodes [OF h])
  qed (use h in \<open>auto simp: header_ok_def\<close>)
  show thesis
  proof (rule that)
    show "emits ([fin, False, True] @ header_bits (length ll) (length dls) (mb + 1) (bl_tree s) ?cs @ coded_bits (dyn_ltree s) (dyn_dtree s) (tallied s)) s
        (let s = zng_tr_emit_tree DYN_TREES fin s; s = send_all_trees (l_max_code s + 1) (d_max_code s + 1) (mb + 1) s
         in compress_block (dyn_ltree s) (dyn_dtree s) s)"
      using emits_trans [OF e1 emits_trans [OF e2 e3]] by (simp add: Let_def s1_def s2_def)
    show "block_bits pos fin (Coded (tallied s))
        ([fin, False, True] @ header_bits (length ll) (length dls) (mb + 1) (bl_tree s) ?cs @ coded_bits (dyn_ltree s) (dyn_dtree s) (tallied s))"
      unfolding block_bits_def append_assoc using read_dynamic_block [OF hdr read_coded [OF c]] by (simp add: append_assoc)
  qed
qed

section \<open>Flushing a block\<close>

text \<open>What a flush leaves behind, and what its output means: the bits of a block \<open>b\<close> and the padding of the last block.\<close>

definition flushed :: "bool \<Rightarrow> block \<Rightarrow> 'a tree_state_scheme \<Rightarrow> 'a tree_state_scheme \<Rightarrow> bool" where
  "flushed fin b s s' \<longleftrightarrow> (\<exists>bs. block_bits (length (written s)) fin b bs
     \<and> written s' = written s @ bs @ (if fin then replicate (nat (- int (length (written s @ bs)) mod 8)) False else [])
     \<and> bit_inv s' \<and> tally_inv s' \<and> tallied s' = [] \<and> block_frame s s')"

lemma init_block_bits:
  "written (init_block s) = written s" "bit_inv (init_block s) = bit_inv s"
  by (simp_all add: init_block_def Let_def written_def bit_inv_def)

lemma init_block_frame:
  assumes "length (dyn_ltree s) = 2 * L_CODES + 1" "length (dyn_dtree s) = 2 * D_CODES + 1" "length (bl_tree s) = 2 * BL_CODES + 1"
  shows "block_frame s (init_block s)"
proof -
  have z: "length (zero_freqs L_CODES (dyn_ltree s)) = length (dyn_ltree s)" "length (zero_freqs D_CODES (dyn_dtree s)) = length (dyn_dtree s)"
    "length (zero_freqs BL_CODES (bl_tree s)) = length (bl_tree s)"
    using zero_freqs_nth [of L_CODES "dyn_ltree s" 0] zero_freqs_nth [of D_CODES "dyn_dtree s" 0] zero_freqs_nth [of BL_CODES "bl_tree s" 0] assms
    by simp_all
  then show ?thesis by (simp add: block_frame_def init_block_def Let_def)
qed

lemma finish_flush:
  assumes inv: "tally_inv s" and si: "same_input s s1" and e: "emits bs s1 s2" and b: "block_bits (length (written s)) fin b bs"
  defines "s3 \<equiv> init_block s2"
  shows "flushed fin b s (if fin then zng_tr_emit_align s3 else s3)"
proof -
  have m2: "bit_state.more s2 = bit_state.more s1" using e by (simp add: emits_def)
  have fr: "block_frame s s2" using si more_block_frame [OF m2] block_frame_trans unfolding same_input_def by blast
  have len: "length (dyn_ltree s2) = 2 * L_CODES + 1" "length (dyn_dtree s2) = 2 * D_CODES + 1" "length (bl_tree s2) = 2 * BL_CODES + 1"
    "3 dvd sym_end s2" "sym_end s2 + 4 \<le> length (sym_buf s2)"
    using inv fr by (simp_all add: tally_inv_def block_frame_def)
  note i = init_block_inv [OF len, folded s3_def]
  have fr3: "block_frame s s3" unfolding s3_def using fr init_block_frame [OF len(1-3)] by (rule block_frame_trans)
  have w3: "written s3 = written s @ bs" "bit_inv s3"
    using e same_input_facts [OF si] by (simp_all add: s3_def init_block_bits emits_def)
  show ?thesis
  proof (cases fin)
    case False
    then show ?thesis using b i w3 fr3 unfolding flushed_def by (intro exI [of _ bs]) simp
  next
    case True
    have a: "emits (replicate (nat (- int (length (written s3)) mod 8)) False) s3 (zng_tr_emit_align s3)" by (rule emits_align [OF w3(2)])
    then have m: "bit_state.more (zng_tr_emit_align s3) = bit_state.more s3" by simp
    have "block_frame s (zng_tr_emit_align s3)" using fr3 more_block_frame [OF m] by (rule block_frame_trans)
    then show ?thesis
      using True b i a w3(1) unfolding flushed_def by (intro exI [of _ bs]) (simp add: more_fields [OF m] emits_def)
  qed
qed

lemma flush_block_flushed:
  assumes inv: "tally_inv s" and bits: "bit_inv s" and short: "length (tallied s) < 65535"
    and buf: "\<forall>data. buf = Some data \<longrightarrow> unat stored_len \<le> length data \<and> unat stored_len \<le> 65535"
  obtains s' b where "zng_tr_flush_block buf stored_len fin s = Some s'" and "flushed fin b s s'"
    and "b = Coded (tallied s) \<or> (\<exists>data. buf = Some data \<and> b = Stored (take (unat stored_len) data))"
proof -
  obtain s1 opt_lenb static_lenb mb where bl: "block_lengths stored_len s = Some (s1, opt_lenb, static_lenb, mb)" "same_input s s1"
    "static_lenb \<noteq> opt_lenb \<Longrightarrow> \<exists>ll dls. header_ok s1 mb ll dls \<and> block_codes (dyn_ltree s1) (dyn_dtree s1) ll dls (tallied s)"
    using block_lengths_input [OF inv short] by metis
  note f = same_input_facts [OF bl(2)]
  have b1: "bit_inv s1" "syms_inv s1" using bits tally_syms_inv [OF inv] f by simp_all
  show thesis
  proof (cases "stored_len + 4 \<le> opt_lenb \<and> buf \<noteq> None")
    case True
    then obtain data where d: "buf = Some data" by auto
    have len: "unat stored_len \<le> length data" "unat stored_len \<le> 65535" using buf d by simp_all
    note e = stored_block_emits [OF b1(1) len, of fin]
    have "length (take (unat stored_len) data) \<le> 65535" using len by simp
    then have "block_bits (length (written s)) fin (Stored (take (unat stored_len) data)) (stored_bits (length (written s1)) fin (take (unat stored_len) data))"
      by (simp add: block_bits_def read_stored_block f)
    note fl = finish_flush [OF inv bl(2) e this]
    show thesis
      by (rule that [OF _ fl]) (use True d in \<open>simp_all add: zng_tr_flush_block_def bl(1) Let_def\<close>)
  next
    case False
    then have nb: "\<not> stored_len + 4 \<le> opt_lenb \<or> buf = None" by auto
    show thesis
    proof (cases "static_lenb = opt_lenb")
      case True
      obtain bs where e: "emits bs s1 (compress_block static_ltree static_dtree (zng_tr_emit_tree STATIC_TREES fin s1))"
        "block_bits (length (written s)) fin (Coded (tallied s1)) bs"
        using static_block_emits [OF b1(2,1)] by metis
      note fl = finish_flush [OF inv bl(2) e]
      show thesis
        by (rule that [OF _ fl]) (use True nb in \<open>auto simp: zng_tr_flush_block_def bl(1) Let_def f split: bool.splits\<close>)
    next
      case dyn: False
      then obtain ll dls where h: "header_ok s1 mb ll dls" "block_codes (dyn_ltree s1) (dyn_dtree s1) ll dls (tallied s1)"
        using bl(3) f(1) by auto
      obtain bs where e: "emits bs s1 (let s = zng_tr_emit_tree DYN_TREES fin s1;
          s = send_all_trees (l_max_code s + 1) (d_max_code s + 1) (mb + 1) s in compress_block (dyn_ltree s) (dyn_dtree s) s)"
        "block_bits (length (written s)) fin (Coded (tallied s1)) bs"
        using dynamic_block_emits [OF b1(2,1) h] by metis
      note fl = finish_flush [OF inv bl(2) e]
      show thesis
        by (rule that [OF _ fl]) (use dyn nb in \<open>auto simp: zng_tr_flush_block_def bl(1) Let_def f split: bool.splits\<close>)
    qed
  qed
qed

section \<open>Properties\<close>

text \<open>
  C10: Tallying a literal or a match appends exactly this symbol to the symbols that the block encoder will read back from the overlaid
  byte buffer, keeps the frequency counts equal to the statistics of the symbols, and reports a full buffer.
\<close>

theorem tally_appends:
  assumes "tally_inv s" and "sym_next s \<le> sym_end s" and "unat dist \<in> {1..32768}" and "unat len \<in> {0..<256}"
  shows "tallied (fst (zng_tr_tally_lit c s)) = tallied s @ [(0, unat c)] \<and> tally_inv (fst (zng_tr_tally_lit c s))
    \<and> tallied (fst (zng_tr_tally_dist dist len s)) = tallied s @ [(unat dist, unat len)] \<and> tally_inv (fst (zng_tr_tally_dist dist len s))
    \<and> (snd (zng_tr_tally_dist dist len s) = (sym_next s + 3 = sym_end s))"
proof -
  have "sym_next (fst (zng_tr_tally_dist dist len s)) = sym_next s + 3" "sym_end (fst (zng_tr_tally_dist dist len s)) = sym_end s"
    by (simp_all add: zng_tr_tally_dist_def Let_def)
  then show ?thesis
    using tally_lit_ok [OF assms(1,2)] tally_dist_ok [OF assms(1,2)] assms(3,4) by simp
qed

text \<open>
  C7: zng_tr_flush_block always succeeds. It appends one block, stored, with the static trees or with trees it sends along, and the decoder of RFC 1951 reads
  these bits as exactly the symbols tallied since the last block, or as the bytes of the input block, with the right final flag; the last
  block is padded to a byte boundary. The encoder is ready for the next block.
\<close>

theorem flush_block_decodes:
  assumes "tally_inv s" and "bit_inv s" and "length (tallied s) < 65535"
    and "\<forall>data. buf = Some data \<longrightarrow> unat stored_len \<le> length data \<and> unat stored_len \<le> 65535"
  shows "\<exists>s' b bs. zng_tr_flush_block buf stored_len fin s = Some s'
    \<and> written s' = written s @ bs @ (if fin then replicate (nat (- int (length (written s @ bs)) mod 8)) False else [])
    \<and> (\<forall>rest. read_block (length (written s)) (bs @ rest) = Some (fin, b, rest))
    \<and> (b = Coded (tallied s) \<or> (\<exists>data. buf = Some data \<and> b = Stored (take (unat stored_len) data)))
    \<and> bit_inv s' \<and> tally_inv s' \<and> tallied s' = []"
proof -
  obtain s' b where f: "zng_tr_flush_block buf stored_len fin s = Some s'" "flushed fin b s s'"
    "b = Coded (tallied s) \<or> (\<exists>data. buf = Some data \<and> b = Stored (take (unat stored_len) data))"
    by (rule flush_block_flushed [OF assms])
  then obtain bs where "block_bits (length (written s)) fin b bs"
    "written s' = written s @ bs @ (if fin then replicate (nat (- int (length (written s @ bs)) mod 8)) False else [])"
    "bit_inv s'" "tally_inv s'" "tallied s' = []"
    unfolding flushed_def by blast
  with f show ?thesis unfolding block_bits_def by blast
qed

text \<open>A concrete encoder with room for 32 symbols.\<close>

definition small_encoder :: tree_state where
  "small_encoder = init_block \<lparr>pending_buf = [1, 2], bi_buf = 5, bi_valid = 3, bi_used = 0,
     sym_buf = replicate 100 0, sym_next = 0, sym_end = 96, opt_len = 0, static_len = 0,
     l_max_code = 0, d_max_code = 0, bl_max_code = 0, bl_count = replicate 16 0,
     dyn_ltree = replicate 573 \<lparr>fc = 0, dl = 0\<rparr>, dyn_dtree = replicate 61 \<lparr>fc = 0, dl = 0\<rparr>,
     bl_tree = replicate 39 \<lparr>fc = 0, dl = 0\<rparr>, level = 6, strategy = 0, data_type = 2\<rparr>"

lemma small_encoder_ok: "tally_inv small_encoder" "tallied small_encoder = []" "sym_next small_encoder < sym_end small_encoder" "bit_inv small_encoder"
proof -
  show "tally_inv small_encoder" "tallied small_encoder = []"
    unfolding small_encoder_def by (rule init_block_inv; simp add: code_counts)+
  show "sym_next small_encoder < sym_end small_encoder" by (simp add: small_encoder_def init_block_def Let_def)
  have "bit_inv small_encoder = (take_bit 3 (5 :: u64) = 5)"
    unfolding small_encoder_def init_block_bits by (simp add: bit_inv_def)
  then show "bit_inv small_encoder" by simp
qed

theorem tally_appends_witness:
  "tallied (fst (zng_tr_tally_lit 65 small_encoder)) = [(0, 65)]
    \<and> tallied (fst (zng_tr_tally_dist 1000 7 (fst (zng_tr_tally_lit 65 small_encoder)))) = [(0, 65), (1000, 7)]"
proof -
  have 1: "tallied (fst (zng_tr_tally_lit 65 small_encoder)) = [(0, 65)]" "tally_inv (fst (zng_tr_tally_lit 65 small_encoder))"
    using tally_appends [of small_encoder 1 0 65] small_encoder_ok by simp_all
  have "sym_next (fst (zng_tr_tally_lit 65 small_encoder)) = 3" "sym_end (fst (zng_tr_tally_lit 65 small_encoder)) = 96"
    by (simp_all add: zng_tr_tally_lit_def small_encoder_def init_block_def Let_def)
  then show ?thesis using tally_appends [OF 1(2), of 1000 7] 1(1) by simp
qed

theorem flush_block_decodes_witness:
  "\<exists>s' b bs. zng_tr_flush_block (Some [65, 66, 67]) 2 True small_encoder = Some s'
    \<and> read_block 19 bs = Some (True, b, []) \<and> b \<in> {Coded [], Stored [65, 66]}"
proof -
  have l: "length (written small_encoder) = 19" by (simp add: small_encoder_def init_block_bits) (simp add: written_def)
  show ?thesis
    using flush_block_decodes [of small_encoder "Some [65, 66, 67]" 2 True] small_encoder_ok
    by (auto simp: l)
qed

end
