(* ===== verification/Compare256.thy ===== *)
theory Compare256
  imports Builtins
begin

text \<open>
  The byte comparisons behind match finding: compare256 (arch/generic/compare256_c.c) and its run-length variants
  (compare256_rle.h), in the bytewise and the 64-bit versions. Each of them computes the length of a common prefix,
  which is the contract \<open>match_compare\<close> that the match finder uses.
\<close>

section \<open>Definitions\<close>

text \<open>A pointer is the list of the bytes that start at it.\<close>

function compare256_8_loop :: "bytes \<Rightarrow> bytes \<Rightarrow> nat \<Rightarrow> nat" where
  "compare256_8_loop src0 src1 len =
    (if src0 ! 0 \<noteq> src1 ! 0 then len
     else if src0 ! 1 \<noteq> src1 ! 1 then len + 1
     else if src0 ! 2 \<noteq> src1 ! 2 then len + 2
     else if src0 ! 3 \<noteq> src1 ! 3 then len + 3
     else if src0 ! 4 \<noteq> src1 ! 4 then len + 4
     else if src0 ! 5 \<noteq> src1 ! 5 then len + 5
     else if src0 ! 6 \<noteq> src1 ! 6 then len + 6
     else if src0 ! 7 \<noteq> src1 ! 7 then len + 7
     else if len + 8 < 256 then compare256_8_loop (drop 8 src0) (drop 8 src1) (len + 8) else 256)"
  by pat_completeness auto
termination by (relation "measure (\<lambda>(src0, src1, len). 256 - len)") auto

definition compare256_8 :: "bytes \<Rightarrow> bytes \<Rightarrow> nat" where
  "compare256_8 src0 src1 = compare256_8_loop src0 src1 0"

function compare256_64_loop :: "bytes \<Rightarrow> bytes \<Rightarrow> nat \<Rightarrow> nat" where
  "compare256_64_loop src0 src1 len =
    (let diff = zng_memread_8 src0 XOR zng_memread_8 src1 in
     if diff \<noteq> 0 then len + zng_first_diff_byte64 diff
     else let src0 = drop 8 src0; src1 = drop 8 src1; len = len + 8; diff = zng_memread_8 src0 XOR zng_memread_8 src1 in
       if diff \<noteq> 0 then len + zng_first_diff_byte64 diff
       else let src0 = drop 8 src0; src1 = drop 8 src1; len = len + 8 in
         if len < 256 then compare256_64_loop src0 src1 len else 256)"
  by pat_completeness auto
termination by (relation "measure (\<lambda>(src0, src1, len). 256 - len)") auto

definition compare256_64 :: "bytes \<Rightarrow> bytes \<Rightarrow> nat" where
  "compare256_64 src0 src1 = compare256_64_loop src0 src1 0"

definition compare256_c :: "bytes \<Rightarrow> bytes \<Rightarrow> nat" where
  "compare256_c src0 src1 = compare256_64 src0 src1"

function compare256_rle_8_loop :: "u8 \<Rightarrow> bytes \<Rightarrow> nat \<Rightarrow> nat" where
  "compare256_rle_8_loop val src1 len =
    (if val \<noteq> src1 ! 0 then len
     else if val \<noteq> src1 ! 1 then len + 1
     else if val \<noteq> src1 ! 2 then len + 2
     else if val \<noteq> src1 ! 3 then len + 3
     else if val \<noteq> src1 ! 4 then len + 4
     else if val \<noteq> src1 ! 5 then len + 5
     else if val \<noteq> src1 ! 6 then len + 6
     else if val \<noteq> src1 ! 7 then len + 7
     else if len + 8 < 256 then compare256_rle_8_loop val (drop 8 src1) (len + 8) else 256)"
  by pat_completeness auto
termination by (relation "measure (\<lambda>(val, src1, len). 256 - len)") auto

definition compare256_rle_8 :: "bytes \<Rightarrow> bytes \<Rightarrow> nat" where
  "compare256_rle_8 src0 src1 = compare256_rle_8_loop (src0 ! 0) src1 0"

function compare256_rle_64_loop :: "u64 \<Rightarrow> bytes \<Rightarrow> nat \<Rightarrow> nat" where
  "compare256_rle_64_loop sv src1 len =
    (let diff = sv XOR zng_memread_8 src1 in
     if diff \<noteq> 0 then len + zng_first_diff_byte64 diff
     else if len + 8 < 256 then compare256_rle_64_loop sv (drop 8 src1) (len + 8) else 256)"
  by pat_completeness auto
termination by (relation "measure (\<lambda>(sv, src1, len). 256 - len)") auto

definition compare256_rle_64 :: "bytes \<Rightarrow> bytes \<Rightarrow> nat" where
  "compare256_rle_64 src0 src1 =
    (let src0_cmp = zng_memread_2 src0;
         src0_cmp32 = push_bit 16 (ucast src0_cmp) OR ucast src0_cmp :: u32;
         sv = push_bit 32 (ucast src0_cmp32) OR ucast src0_cmp32
     in compare256_rle_64_loop sv src1 0)"

declare compare256_8_loop.simps [simp del] compare256_64_loop.simps [simp del]
  compare256_rle_8_loop.simps [simp del] compare256_rle_64_loop.simps [simp del]

section \<open>The length of the common prefix\<close>

fun common_prefix :: "'a list \<Rightarrow> 'a list \<Rightarrow> nat" where
  "common_prefix (x # xs) (y # ys) = (if x = y then Suc (common_prefix xs ys) else 0)"
| "common_prefix _ _ = 0"

lemma common_prefix_le: "common_prefix xs ys \<le> length xs" "common_prefix xs ys \<le> length ys"
  by (induction xs ys rule: common_prefix.induct) auto

lemma common_prefix_eq: "i < common_prefix xs ys \<Longrightarrow> xs ! i = ys ! i"
  by (induction xs ys arbitrary: i rule: common_prefix.induct) (auto simp: nth_Cons less_Suc_eq_0_disj split: nat.splits if_splits)

lemma common_prefix_diff: "common_prefix xs ys < length xs \<Longrightarrow> common_prefix xs ys < length ys \<Longrightarrow>
    xs ! common_prefix xs ys \<noteq> ys ! common_prefix xs ys"
  by (induction xs ys rule: common_prefix.induct) auto

lemma common_prefix_unique:
  assumes "n \<le> length xs" "n \<le> length ys" "\<And>i. i < n \<Longrightarrow> xs ! i = ys ! i"
    and "n < length xs \<Longrightarrow> n < length ys \<Longrightarrow> xs ! n \<noteq> ys ! n"
  shows "common_prefix xs ys = n"
proof (rule antisym; rule leI; rule notI)
  let ?p = "common_prefix xs ys"
  assume "n < ?p"
  then show False using common_prefix_eq [of n xs ys] common_prefix_le [of xs ys] assms(4) by auto
next
  let ?p = "common_prefix xs ys"
  assume "?p < n"
  then show False using common_prefix_diff [of xs ys] assms(1-3) by auto
qed

lemma common_prefix_append:
  assumes "length xs = length ys"
  shows "common_prefix (xs @ us) (ys @ vs) = (if xs = ys then length xs + common_prefix us vs else common_prefix xs ys)"
  using assms by (induction xs ys rule: list_induct2) auto

lemma common_prefix_eq_length: "length xs = length ys \<Longrightarrow> common_prefix xs ys = length xs \<longleftrightarrow> xs = ys"
  by (induction xs ys rule: list_induct2) auto

text \<open>A comparison of the first 256 bytes, by steps of \<open>k\<close> bytes.\<close>

lemma common_prefix_step:
  assumes "k \<le> length xs" "k \<le> length ys" "k \<le> n"
  shows "common_prefix (take n xs) (take n ys) =
    (if take k xs = take k ys then k + common_prefix (take (n - k) (drop k xs)) (take (n - k) (drop k ys))
     else common_prefix (take k xs) (take k ys))"
proof -
  have "take n zs = take k zs @ take (n - k) (drop k zs)" if "k \<le> n" for zs :: "'a list"
    using that by (metis le_add_diff_inverse take_add)
  then show ?thesis using assms by (simp add: common_prefix_append)
qed

section \<open>Eight bytes at a time\<close>

lemma memread_8_first_diff:
  assumes "8 \<le> length p" "8 \<le> length q"
  shows "zng_memread_8 p XOR zng_memread_8 q = 0 \<longleftrightarrow> take 8 p = take 8 q"
    and "zng_memread_8 p XOR zng_memread_8 q \<noteq> 0 \<Longrightarrow>
      zng_first_diff_byte64 (zng_memread_8 p XOR zng_memread_8 q) = common_prefix (take 8 p) (take 8 q)"
proof -
  let ?d = "zng_memread_8 p XOR zng_memread_8 q"
  have bit: "bit ?d i \<longleftrightarrow> i < 64 \<and> bit (p ! (i div 8)) (i mod 8) \<noteq> bit (q ! (i div 8)) (i mod 8)" for i
    using assms by (auto simp: bit_xor_iff bit_memread_8)
  have byte: "p ! k = q ! k \<longleftrightarrow> (\<forall>j < 8. \<not> bit ?d (8 * k + j))" if "k < 8" for k
  proof -
    have "\<not> bit ?d (8 * k + j) \<longleftrightarrow> bit (p ! k) j = bit (q ! k) j" if "j < 8" for j
      using that \<open>k < 8\<close> by (simp add: bit)
    moreover have "p ! k = q ! k \<longleftrightarrow> (\<forall>j < 8. bit (p ! k) j = bit (q ! k) j)"
      by (auto intro!: bit_word_eqI)
    ultimately show ?thesis by auto
  qed
  show "?d = 0 \<longleftrightarrow> take 8 p = take 8 q"
  proof
    assume "?d = 0"
    then have "\<forall>k < 8. p ! k = q ! k" by (auto simp: byte)
    then show "take 8 p = take 8 q" using assms by (intro nth_equalityI) auto
  next
    assume "take 8 p = take 8 q"
    then have "p ! k = q ! k" if "k < 8" for k using that by (metis nth_take)
    then show "?d = 0" by (auto simp: bit_eq_iff bit)
  qed
  assume "?d \<noteq> 0"
  then obtain k where k: "bit ?d k" "\<And>i. i < k \<Longrightarrow> \<not> bit ?d i" "k < 64"
    using lowest_bit_exists [of ?d] by auto
  have "zng_first_diff_byte64 ?d = k div 8"
    using zng_ctz64_lowest [OF k(1,2)] by (simp add: zng_first_diff_byte64_def)
  also have "k div 8 = common_prefix (take 8 p) (take 8 q)"
  proof (rule sym, rule common_prefix_unique)
    show "k div 8 \<le> length (take 8 p)" "k div 8 \<le> length (take 8 q)" using assms k(3) by auto
    show "take 8 p ! i = take 8 q ! i" if "i < k div 8" for i
    proof -
      have "8 * i + j < k" if "j < 8" for j using that \<open>i < k div 8\<close> by linarith
      then have "p ! i = q ! i" using byte [of i] k \<open>i < k div 8\<close> by auto
      then show ?thesis using that k(3) by simp
    qed
    have "\<exists>j < 8. bit ?d (8 * (k div 8) + j)" using k(1) by (intro exI [of _ "k mod 8"]) simp
    then have "p ! (k div 8) \<noteq> q ! (k div 8)" using byte [of "k div 8"] k(3) by auto
    then show "take 8 p ! (k div 8) \<noteq> take 8 q ! (k div 8)" using k(3) by simp
  qed
  finally show "zng_first_diff_byte64 ?d = common_prefix (take 8 p) (take 8 q)" .
qed

text \<open>The eight comparisons of an iteration.\<close>

lemma unrolled_8:
  assumes "8 \<le> length p" "8 \<le> length q"
  shows "(if p ! 0 \<noteq> q ! 0 then len else if p ! 1 \<noteq> q ! 1 then len + 1 else if p ! 2 \<noteq> q ! 2 then len + 2
     else if p ! 3 \<noteq> q ! 3 then len + 3 else if p ! 4 \<noteq> q ! 4 then len + 4 else if p ! 5 \<noteq> q ! 5 then len + 5
     else if p ! 6 \<noteq> q ! 6 then len + 6 else if p ! 7 \<noteq> q ! 7 then len + 7 else r)
    = (if take 8 p = take 8 q then r else len + common_prefix (take 8 p) (take 8 q))"
  unfolding take_8 [OF assms(1)] take_8 [OF assms(2)] by simp

section \<open>The contract of a comparison\<close>

locale match_compare =
  fixes cmp :: "bytes \<Rightarrow> bytes \<Rightarrow> nat"
  assumes cmp: "256 \<le> length p \<Longrightarrow> 256 \<le> length q \<Longrightarrow> cmp p q = common_prefix (take 256 p) (take 256 q)"
begin

lemma cmp_le: "256 \<le> length p \<Longrightarrow> 256 \<le> length q \<Longrightarrow> cmp p q \<le> 256"
  using common_prefix_le [of "take 256 p" "take 256 q"] by (simp add: cmp)

lemma cmp_equal: "256 \<le> length p \<Longrightarrow> 256 \<le> length q \<Longrightarrow> i < cmp p q \<Longrightarrow> p ! i = q ! i"
  using common_prefix_eq [of i "take 256 p" "take 256 q"] cmp_le [of p q] by (simp add: cmp)

lemma cmp_differ: "256 \<le> length p \<Longrightarrow> 256 \<le> length q \<Longrightarrow> cmp p q < 256 \<Longrightarrow> p ! cmp p q \<noteq> q ! cmp p q"
  using common_prefix_diff [of "take 256 p" "take 256 q"] by (simp add: cmp)

end

lemma compare256_8_loop_prefix:
  assumes "len < 256" "8 dvd len" "256 - len \<le> length p" "256 - len \<le> length q"
  shows "compare256_8_loop p q len = len + common_prefix (take (256 - len) p) (take (256 - len) q)"
  using assms
proof (induction "256 - len" arbitrary: p q len rule: less_induct)
  case less
  have len: "8 \<le> 256 - len" using less.prems(1,2) by (auto simp: dvd_def)
  then have l: "8 \<le> length p" "8 \<le> length q" "256 - len - 8 = 256 - (len + 8)" using less.prems by auto
  have rec: "compare256_8_loop (drop 8 p) (drop 8 q) (len + 8)
      = len + 8 + common_prefix (take (256 - (len + 8)) (drop 8 p)) (take (256 - (len + 8)) (drop 8 q))" if "len + 8 < 256"
    using that less.prems by (intro less.hyps) auto
  have fin: "len + 8 = 256" if "\<not> len + 8 < 256" using that len less.prems by linarith
  show ?case
    unfolding common_prefix_step [OF l(1,2) len] l(3)
    by (subst compare256_8_loop.simps, subst unrolled_8 [OF l(1,2)]) (use rec fin in auto)
qed

interpretation cmp8: match_compare compare256_8
  by unfold_locales (simp add: compare256_8_def compare256_8_loop_prefix)

lemma compare256_64_loop_prefix:
  assumes "len < 256" "16 dvd len" "256 - len \<le> length p" "256 - len \<le> length q"
  shows "compare256_64_loop p q len = len + common_prefix (take (256 - len) p) (take (256 - len) q)"
  using assms
proof (induction "256 - len" arbitrary: p q len rule: less_induct)
  case less
  have len: "16 \<le> 256 - len" using less.prems(1,2) by (auto simp: dvd_def)
  let ?p = "drop 8 p" and ?q = "drop 8 q"
  have l: "8 \<le> length p" "8 \<le> length q" "8 \<le> 256 - len" using len less.prems by auto
  have l': "8 \<le> length ?p" "8 \<le> length ?q" "8 \<le> 256 - len - 8" using len less.prems by auto
  note d = memread_8_first_diff [OF l(1,2)] memread_8_first_diff [OF l'(1,2)]
  have prefix: "common_prefix (take (256 - len) p) (take (256 - len) q) =
      (if take 8 p = take 8 q then 8 + (if take 8 ?p = take 8 ?q
         then 8 + common_prefix (take (256 - (len + 16)) (drop 16 p)) (take (256 - (len + 16)) (drop 16 q))
         else common_prefix (take 8 ?p) (take 8 ?q)) else common_prefix (take 8 p) (take 8 q))"
    using common_prefix_step [OF l] common_prefix_step [OF l'] by simp
  have rec: "compare256_64_loop (drop 16 p) (drop 16 q) (len + 16)
      = len + 16 + common_prefix (take (256 - (len + 16)) (drop 16 p)) (take (256 - (len + 16)) (drop 16 q))" if "len + 16 < 256"
    using that less.prems by (intro less.hyps) auto
  have fin: "len + 16 = 256" if "\<not> len + 16 < 256" using that len less.prems by linarith
  show ?case
    unfolding prefix by (subst compare256_64_loop.simps) (use d rec fin in \<open>auto simp: Let_def add.commute\<close>)
qed

interpretation cmp64: match_compare compare256_64
  by unfold_locales (simp add: compare256_64_def compare256_64_loop_prefix)

interpretation cmp_c: match_compare compare256_c
  by unfold_locales (simp add: compare256_c_def cmp64.cmp)

section \<open>Runs\<close>

lemma rle_8_loop:
  "len < 256 \<Longrightarrow> 8 dvd len \<Longrightarrow> 256 - len \<le> n \<Longrightarrow> compare256_rle_8_loop v q len = compare256_8_loop (replicate n v) q len"
proof (induction "256 - len" arbitrary: n q len rule: less_induct)
  case less
  then have "8 \<le> n" by (auto simp: dvd_def)
  then have nth: "replicate n v ! i = v" if "i < 8" for i using that by simp
  have "compare256_rle_8_loop v (drop 8 q) (len + 8) = compare256_8_loop (drop 8 (replicate n v)) (drop 8 q) (len + 8)" if "len + 8 < 256"
    using that less.prems less.hyps [of "len + 8" "n - 8" "drop 8 q"] by simp
  then show ?case
    by (subst compare256_rle_8_loop.simps, subst compare256_8_loop.simps) (simp only: nth zero_less_numeral one_less_numeral_iff
      numeral_less_iff semiring_norm if_cancel cong: if_cong)
qed

lemma bit_memread_2: "2 \<le> length p \<Longrightarrow> bit (zng_memread_2 p) i \<longleftrightarrow> i < 16 \<and> bit (p ! (i div 8)) (i mod 8)"
  by (auto simp: zng_memread_2_def bit_of_nat_iff bit_le_nat)

lemma rle_word:
  fixes c :: u16
  assumes "2 \<le> length p" and "p ! 0 = v" "p ! 1 = v" and "8 \<le> n"
  defines "c32 \<equiv> push_bit 16 (ucast (zng_memread_2 p)) OR ucast (zng_memread_2 p) :: u32"
  shows "push_bit 32 (ucast c32) OR ucast c32 = zng_memread_8 (replicate n v)"
proof (rule bit_word_eqI)
  fix i assume "i < LENGTH(64)"
  then have i: "i < 64" by simp
  have c: "bit (zng_memread_2 p) j \<longleftrightarrow> j < 16 \<and> bit v (j mod 8)" for j
  proof (cases "j < 16")
    case True
    then have "j div 8 = 0 \<or> j div 8 = 1" by auto
    then show ?thesis using assms(1-3) by (auto simp: bit_memread_2)
  qed (simp add: bit_memread_2 assms(1))
  have c32: "bit c32 j \<longleftrightarrow> j < 32 \<and> bit v (j mod 8)" for j
    by (cases "j < 16") (auto simp: c32_def bit_simps c le_mod_geq)
  show "bit (push_bit 32 (ucast c32) OR ucast c32 :: u64) i = bit (zng_memread_8 (replicate n v)) i"
    using i assms(4) by (cases "i < 32") (auto simp: bit_simps c32 bit_memread_8 le_mod_geq)
qed

lemma rle_64_loop:
  assumes "len < 256" "8 dvd len" "256 - len \<le> length q"
  shows "compare256_rle_64_loop (zng_memread_8 (replicate 8 v)) q len = len + common_prefix (replicate (256 - len) v) (take (256 - len) q)"
  using assms
proof (induction "256 - len" arbitrary: q len rule: less_induct)
  case less
  have len: "8 \<le> 256 - len" using less.prems(1,2) by (auto simp: dvd_def)
  then have l: "8 \<le> length (replicate (256 - len) v)" "8 \<le> length q" "256 - len - 8 = 256 - (len + 8)" "8 \<le> length (replicate 8 v)"
    using less.prems by auto
  have rec: "compare256_rle_64_loop (zng_memread_8 (replicate 8 v)) (drop 8 q) (len + 8)
      = len + 8 + common_prefix (replicate (256 - (len + 8)) v) (take (256 - (len + 8)) (drop 8 q))" if "len + 8 < 256"
    using that less.prems by (intro less.hyps) auto
  have fin: "len + 8 = 256" if "\<not> len + 8 < 256" using that len less.prems by linarith
  have prefix: "common_prefix (replicate (256 - len) v) (take (256 - len) q) = (if replicate 8 v = take 8 q
      then 8 + common_prefix (replicate (256 - (len + 8)) v) (take (256 - (len + 8)) (drop 8 q)) else common_prefix (replicate 8 v) (take 8 q))"
    using common_prefix_step [OF l(1,2) len] len l(3) by (simp add: min_def)
  show ?case
    unfolding prefix using memread_8_first_diff [OF l(4,2)]
    by (subst compare256_rle_64_loop.simps) (use rec fin in \<open>auto simp: Let_def min_def\<close>)
qed

section \<open>Properties\<close>

text \<open>
  C31: compare256 returns, bytewise and with 64-bit words alike, the length of the common prefix of its two buffers, at most 256:
  all bytes before it agree, and if it is less than 256 the next bytes differ.
\<close>

theorem compare256_common_prefix:
  assumes "256 \<le> length p" and "256 \<le> length q"
  shows "compare256_64 p q = compare256_8 p q \<and> compare256_c p q \<le> 256
    \<and> take (compare256_c p q) p = take (compare256_c p q) q
    \<and> (compare256_c p q < 256 \<longrightarrow> p ! compare256_c p q \<noteq> q ! compare256_c p q)"
proof (intro conjI impI)
  show "compare256_64 p q = compare256_8 p q" using assms by (simp add: cmp64.cmp cmp8.cmp)
  show "compare256_c p q \<le> 256" using assms by (rule cmp_c.cmp_le)
  then show "take (compare256_c p q) p = take (compare256_c p q) q"
    using assms cmp_c.cmp_equal [OF assms] by (intro nth_equalityI) simp_all
  show "p ! compare256_c p q \<noteq> q ! compare256_c p q" if "compare256_c p q < 256"
    using assms that by (rule cmp_c.cmp_differ)
qed

theorem compare256_common_prefix_witness:
  "compare256_64 (replicate 300 7) (replicate 20 7 @ replicate 280 9) = compare256_8 (replicate 300 7) (replicate 20 7 @ replicate 280 9)"
  using compare256_common_prefix [of "replicate 300 7" "replicate 20 7 @ replicate 280 9"] by simp

text \<open>
  C32: The run-length comparisons return the number of leading bytes of the second buffer, up to 256, that equal the first byte of the
  first buffer; the 64-bit version does so when the first two bytes of the run agree, which the caller has checked.
\<close>

theorem compare256_rle_prefix:
  assumes "2 \<le> length p" and "p ! 0 = p ! 1" and "256 \<le> length q"
  shows "compare256_rle_64 p q = compare256_rle_8 p q
    \<and> compare256_rle_8 p q = common_prefix (replicate 256 (p ! 0)) (take 256 q)"
proof -
  have "compare256_rle_8 p q = common_prefix (replicate 256 (p ! 0)) (take 256 q)"
    using assms(3) compare256_8_loop_prefix [of 0 "replicate 256 (p ! 0)" q] rle_8_loop [of 0 256 "p ! 0" q] by (simp add: compare256_rle_8_def)
  moreover have "compare256_rle_64 p q = common_prefix (replicate 256 (p ! 0)) (take 256 q)"
    using rle_word [of p "p ! 0" 8] assms rle_64_loop [of 0 q "p ! 0"] by (simp add: compare256_rle_64_def Let_def)
  ultimately show ?thesis by simp
qed

theorem compare256_rle_prefix_witness:
  "compare256_rle_64 [5, 5] (replicate 30 5 @ replicate 226 6) = compare256_rle_8 [5, 5] (replicate 30 5 @ replicate 226 6)"
  using compare256_rle_prefix [of "[5, 5]" "replicate 30 5 @ replicate 226 6"] by simp

end
