(* ===== verification/Deflate_State.thy ===== *)
theory Deflate_State
  imports Trees
begin

text \<open>
  The compressor state (internal_state of deflate.h) on top of the parts that the bit writer and the trees use, together with the
  fields of the z_stream it serves. Window positions are natural numbers; the hash tables keep 16-bit positions as the code does.
  The bytes of \<open>next_in\<close> are the available input; \<open>next_out\<close> holds the bytes delivered to the application, and \<open>avail_out\<close> the room left.
\<close>

text \<open>
  The list \<open>pending_buf\<close> holds the bytes not yet delivered, and \<open>pending_out\<close> is the offset at which they start in the buffer of the program (s->pending_out - s->pending_buf).
  The program appends at the offset \<open>s->pending\<close>, the number of those bytes, which is the end of them only when \<open>pending_out\<close> is zero.
  The size pending_buf_size bounds no list; deflate_stored and the direct emission of deflate_quick, which test it, are not modelled.
\<close>

text \<open>
  The header fields of a gzip member (gz_header of zlib.h) that the compressor writes. A null pointer is \<open>None\<close>; the two strings are
  without the terminating zero.
\<close>

record gz_header =
  gz_text :: bool
  gz_time :: u32
  gz_os :: int
  gz_extra :: "bytes option"
  gz_name :: "bytes option"
  gz_comment :: "bytes option"
  gz_hcrc :: bool

record deflate_state = tree_state +
  wrap :: int
  status :: nat
  last_flush :: int
  lookahead :: nat
  strstart :: nat
  w_size :: nat
  block_start :: int
  high_water :: nat
  window_size :: nat
  window :: bytes
  prev :: "u16 list"
  head :: "u16 list"
  ins_h :: u32
  match_available :: bool
  prev_match :: nat
  match_start :: nat
  prev_length :: nat
  max_chain_length :: nat
  max_lazy_match :: nat
  good_match :: nat
  nice_match :: nat
  to_insert :: nat
  slide_len :: nat
  fill_end :: nat
  next_in :: bytes
  next_out :: bytes
  avail_out :: nat
  total_in :: nat
  total_out :: nat
  adler :: u32
  lit_bufsize :: nat
  pending_buf_size :: nat
  block_open :: nat
  reproducible :: bool
  gzhead :: "gz_header option"
  gzindex :: nat
  pending_out :: nat

definition STD_MIN_MATCH :: nat where "STD_MIN_MATCH = 3"
definition STD_MAX_MATCH :: nat where "STD_MAX_MATCH = 258"
definition WANT_MIN_MATCH :: nat where "WANT_MIN_MATCH = 4"

definition MIN_LOOKAHEAD :: nat where
  "MIN_LOOKAHEAD = STD_MAX_MATCH + STD_MIN_MATCH + 1"

definition MAX_DIST :: "'a deflate_state_scheme \<Rightarrow> nat" where
  "MAX_DIST s = w_size s - MIN_LOOKAHEAD"

definition W_MASK :: "'a deflate_state_scheme \<Rightarrow> nat" where
  "W_MASK s = w_size s - 1"

definition HASH_BITS :: nat where "HASH_BITS = 16"
definition HASH_SIZE :: nat where "HASH_SIZE = 65536"

definition MIN_ROLL_LEVEL :: int where "MIN_ROLL_LEVEL = 9"

datatype block_state = need_more | block_done | finish_started | finish_done

lemmas match_consts = STD_MIN_MATCH_def STD_MAX_MATCH_def WANT_MIN_MATCH_def MIN_LOOKAHEAD_def

text \<open>The window size is a power of two between 256 bytes and 32K, and the tables have their sizes.\<close>

definition tables_ok :: "'a deflate_state_scheme \<Rightarrow> bool" where
  "tables_ok s \<longleftrightarrow> (\<exists>k. 8 \<le> k \<and> k \<le> 15 \<and> w_size s = 2 ^ k) \<and> length (prev s) = w_size s \<and> length (head s) = HASH_SIZE"

lemma nat_and_exp: "(n :: nat) AND (2 ^ k - 1) = n mod 2 ^ k"
  by (metis mask_eq_exp_minus_1 take_bit_eq_mask take_bit_eq_mod)

lemma W_MASK_and: "tables_ok s \<Longrightarrow> n AND W_MASK s = n mod w_size s"
  unfolding tables_ok_def W_MASK_def using nat_and_exp by metis

lemma W_MASK_less: "tables_ok s \<Longrightarrow> n AND W_MASK s < length (prev s)"
  by (subst W_MASK_and) (auto simp: tables_ok_def)

text \<open>
  Memory as a zeroing allocator hands it out for a window of \<open>w\<close> bytes and a symbol buffer of \<open>n\<close> symbols. The code does not rely on the zeros;
  the state serves as a concrete starting point.
\<close>

definition zero_mem :: "nat \<Rightarrow> nat \<Rightarrow> deflate_state" where
  "zero_mem w n = \<lparr>pending_buf = [], bi_buf = 0, bi_valid = 0, bi_used = 0,
     sym_buf = replicate (3 * n + 1) 0, sym_next = 0, sym_end = 3 * (n - 1), opt_len = 0, static_len = 0,
     l_max_code = 0, d_max_code = 0, bl_max_code = 0, bl_count = replicate 16 0,
     dyn_ltree = replicate HEAP_SIZE \<lparr>fc = 0, dl = 0\<rparr>, dyn_dtree = replicate (2 * D_CODES + 1) \<lparr>fc = 0, dl = 0\<rparr>,
     bl_tree = replicate (2 * BL_CODES + 1) \<lparr>fc = 0, dl = 0\<rparr>, level = 0, strategy = 0, data_type = 0,
     wrap = 0, status = 0, last_flush = 0, lookahead = 0, strstart = 0, w_size = w, block_start = 0, high_water = 0,
     window_size = max (2 * w) 32768, window = replicate (max (2 * w) 32768) 0, prev = replicate w 0, head = replicate HASH_SIZE 0,
     ins_h = 0, match_available = False, prev_match = 0, match_start = 0, prev_length = 0, max_chain_length = 0, max_lazy_match = 0,
     good_match = 0, nice_match = 0, to_insert = 0, slide_len = 0, fill_end = 0, next_in = [], next_out = [], avail_out = 0,
     total_in = 0, total_out = 0, adler = 0,
     lit_bufsize = n, pending_buf_size = 4 * n, block_open = 0, reproducible = False, gzhead = None, gzindex = 0, pending_out = 0\<rparr>"

lemma zero_mem_tables: "8 \<le> k \<Longrightarrow> k \<le> 15 \<Longrightarrow> tables_ok (zero_mem (2 ^ k) n)"
  by (auto simp: tables_ok_def zero_mem_def)

end
