(* ===== verification/Hash_Chains.thy ===== *)
theory Hash_Chains
  imports Deflate_State
begin

text \<open>
  The hash table of the match finder: insertion of strings (insert_string_p.h), the rolling and the multiplicative hash, and the
  shift of the tables when the window slides (arch/generic/slide_hash_c.c). The lemmas relate the tables to the list of candidates that a
  search visits.
\<close>

section \<open>Hash functions\<close>

definition KNUTH_SHIFT :: nat where "KNUTH_SHIFT = 32 - HASH_BITS"

definition UPDATE_HASH_KNUTH :: "u32 \<Rightarrow> nat" where
  "UPDATE_HASH_KNUTH val = unat (drop_bit KNUTH_SHIFT (val * 2654435761))"

definition ROLL_MASK :: u32 where "ROLL_MASK = of_nat HASH_SIZE div 2 - 1"

definition update_hash_roll :: "u32 \<Rightarrow> u32 \<Rightarrow> u32" where
  "update_hash_roll h val = (push_bit 5 h XOR ucast (ucast val :: u8)) AND ROLL_MASK"

section \<open>Insertion\<close>

text \<open>The common step: link the string to the head of its chain unless it is the head already. The result is the previous head.\<close>

definition hash_push :: "nat \<Rightarrow> nat \<Rightarrow> 'a deflate_state_scheme \<Rightarrow> 'a deflate_state_scheme \<times> nat" where
  "hash_push h str s =
    (let hd = head s ! h in
     if unat hd \<noteq> str
     then (s\<lparr>prev := (prev s)[str AND W_MASK s := hd], head := (head s)[h := of_nat str]\<rparr>, unat hd)
     else (s, unat hd))"

definition insert_knuth_val :: "nat \<Rightarrow> u32 \<Rightarrow> 'a deflate_state_scheme \<Rightarrow> 'a deflate_state_scheme \<times> nat" where
  "insert_knuth_val str val s = hash_push (UPDATE_HASH_KNUTH val) str s"

definition insert_knuth_val_head :: "nat \<Rightarrow> u32 \<Rightarrow> 'a deflate_state_scheme \<Rightarrow> 'a deflate_state_scheme \<times> nat" where
  "insert_knuth_val_head str val s =
    (let h = UPDATE_HASH_KNUTH val in (s\<lparr>head := (head s)[h := of_nat str]\<rparr>, unat (head s ! h)))"

definition insert_knuth :: "nat \<Rightarrow> 'a deflate_state_scheme \<Rightarrow> 'a deflate_state_scheme \<times> nat" where
  "insert_knuth str s = hash_push (UPDATE_HASH_KNUTH (zng_memread_4 (drop str (window s)))) str s"

definition insert_knuth_head :: "nat \<Rightarrow> 'a deflate_state_scheme \<Rightarrow> 'a deflate_state_scheme \<times> nat" where
  "insert_knuth_head str s =
    (let h = UPDATE_HASH_KNUTH (zng_memread_4 (drop str (window s)))
     in (s\<lparr>head := (head s)[h := of_nat str]\<rparr>, unat (head s ! h)))"

definition insert_knuth_one :: "nat \<Rightarrow> 'a deflate_state_scheme \<Rightarrow> 'a deflate_state_scheme" where
  "insert_knuth_one idx s = fst (hash_push (UPDATE_HASH_KNUTH (zng_memread_4 (drop idx (window s)))) idx s)"

definition insert_roll :: "nat \<Rightarrow> 'a deflate_state_scheme \<Rightarrow> 'a deflate_state_scheme \<times> nat" where
  "insert_roll str s =
    (let h = update_hash_roll (ins_h s) (ucast (window s ! (str + (STD_MIN_MATCH - 1))))
     in hash_push (unat h) str (s\<lparr>ins_h := h\<rparr>))"

definition insert_knuth_batch :: "nat \<Rightarrow> nat \<Rightarrow> 'a deflate_state_scheme \<Rightarrow> 'a deflate_state_scheme" where
  "insert_knuth_batch str cnt s = fold insert_knuth_one [str..<str + cnt] s"

text \<open>
  The positions that insert_knuth_stepped visits, with the 16.16 fixed-point arithmetic of the code in 32 bits.
\<close>

definition stepped_inc :: "u32 \<Rightarrow> u32 \<Rightarrow> u32" where
  "stepped_inc cnt intervals = (push_bit 16 (cnt - 1) + (intervals - 1)) div intervals"

fun stepped_idx :: "nat \<Rightarrow> u32 \<Rightarrow> u32 \<Rightarrow> nat list" where
  "stepped_idx 0 inc_fp idx_fp = []"
| "stepped_idx (Suc n) inc_fp idx_fp = unat (drop_bit 16 idx_fp) # stepped_idx n inc_fp (idx_fp + inc_fp)"

definition stepped_positions :: "nat \<Rightarrow> nat \<Rightarrow> nat \<Rightarrow> nat list" where
  "stepped_positions str cnt max_inserts =
    (let inserts = (if cnt < max_inserts then cnt else max_inserts);
         inc_fp = stepped_inc (of_nat cnt) (of_nat (inserts - 1))
     in stepped_idx inserts inc_fp (push_bit 16 (of_nat str)))"

definition insert_knuth_stepped :: "nat \<Rightarrow> nat \<Rightarrow> nat \<Rightarrow> 'a deflate_state_scheme \<Rightarrow> 'a deflate_state_scheme" where
  "insert_knuth_stepped str cnt max_inserts s = fold insert_knuth_one (stepped_positions str cnt max_inserts) s"

definition insert_knuth_spread :: "nat \<Rightarrow> nat \<Rightarrow> nat \<Rightarrow> 'a deflate_state_scheme \<Rightarrow> 'a deflate_state_scheme" where
  "insert_knuth_spread str cnt max_inserts s =
    (if max_inserts > 3 then insert_knuth_stepped str cnt max_inserts s
     else let s = insert_knuth_one str s;
              s = (if max_inserts = 3 then insert_knuth_one (str + (cnt - 1) div 2) s else s)
          in insert_knuth_one (str + cnt - 1) s)"

definition insert_knuth_batch_head :: "nat \<Rightarrow> nat \<Rightarrow> 'a deflate_state_scheme \<Rightarrow> 'a deflate_state_scheme" where
  "insert_knuth_batch_head str cnt s = fold (\<lambda>idx s. fst (insert_knuth_head idx s)) [str..<str + cnt] s"

definition insert_roll_batch :: "nat \<Rightarrow> nat \<Rightarrow> 'a deflate_state_scheme \<Rightarrow> 'a deflate_state_scheme" where
  "insert_roll_batch str cnt s = fold (\<lambda>idx s. fst (insert_roll idx s)) [str..<str + cnt] s"

definition memset_prev :: "nat \<Rightarrow> nat \<Rightarrow> 'a deflate_state_scheme \<Rightarrow> 'a deflate_state_scheme" where
  "memset_prev from n s = s\<lparr>prev := take from (prev s) @ replicate n 0 @ drop (from + n) (prev s)\<rparr>"

definition insert_skip :: "nat \<Rightarrow> nat \<Rightarrow> 'a deflate_state_scheme \<Rightarrow> 'a deflate_state_scheme" where
  "insert_skip str cnt s =
    (let idx = str AND W_MASK s; first = min cnt (w_size s - idx)
     in memset_prev 0 (cnt - first) (memset_prev idx first s))"

definition insert_knuth_batch_tail :: "nat \<Rightarrow> nat \<Rightarrow> nat \<Rightarrow> 'a deflate_state_scheme \<Rightarrow> 'a deflate_state_scheme" where
  "insert_knuth_batch_tail str cnt tail s =
    (let skip = cnt - tail in insert_knuth_batch (str + skip) tail (insert_skip str skip s))"

definition insert_roll_batch_tail :: "nat \<Rightarrow> nat \<Rightarrow> nat \<Rightarrow> 'a deflate_state_scheme \<Rightarrow> 'a deflate_state_scheme" where
  "insert_roll_batch_tail str cnt tail s =
    (let skip = cnt - tail; s = insert_skip str skip s; str = str + skip;
         s = s\<lparr>ins_h := update_hash_roll (ucast (window s ! str)) (ucast (window s ! (str + 1)))\<rparr>
     in insert_roll_batch str tail s)"

section \<open>Sliding\<close>

definition slide_hash_c_chain :: "u16 \<Rightarrow> u16 list \<Rightarrow> u16 list" where
  "slide_hash_c_chain wsize table = map (\<lambda>m. if m \<ge> wsize then m - wsize else 0) table"

definition slide_hash_c :: "'a deflate_state_scheme \<Rightarrow> 'a deflate_state_scheme" where
  "slide_hash_c s =
    (let slide = of_nat (slide_len s)
     in s\<lparr>head := slide_hash_c_chain slide (head s), prev := slide_hash_c_chain slide (prev s)\<rparr>)"

definition slide_hash_head_c :: "'a deflate_state_scheme \<Rightarrow> 'a deflate_state_scheme" where
  "slide_hash_head_c s = s\<lparr>head := slide_hash_c_chain (of_nat (slide_len s)) (head s)\<rparr>"

section \<open>Hash values\<close>

lemma ROLL_MASK_mask: "ROLL_MASK = mask 15"
  by (simp add: ROLL_MASK_def HASH_SIZE_def mask_eq_exp_minus_1)

lemma hash_index: "UPDATE_HASH_KNUTH v < HASH_SIZE" "unat (update_hash_roll h v) < HASH_SIZE"
proof -
  have "unat w < 2 ^ 32" for w :: u32 using unsigned_less [of w, where ?'a = nat] by simp
  from this [of "v * 2654435761"] show "UPDATE_HASH_KNUTH v < HASH_SIZE"
    by (simp add: UPDATE_HASH_KNUTH_def KNUTH_SHIFT_def HASH_BITS_def HASH_SIZE_def unat_drop_bit_div)
  have "update_hash_roll h v = take_bit 15 (push_bit 5 h XOR ucast (ucast v :: u8))"
    unfolding update_hash_roll_def ROLL_MASK_mask by (rule take_bit_eq_mask [symmetric])
  moreover have "unat (take_bit 15 w) < HASH_SIZE" for w :: u32
    by (simp add: unat_take_bit_mod HASH_SIZE_def order.strict_trans [OF mod_less_divisor [of "2 ^ 15 :: nat"]])
  ultimately show "unat (update_hash_roll h v) < HASH_SIZE" by metis
qed

lemma bit_update_hash_roll:
  "bit (update_hash_roll h v) i \<longleftrightarrow> i < 15 \<and> ((5 \<le> i \<and> bit h (i - 5)) \<noteq> (i < 8 \<and> bit v i))"
  unfolding update_hash_roll_def ROLL_MASK_mask by (auto simp: bit_simps)

text \<open>Three updates of five bits each push every earlier byte out of the fifteen bits of the hash.\<close>

lemma roll_forgets:
  "update_hash_roll (update_hash_roll (update_hash_roll h a) b) c = update_hash_roll (update_hash_roll (update_hash_roll h' a) b) c"
proof (rule bit_word_eqI)
  fix i
  show "bit (update_hash_roll (update_hash_roll (update_hash_roll h a) b) c) i
      = bit (update_hash_roll (update_hash_roll (update_hash_roll h' a) b) c) i"
  proof (cases "i < 15")
    case True
    then have "\<not> 5 \<le> i - 5 - 5" by simp
    then show ?thesis by (simp only: bit_update_hash_roll simp_thms)
  qed (simp add: bit_update_hash_roll)
qed

definition roll_hash :: "bytes \<Rightarrow> nat \<Rightarrow> nat" where
  "roll_hash w i = unat (update_hash_roll (update_hash_roll (update_hash_roll 0 (ucast (w ! i))) (ucast (w ! (i + 1)))) (ucast (w ! (i + 2))))"

text \<open>The running hash is ready for the string at \<open>i\<close> when its last two bytes were those before the third byte of the string.\<close>

definition roll_ready :: "nat \<Rightarrow> 'a deflate_state_scheme \<Rightarrow> bool" where
  "roll_ready i s \<longleftrightarrow> (\<exists>h. ins_h s = update_hash_roll (update_hash_roll h (ucast (window s ! i))) (ucast (window s ! (i + 1))))"

lemma hash_push_same [simp]:
  "window (fst (hash_push h i s)) = window s" "ins_h (fst (hash_push h i s)) = ins_h s" "w_size (fst (hash_push h i s)) = w_size s"
  "strstart (fst (hash_push h i s)) = strstart s" "lookahead (fst (hash_push h i s)) = lookahead s"
  by (simp_all add: hash_push_def Let_def)

lemma insert_roll_hash:
  assumes "roll_ready i s"
  shows "insert_roll i s = hash_push (roll_hash (window s) i) i (s\<lparr>ins_h := of_nat (roll_hash (window s) i)\<rparr>)"
    and "roll_ready (i + 1) (fst (insert_roll i s))"
proof -
  obtain h where h: "ins_h s = update_hash_roll (update_hash_roll h (ucast (window s ! i))) (ucast (window s ! (i + 1)))"
    using assms by (auto simp: roll_ready_def)
  let ?h = "update_hash_roll (ins_h s) (ucast (window s ! (i + 2)))"
  have u: "unat ?h = roll_hash (window s) i"
    unfolding h roll_hash_def by (subst roll_forgets [where h' = 0]) simp
  then have "?h = of_nat (roll_hash (window s) i)" by (simp flip: u)
  then show "insert_roll i s = hash_push (roll_hash (window s) i) i (s\<lparr>ins_h := of_nat (roll_hash (window s) i)\<rparr>)"
    using u by (simp add: insert_roll_def STD_MIN_MATCH_def Let_def)
  show "roll_ready (i + 1) (fst (insert_roll i s))"
    unfolding roll_ready_def insert_roll_def using h by (auto simp: STD_MIN_MATCH_def Let_def)
qed

section \<open>Positions of a stepped insertion\<close>

lemma stepped_idx_nth: "i < n \<Longrightarrow> stepped_idx n inc fp ! i = unat (drop_bit 16 (fp + of_nat i * inc))"
proof (induction n inc fp arbitrary: i rule: stepped_idx.induct)
  case (2 n inc fp)
  then show ?case by (cases i) (simp_all add: algebra_simps)
qed simp

lemma length_stepped_idx [simp]: "length (stepped_idx n inc fp) = n"
  by (induction n inc fp rule: stepped_idx.induct) simp_all

lemma unat_u32_small: "n < 2 ^ 32 \<Longrightarrow> unat (of_nat n :: u32) = n"
  by (simp add: unat_of_nat)

lemma stepped_inc_unat:
  assumes "1 \<le> m" "m < 2 ^ 15" "1 \<le> cnt" "cnt \<le> 2 ^ 15"
  shows "unat (stepped_inc (of_nat cnt) (of_nat m)) = ((cnt - 1) * 2 ^ 16 + (m - 1)) div m"
proof -
  let ?c = "of_nat cnt :: u32" and ?m = "of_nat m :: u32"
  have "?c - 1 = of_nat (cnt - 1)" "?m - 1 = of_nat (m - 1)" using assms by simp_all
  then have e: "push_bit 16 (?c - 1) + (?m - 1) = of_nat ((cnt - 1) * 2 ^ 16 + (m - 1))"
    by (simp add: push_bit_eq_mult)
  have "(cnt - 1) * 2 ^ 16 \<le> (2 ^ 15 - 1) * 2 ^ 16" using assms by (intro mult_le_mono1) simp
  then have b: "(cnt - 1) * 2 ^ 16 + (m - 1) < 2 ^ 32" using assms by simp
  show ?thesis
    unfolding stepped_inc_def e using unat_u32_small [OF b] unat_u32_small [of m] assms by (simp add: unat_div_distrib)
qed

lemma ceil_div_bounds:
  fixes a m :: nat
  assumes "1 \<le> m"
  shows "a \<le> m * ((a + (m - 1)) div m)" and "m * ((a + (m - 1)) div m) \<le> a + (m - 1)"
proof -
  have "a + (m - 1) = m * ((a + (m - 1)) div m) + (a + (m - 1)) mod m" by simp
  moreover have "(a + (m - 1)) mod m \<le> m - 1" using assms by (simp add: Suc_leI less_Suc_eq_le [symmetric])
  ultimately show "a \<le> m * ((a + (m - 1)) div m)" "m * ((a + (m - 1)) div m) \<le> a + (m - 1)" by linarith+
qed

lemma stepped_positions_nth:
  assumes "2 \<le> max_inserts" "2 \<le> cnt" "cnt \<le> 258" "str + cnt \<le> 65536"
  defines "n \<equiv> min cnt max_inserts"
  defines "inc \<equiv> ((cnt - 1) * 2 ^ 16 + (n - 1 - 1)) div (n - 1)"
  shows "length (stepped_positions str cnt max_inserts) = n"
    and "i < n \<Longrightarrow> stepped_positions str cnt max_inserts ! i = str + i * inc div 2 ^ 16"
    and "2 ^ 16 \<le> inc" and "(cnt - 1) * 2 ^ 16 \<le> (n - 1) * inc" and "(n - 1) * inc < (cnt - 1) * 2 ^ 16 + 2 ^ 16"
proof -
  have n: "1 \<le> n - 1" "n - 1 < 2 ^ 15" "n \<le> cnt" using assms(1-3) by (auto simp: n_def)
  have c: "1 \<le> cnt" "cnt \<le> 2 ^ 15" using assms by simp_all
  note b = ceil_div_bounds [OF n(1), of "(cnt - 1) * 2 ^ 16", folded inc_def]
  show lo: "(cnt - 1) * 2 ^ 16 \<le> (n - 1) * inc" by (rule b)
  show hi: "(n - 1) * inc < (cnt - 1) * 2 ^ 16 + 2 ^ 16" using b(2) n by simp
  have "(n - 1) * 2 ^ 16 \<le> (cnt - 1) * 2 ^ 16" using n(3) by (intro mult_le_mono1) simp
  with lo have "(n - 1) * 2 ^ 16 \<le> (n - 1) * inc" by linarith
  then show "2 ^ 16 \<le> inc" using n(1) by simp
  have pos: "stepped_positions str cnt max_inserts = stepped_idx n (stepped_inc (of_nat cnt) (of_nat (n - 1))) (push_bit 16 (of_nat str))"
    by (simp add: stepped_positions_def n_def min_def Let_def)
  show "length (stepped_positions str cnt max_inserts) = n" unfolding pos by simp
  assume i: "i < n"
  have u: "unat (stepped_inc (of_nat cnt) (of_nat (n - 1))) = inc"
    unfolding inc_def by (rule stepped_inc_unat [OF n(1,2) c])
  have inc: "stepped_inc (of_nat cnt) (of_nat (n - 1)) = of_nat inc" by (simp flip: u)
  have "i * inc \<le> (n - 1) * inc" using i by (intro mult_le_mono1) simp
  moreover have "str * 2 ^ 16 + (cnt * 2 ^ 16) \<le> 65536 * 2 ^ 16" using assms(4) by simp
  ultimately have lt: "str * 2 ^ 16 + i * inc < 2 ^ 32" using hi c by (simp add: algebra_simps)
  have e: "push_bit 16 (of_nat str) + of_nat i * of_nat inc = (of_nat (str * 2 ^ 16 + i * inc) :: u32)"
    by (simp add: push_bit_eq_mult)
  show "stepped_positions str cnt max_inserts ! i = str + i * inc div 2 ^ 16"
    unfolding pos stepped_idx_nth [OF i] inc e unat_drop_bit_div unat_u32_small [OF lt] by simp
qed

section \<open>The candidates of a search\<close>

text \<open>
  The positions a search of at most \<open>n\<close> steps visits from the position \<open>p\<close>, as long as they are beyond \<open>lim\<close>.
\<close>

fun chain :: "nat \<Rightarrow> 'a deflate_state_scheme \<Rightarrow> nat \<Rightarrow> nat \<Rightarrow> nat list" where
  "chain 0 s lim p = []"
| "chain (Suc n) s lim p = (if p \<le> lim then [] else p # chain n s lim (unat (prev s ! (p AND W_MASK s))))"

lemma chain_stop: "p \<le> lim \<Longrightarrow> chain n s lim p = []"
  by (cases n) simp_all

lemma chain_gt: "p \<in> set (chain n s lim q) \<Longrightarrow> lim < p"
  by (induction n s lim q rule: chain.induct) (auto split: if_splits)

text \<open>A change of the slot of a position that the chain does not use.\<close>

lemma chain_prev_cong:
  assumes "\<And>p. p \<in> set (chain n s lim q) \<Longrightarrow> prev s' ! (p AND W_MASK s') = prev s ! (p AND W_MASK s)"
  shows "chain n s' lim q = chain n s lim q"
  using assms by (induction n s lim q rule: chain.induct) auto

lemma mod_window_neq:
  fixes p q w :: nat
  assumes "p < q" "q < p + w"
  shows "p mod w \<noteq> q mod w"
  using assms by (metis add_diff_cancel_left' diff_less_mono dvd_imp_le leD le_add1 mod_eq_dvd_iff_nat not_less_iff_gr_or_eq order_less_imp_le zero_less_diff)

lemma hash_push_chain:
  assumes ok: "tables_ok s" and h: "h < HASH_SIZE" and str: "str < 2 ^ 16" "lim < str" "str \<le> lim + w_size s"
    and fresh: "unat (head s ! h) \<noteq> str" and older: "\<forall>p \<in> set (chain n s lim (unat (head s ! h))). p < str"
  shows "unat (head (fst (hash_push h str s)) ! h) = str"
    and "chain (Suc n) (fst (hash_push h str s)) lim str = str # chain n s lim (unat (head s ! h))"
    and "snd (hash_push h str s) = unat (head s ! h)"
proof -
  let ?s = "fst (hash_push h str s)"
  have s: "?s = s\<lparr>prev := (prev s)[str AND W_MASK s := head s ! h], head := (head s)[h := of_nat str]\<rparr>"
    and "snd (hash_push h str s) = unat (head s ! h)"
    using fresh by (simp_all add: hash_push_def Let_def)
  then show "snd (hash_push h str s) = unat (head s ! h)" by simp
  have hl: "h < length (head s)" using ok h by (simp add: tables_ok_def)
  show "unat (head ?s ! h) = str" unfolding s using hl str(1) by (simp add: unat_of_nat)
  have slot: "str AND W_MASK s < length (prev s)" using ok by (rule W_MASK_less)
  have W: "W_MASK ?s = W_MASK s" by (simp add: s W_MASK_def)
  have "prev ?s ! (p AND W_MASK ?s) = prev s ! (p AND W_MASK s)" if p: "p \<in> set (chain n s lim (unat (head s ! h)))" for p
  proof -
    have "lim < p" "p < str" using chain_gt [OF p] older p by auto
    then have "p mod w_size s \<noteq> str mod w_size s" using str(3) by (intro mod_window_neq) auto
    then show ?thesis unfolding W using ok by (simp add: s W_MASK_and)
  qed
  then have rest: "chain n ?s lim (unat (head s ! h)) = chain n s lim (unat (head s ! h))" by (rule chain_prev_cong)
  have "prev ?s ! (str AND W_MASK ?s) = head s ! h" unfolding W using slot by (simp add: s)
  with rest str(2) show "chain (Suc n) ?s lim str = str # chain n s lim (unat (head s ! h))" by simp
qed

lemma slide_entry:
  assumes "w < 2 ^ 16"
  shows "unat (if m \<ge> of_nat w then m - of_nat w else 0 :: u16) = unat m - w"
proof -
  have "unat (of_nat w :: u16) = w" using assms by (simp add: unat_of_nat)
  then show ?thesis by (auto simp: word_le_nat_alt unat_sub not_le)
qed

lemma slide_tables:
  assumes "slide_len s < 2 ^ 16"
  shows "i < length (prev s) \<Longrightarrow> unat (prev (slide_hash_c s) ! i) = unat (prev s ! i) - slide_len s"
    and "i < length (head s) \<Longrightarrow> unat (head (slide_hash_c s) ! i) = unat (head s ! i) - slide_len s"
    and "i < length (head s) \<Longrightarrow> unat (head (slide_hash_head_c s) ! i) = unat (head s ! i) - slide_len s"
    and "length (prev (slide_hash_c s)) = length (prev s)" "length (head (slide_hash_c s)) = length (head s)"
    and "W_MASK (slide_hash_c s) = W_MASK s"
  using slide_entry [OF assms]
  by (simp_all add: slide_hash_c_def slide_hash_head_c_def slide_hash_c_chain_def Let_def W_MASK_def)

text \<open>After the slide a search visits the shifted positions.\<close>

lemma slide_chain:
  assumes ok: "tables_ok s" and w: "slide_len s < 2 ^ 16" "w_size s dvd slide_len s"
  shows "chain n (slide_hash_c s) lim (p - slide_len s) = map (\<lambda>q. q - slide_len s) (chain n s (lim + slide_len s) p)"
proof (induction n arbitrary: p)
  case (Suc n)
  note t = slide_tables [OF w(1)]
  show ?case
  proof (cases "p \<le> lim + slide_len s")
    case False
    obtain k where k: "slide_len s = w_size s * k" using w(2) by blast
    have "(p - slide_len s) mod w_size s = p mod w_size s"
      using False by (metis add_leD2 k le_add_diff_inverse mod_mult_self2 nat_le_linear add.commute)
    then have e: "(p - slide_len s) AND W_MASK s = p AND W_MASK s" by (simp add: W_MASK_and [OF ok])
    have "unat (prev (slide_hash_c s) ! (p AND W_MASK s)) = unat (prev s ! (p AND W_MASK s)) - slide_len s"
      by (rule t(1)) (rule W_MASK_less [OF ok])
    with False Suc show ?thesis by (simp add: t(6) e)
  qed simp
qed simp

section \<open>Properties\<close>

text \<open>
  C33: insert_knuth puts the string in front of its hash chain: it returns the previous head, and a search from the new head visits the
  string and then exactly the candidates that a search from the old head visited, provided the window has not yet wrapped onto them.
\<close>

theorem insert_knuth_chain:
  assumes "tables_ok s" and "str < 2 ^ 16" "lim < str" "str \<le> lim + w_size s"
    and "h = UPDATE_HASH_KNUTH (zng_memread_4 (drop str (window s)))"
    and "unat (head s ! h) \<noteq> str" and "\<forall>p \<in> set (chain n s lim (unat (head s ! h))). p < str"
  shows "\<exists>s'. insert_knuth str s = (s', unat (head s ! h)) \<and> unat (head s' ! h) = str
    \<and> chain (Suc n) s' lim (unat (head s' ! h)) = str # chain n s lim (unat (head s ! h))"
proof -
  have h: "h < HASH_SIZE" unfolding assms(5) by (rule hash_index)
  note c = hash_push_chain [OF assms(1) h assms(2-4,6,7)]
  have "insert_knuth str s = hash_push h str s" by (simp add: insert_knuth_def assms(5))
  then show ?thesis using c by (intro exI [of _ "fst (hash_push h str s)"]) (simp del: chain.simps add: prod_eq_iff)
qed

theorem insert_knuth_chain_witness:
  "\<exists>s'. insert_knuth 9 (zero_mem 512 4) = (s', 0) \<and> chain 5 s' 0 9 = [9]"
proof -
  let ?s = "zero_mem 512 4 :: deflate_state"
  define h where "h = UPDATE_HASH_KNUTH (zng_memread_4 (drop 9 (window ?s)))"
  have ok: "tables_ok ?s" using zero_mem_tables [of 9 4] by simp
  have hd: "unat (head ?s ! h) = 0" using hash_index(1) by (simp add: zero_mem_def h_def)
  have n: "Suc 4 = 5" and w: "w_size ?s = 512" by (simp_all add: zero_mem_def)
  show ?thesis
    using insert_knuth_chain [OF ok _ _ _ h_def, of 0 4] unfolding hd n w by (auto simp: chain_stop)
qed

text \<open>
  C34: insert_knuth_stepped hashes the first and the last string of the range and, for a range of up to 258 strings inside the window,
  as many different positions as it may: the fixed-point positions increase strictly and stay in the range, without overflow.
\<close>

theorem stepped_positions_spread:
  assumes "2 \<le> max_inserts" and "2 \<le> cnt" and "cnt \<le> 258" and "str + cnt \<le> 65536"
  shows "length (stepped_positions str cnt max_inserts) = min cnt max_inserts
    \<and> hd (stepped_positions str cnt max_inserts) = str
    \<and> List.last (stepped_positions str cnt max_inserts) = str + cnt - 1
    \<and> sorted_wrt (<) (stepped_positions str cnt max_inserts)"
proof -
  let ?xs = "stepped_positions str cnt max_inserts" and ?n = "min cnt max_inserts"
  define inc where "inc = ((cnt - 1) * 2 ^ 16 + (?n - 1 - 1)) div (?n - 1)"
  note f = stepped_positions_nth [OF assms, folded inc_def]
  have n: "2 \<le> ?n" using assms by simp
  then have ne: "?xs \<noteq> []" using f(1) by auto
  have "hd ?xs = str" using f(2) [of 0] n ne by (simp add: hd_conv_nth)
  moreover have "(?n - 1) * inc div 2 ^ 16 = cnt - 1" using f(4,5) by (intro div_nat_eqI) auto
  then have "List.last ?xs = str + cnt - 1" using f(2) [of "?n - 1"] n ne assms(2) f(1)
    by (simp add: last_conv_nth del: min_less_iff_conj)
  moreover have "?xs ! i < ?xs ! j" if "i < j" "j < ?n" for i j
  proof -
    have "i * inc + 2 ^ 16 \<le> Suc i * inc" using f(3) by simp
    also have "\<dots> \<le> j * inc" using that by (intro mult_le_mono1) simp
    finally have "(i * inc + 2 ^ 16) div 2 ^ 16 \<le> j * inc div 2 ^ 16" by (rule div_le_mono)
    then show ?thesis using f(2) [of i] f(2) [of j] that by simp
  qed
  ultimately show ?thesis using f(1) by (simp add: sorted_wrt_iff_nth_less)
qed

theorem stepped_positions_spread_witness:
  "List.last (stepped_positions 1000 257 16) = 1256 \<and> length (stepped_positions 1000 257 16) = 16"
  using stepped_positions_spread [of 16 257 1000] by simp

text \<open>One insertion of a string under its own three-byte hash.\<close>

definition push_roll :: "nat \<Rightarrow> 'a deflate_state_scheme \<Rightarrow> 'a deflate_state_scheme" where
  "push_roll i s = fst (hash_push (roll_hash (window s) i) i (s\<lparr>ins_h := of_nat (roll_hash (window s) i)\<rparr>))"

lemma roll_batch: "roll_ready str s \<Longrightarrow> insert_roll_batch str cnt s = fold push_roll [str..<str + cnt] s"
proof (induction cnt arbitrary: str s)
  case (Suc cnt)
  have e: "[str..<str + Suc cnt] = str # [Suc str..<Suc str + cnt]" by (simp add: upt_conv_Cons)
  have "insert_roll_batch str (Suc cnt) s = insert_roll_batch (Suc str) cnt (fst (insert_roll str s))"
    by (simp only: insert_roll_batch_def e fold_simps)
  also have "\<dots> = fold push_roll [Suc str..<Suc str + cnt] (fst (insert_roll str s))"
    using Suc.IH insert_roll_hash(2) [OF Suc.prems] by simp
  also have "fst (insert_roll str s) = push_roll str s"
    using insert_roll_hash(1) [OF Suc.prems] by (simp add: push_roll_def)
  finally show ?case by (simp only: e fold_simps)
qed (simp add: insert_roll_batch_def)

lemma insert_skip_same [simp]: "window (insert_skip str cnt s) = window s"
  by (simp add: insert_skip_def memset_prev_def Let_def)

text \<open>
  C35: The rolling hash depends on the last three bytes only: inserting a batch with it, or only the tail of a batch after seeding the
  hash with two bytes, pushes every string under the hash of its own three bytes.
\<close>

theorem roll_batch_hashes:
  assumes "tail \<le> cnt"
  shows "insert_roll_batch_tail str cnt tail s =
      fold push_roll [str + (cnt - tail)..<str + cnt]
        (insert_skip str (cnt - tail) s\<lparr>ins_h := update_hash_roll (ucast (window s ! (str + (cnt - tail)))) (ucast (window s ! (str + (cnt - tail) + 1)))\<rparr>)
    \<and> (roll_ready str s \<longrightarrow> insert_roll_batch str cnt s = fold push_roll [str..<str + cnt] s)"
proof -
  let ?str = "str + (cnt - tail)"
  let ?s = "insert_skip str (cnt - tail) s\<lparr>ins_h := update_hash_roll (ucast (window s ! ?str)) (ucast (window s ! (?str + 1)))\<rparr>"
  have "ucast v = update_hash_roll 0 (ucast v)" for v :: u8
    by (rule bit_word_eqI) (auto simp: bit_update_hash_roll bit_simps dest: bit_imp_le_length)
  then have "roll_ready ?str ?s" unfolding roll_ready_def by (intro exI [of _ 0]) simp
  then have "insert_roll_batch ?str tail ?s = fold push_roll [?str..<?str + tail] ?s" by (rule roll_batch)
  then show ?thesis using assms roll_batch [of str s cnt] by (simp add: insert_roll_batch_tail_def Let_def)
qed

theorem roll_batch_hashes_witness:
  "insert_roll_batch_tail 4 10 3 (zero_mem 512 4) = fold push_roll [11..<14] (insert_skip 4 7 (zero_mem 512 4)
     \<lparr>ins_h := update_hash_roll (ucast (window (zero_mem 512 4) ! 11)) (ucast (window (zero_mem 512 4) ! 12))\<rparr>)"
  using roll_batch_hashes [of 3 10 4 "zero_mem 512 4"] by simp

text \<open>
  C36: Sliding the hash tables keeps every chain: a search in the slid tables visits the positions it visited before, shifted down with
  the window, up to the first one that has left it.
\<close>

theorem slide_hash_chain:
  assumes "tables_ok s" and "slide_len s < 2 ^ 16" and "w_size s dvd slide_len s" and "h < HASH_SIZE"
  shows "chain n (slide_hash_c s) lim (unat (head (slide_hash_c s) ! h))
    = map (\<lambda>q. q - slide_len s) (chain n s (lim + slide_len s) (unat (head s ! h)))"
proof -
  have "h < length (head s)" using assms by (simp add: tables_ok_def)
  then have "unat (head (slide_hash_c s) ! h) = unat (head s ! h) - slide_len s"
    by (rule slide_tables(2) [OF assms(2)])
  then show ?thesis using slide_chain [OF assms(1-3)] by simp
qed

theorem slide_hash_chain_witness:
  "chain 3 (slide_hash_c (zero_mem 512 4\<lparr>slide_len := 512, head := replicate 65536 600\<rparr>)) 0 88 = [88]"
proof -
  let ?s = "zero_mem 512 4\<lparr>slide_len := 512, head := replicate 65536 600\<rparr> :: deflate_state"
  have ok: "tables_ok ?s" using zero_mem_tables [of 9 4] by (simp add: tables_ok_def HASH_SIZE_def)
  have "slide_len ?s = 512" "w_size ?s = 512" by (simp_all add: zero_mem_def)
  moreover have "head ?s ! 0 = 600" "unat (head (slide_hash_c ?s) ! 0) = 88"
    using slide_tables(2) [of ?s 0] by (simp_all add: zero_mem_def)
  moreover have "chain (Suc 2) ?s 512 600 = [600]"
  proof -
    have "prev ?s ! (600 AND W_MASK ?s) = 0"
      using W_MASK_less [OF ok, of 600] by (simp add: zero_mem_def)
    then show ?thesis by (subst chain.simps) (simp add: chain_stop)
  qed
  ultimately show ?thesis using slide_hash_chain [OF ok, of 0 3 0] by (simp add: HASH_SIZE_def del: chain.simps)
qed

lemma memset_prev_nth:
  assumes "from + n \<le> length (prev s)"
  shows "prev (memset_prev from n s) ! i = (if from \<le> i \<and> i < from + n then 0 else prev s ! i)"
    and "length (prev (memset_prev from n s)) = length (prev s)"
proof -
  have l: "length (take from (prev s)) = from" using assms by simp
  show "prev (memset_prev from n s) ! i = (if from \<le> i \<and> i < from + n then 0 else prev s ! i)"
    using assms by (auto simp: memset_prev_def nth_append l)
  show "length (prev (memset_prev from n s)) = length (prev s)" using assms by (simp add: memset_prev_def)
qed

text \<open>C37: insert_skip ends the chains of exactly the strings in its range, also when the range wraps around the end of the table.\<close>

theorem insert_skip_slots:
  assumes "tables_ok s" and "cnt \<le> w_size s" and "i < w_size s"
  shows "prev (insert_skip str cnt s) ! i = (if \<exists>k < cnt. i = (str + k) mod w_size s then 0 else prev s ! i)"
proof -
  define w j where "w = w_size s" and "j = str mod w_size s"
  define first where "first = min cnt (w - j)"
  have w: "0 < w" using assms(3) by (simp add: w_def)
  then have j: "j < w" by (simp add: j_def w_def)
  have l: "length (prev s) = w" using assms(1) by (simp add: tables_ok_def w_def)
  have sk: "insert_skip str cnt s = memset_prev 0 (cnt - first) (memset_prev j first s)"
    using assms(1) by (simp add: insert_skip_def W_MASK_and Let_def w_def j_def first_def)
  have b: "j + first \<le> length (prev s)" "0 + (cnt - first) \<le> length (prev (memset_prev j first s))"
    using j l assms(2) memset_prev_nth(2) [of j first s] by (auto simp: first_def w_def)
  have "(\<exists>k < cnt. i = (str + k) mod w) \<longleftrightarrow> j \<le> i \<and> i < j + first \<or> i < cnt - first"
  proof -
    have m: "(str + k) mod w = (if j + k < w then j + k else j + k - w)" if "k < cnt" for k
    proof -
      have "(str + k) mod w = (j + k) mod w" by (simp add: j_def w_def mod_add_left_eq)
      moreover have "j + k < w + w" using j that assms(2) by (simp add: w_def)
      ultimately show ?thesis by (simp add: mod_if)
    qed
    have "\<exists>k < cnt. i = (str + k) mod w" if "j \<le> i" "i < j + first"
      using that j m [of "i - j"] by (intro exI [of _ "i - j"]) (auto simp: first_def)
    moreover have "\<exists>k < cnt. i = (str + k) mod w" if "i < cnt - first"
      using that j m [of "i + w - j"] by (intro exI [of _ "i + w - j"]) (auto simp: first_def)
    moreover have "j \<le> i \<and> i < j + first \<or> i < cnt - first" if "k < cnt" "i = (str + k) mod w" for k
      using m [OF that(1)] that(2) j that(1) by (cases "j + k < w") (auto simp: first_def min_def)
    ultimately show ?thesis by blast
  qed
  then show ?thesis
    unfolding sk memset_prev_nth(1) [OF b(2)] memset_prev_nth(1) [OF b(1)] by (auto simp: w_def)
qed

theorem insert_skip_slots_witness:
  "prev (insert_skip 510 4 (zero_mem 512 4\<lparr>prev := replicate 512 7\<rparr>)) ! 1 = 0
    \<and> prev (insert_skip 510 4 (zero_mem 512 4\<lparr>prev := replicate 512 7\<rparr>)) ! 2 = 7"
proof -
  let ?s = "zero_mem 512 4\<lparr>prev := replicate 512 7\<rparr> :: deflate_state"
  have ok: "tables_ok ?s" using zero_mem_tables [of 9 4] by (simp add: tables_ok_def zero_mem_def)
  have w: "w_size ?s = 512" by (simp add: zero_mem_def)
  have "\<exists>k < 4. 1 = (510 + k) mod (512 :: nat)" by (intro exI [of _ 3]) simp
  moreover have "\<not> (\<exists>k < 4. 2 = (510 + k) mod (512 :: nat))" by (auto simp: mod_if)
  ultimately show ?thesis using insert_skip_slots [OF ok, of 4 1 510] insert_skip_slots [OF ok, of 4 2 510] by (simp add: w)
qed

end
