(* ===== verification/Match_Finder.thy ===== *)
theory Match_Finder
  imports Hash_Chains Compare256
begin

text \<open>
  The search for the longest match (match_tpl.h), in the three variants that the template is compiled to: the plain one, and the two slow ones, which look for
  a more distant hash chain of a string inside the match and differ in the hash. The lemmas show that the result is a real match inside the window.
\<close>

section \<open>Candidates\<close>

datatype variant = Fast | Slow_Knuth | Slow_Roll

definition read8 :: "'a deflate_state_scheme \<Rightarrow> nat \<Rightarrow> u64" where
  "read8 s pos = zng_memread_8 (drop pos (window s))"

definition link :: "'a deflate_state_scheme \<Rightarrow> nat \<Rightarrow> nat" where
  "link s p = unat (prev s ! (p AND W_MASK s))"

text \<open>The decrement of a 32-bit counter.\<close>

definition dec_chain :: "nat \<Rightarrow> nat" where
  "dec_chain n = (if n = 0 then 2 ^ 32 - 1 else n - 1)"

definition chain_left :: "nat \<Rightarrow> nat" where
  "chain_left n = (if n = 0 then 2 ^ 32 else n)"

lemma dec_chain_left: "dec_chain n \<noteq> 0 \<Longrightarrow> chain_left (dec_chain n) < chain_left n"
  by (auto simp: dec_chain_def chain_left_def split: if_splits)

definition read_offset :: "nat \<Rightarrow> nat" where
  "read_offset best_len = (if best_len \<ge> 8 then best_len - 7 else 0)"

text \<open>
  The walk along the hash chain while the best length is below eight. It stops at a candidate whose eight bytes all agree (the length is then still
  to be found) or whose first differing byte is beyond the best length. The candidate is read \<open>ofs\<close> bytes before its position.
\<close>

function short_walk :: "'a deflate_state_scheme \<Rightarrow> nat \<Rightarrow> nat \<Rightarrow> nat \<Rightarrow> nat \<Rightarrow> nat \<Rightarrow> (nat \<times> nat \<times> nat option) option" where
  "short_walk s best_len ofs limit chain_length cur_match =
    (let scan_start = read8 s (strstart s); cand_start = read8 s (cur_match - ofs); diff = scan_start XOR cand_start in
     if scan_start = cand_start then Some (chain_length, cur_match, None)
     else if diff AND zng_first_bytes_mask64 (best_len + 1) = 0 then Some (chain_length, cur_match, Some (zng_first_diff_byte64 diff))
     else if dec_chain chain_length = 0 \<or> link s cur_match \<le> limit then None
     else short_walk s best_len ofs limit (dec_chain chain_length) (link s cur_match))"
  by pat_completeness auto
termination by (relation "measure (\<lambda>(s, best_len, ofs, limit, chain_length, cur_match). chain_left chain_length)") (auto simp: dec_chain_left)

text \<open>The walk for longer matches compares the eight bytes around the new end first.\<close>

function long_walk :: "'a deflate_state_scheme \<Rightarrow> nat \<Rightarrow> nat \<Rightarrow> nat \<Rightarrow> nat \<Rightarrow> nat \<Rightarrow> (nat \<times> nat \<times> nat option) option" where
  "long_walk s best_len ofs limit chain_length cur_match =
    (if read8 s (cur_match - ofs + read_offset best_len) = read8 s (strstart s + read_offset best_len)
        \<and> read8 s (cur_match - ofs) = read8 s (strstart s)
     then Some (chain_length, cur_match, None)
     else if dec_chain chain_length = 0 \<or> link s cur_match \<le> limit then None
     else long_walk s best_len ofs limit (dec_chain chain_length) (link s cur_match))"
  by pat_completeness auto
termination by (relation "measure (\<lambda>(s, best_len, ofs, limit, chain_length, cur_match). chain_left chain_length)") (auto simp: dec_chain_left)

declare short_walk.simps [simp del] long_walk.simps [simp del]

definition next_candidate :: "'a deflate_state_scheme \<Rightarrow> nat \<Rightarrow> nat \<Rightarrow> nat \<Rightarrow> nat \<Rightarrow> nat \<Rightarrow> (nat \<times> nat \<times> nat option) option" where
  "next_candidate s best_len ofs limit chain_length cur_match =
    (if best_len < 8 then short_walk s best_len ofs limit chain_length cur_match
     else long_walk s best_len ofs limit chain_length cur_match)"

definition match_length :: "'a deflate_state_scheme \<Rightarrow> nat \<Rightarrow> nat option \<Rightarrow> nat" where
  "match_length s start short = (case short of
     Some len \<Rightarrow> len
   | None \<Rightarrow> compare256_c (drop (strstart s + 2) (window s)) (drop (start + 2) (window s)) + 2)"

section \<open>More distant chains\<close>

definition lm_limit :: "'a deflate_state_scheme \<Rightarrow> nat" where
  "lm_limit s = (if strstart s > MAX_DIST s then strstart s - MAX_DIST s else 0)"

definition roll3 :: "bytes \<Rightarrow> nat" where
  "roll3 p = unat (update_hash_roll (update_hash_roll (update_hash_roll 0 (ucast (p ! 0))) (ucast (p ! 1))) (ucast (p ! 2)))"

text \<open>The first occurrences of the strings inside the previous match, when the search continues a lazy evaluation.\<close>

fun lazy_roll :: "'a deflate_state_scheme \<Rightarrow> u32 \<Rightarrow> nat list \<Rightarrow> nat \<times> nat \<Rightarrow> nat \<times> nat" where
  "lazy_roll s hash [] st = st"
| "lazy_roll s hash (i # ns) (cur_match, ofs) =
    (let hash = update_hash_roll hash (ucast (window s ! (strstart s + i))); pos = unat (head s ! unat hash)
     in lazy_roll s hash ns (if pos < cur_match then (pos, i - 2) else (cur_match, ofs)))"

fun lazy_knuth :: "'a deflate_state_scheme \<Rightarrow> nat list \<Rightarrow> nat \<times> nat \<Rightarrow> nat \<times> nat" where
  "lazy_knuth s [] st = st"
| "lazy_knuth s (i # ns) (cur_match, ofs) =
    (let pos = unat (head s ! UPDATE_HASH_KNUTH (zng_memread_4 (drop (strstart s + i) (window s))))
     in lazy_knuth s ns (if pos < cur_match then (pos, i) else (cur_match, ofs)))"

definition lazy_offset :: "variant \<Rightarrow> 'a deflate_state_scheme \<Rightarrow> nat \<Rightarrow> nat \<Rightarrow> nat \<times> nat" where
  "lazy_offset v s best_len cur_match =
    (if v = Slow_Roll
     then let hash = update_hash_roll (update_hash_roll 0 (ucast (window s ! (strstart s + 1)))) (ucast (window s ! (strstart s + 2)))
       in lazy_roll s hash [3..<best_len + 1] (cur_match, 0)
     else lazy_knuth s [1..<best_len + 1 - (WANT_MIN_MATCH - 1)] (cur_match, 0))"

text \<open>The links of the strings inside a match at \<open>start\<close>; \<open>None\<close> when the most distant one is out of reach.\<close>

fun offset_walk :: "'a deflate_state_scheme \<Rightarrow> nat \<Rightarrow> nat list \<Rightarrow> nat \<times> nat \<Rightarrow> (nat \<times> nat) option" where
  "offset_walk s start [] st = Some st"
| "offset_walk s start (i # ns) (next_pos, ofs) =
    (let pos = link s (start + i) in
     if pos < next_pos
     then if pos \<le> lm_limit s + i then None else offset_walk s start ns (pos, i)
     else offset_walk s start ns (next_pos, ofs))"

definition match_width :: "variant \<Rightarrow> nat" where
  "match_width v = (if v = Slow_Roll then STD_MIN_MATCH else WANT_MIN_MATCH)"

text \<open>The last string that the match covers, or, with the rolling hash, the one that reaches one byte beyond it.\<close>

definition tail_offset :: "variant \<Rightarrow> nat \<Rightarrow> nat" where
  "tail_offset v len = len - (if v = Slow_Roll then STD_MIN_MATCH - 1 else WANT_MIN_MATCH)"

definition tail_hash :: "variant \<Rightarrow> 'a deflate_state_scheme \<Rightarrow> nat \<Rightarrow> nat" where
  "tail_hash v s len =
    (let scan_endstr = drop (strstart s + tail_offset v len) (window s)
     in if v = Slow_Roll then roll3 scan_endstr else UPDATE_HASH_KNUTH (zng_memread_4 scan_endstr))"

definition better_offset :: "variant \<Rightarrow> 'a deflate_state_scheme \<Rightarrow> nat \<Rightarrow> nat \<Rightarrow> (nat \<times> nat) option" where
  "better_offset v s start len =
    (case offset_walk s start [0..<len - match_width v + 1] (start, 0) of
       None \<Rightarrow> None
     | Some (cur_match, ofs) \<Rightarrow>
         let pos = unat (head s ! tail_hash v s len) in
         if pos < cur_match
         then if pos \<le> lm_limit s + tail_offset v len then None else Some (pos, tail_offset v len)
         else Some (cur_match, ofs))"

section \<open>The search\<close>

lemma ctz_ge:
  assumes "w AND zng_first_bytes_mask64 n = 0" and "w \<noteq> 0" and "n \<le> 8"
  shows "n \<le> zng_first_diff_byte64 w"
proof -
  obtain k where k: "bit w k" "\<And>i. i < k \<Longrightarrow> \<not> bit w i" "k < 64" using lowest_bit_exists [OF assms(2)] by auto
  have m: "bit (zng_first_bytes_mask64 n) i" if "i < 8 * n" for i
    using that assms(3) by (simp add: zng_first_bytes_mask64_def bit_drop_bit_eq bit_mask_iff)
  have "\<not> k < 8 * n"
  proof
    assume "k < 8 * n"
    then have "bit (w AND zng_first_bytes_mask64 n) k" using k(1) m by (simp add: bit_and_iff)
    then show False using assms(1) by simp
  qed
  then show ?thesis using zng_ctz64_lowest [OF k(1,2)] by (simp add: zng_first_diff_byte64_def)
qed

lemma short_walk_len:
  assumes "short_walk s best_len ofs limit c m = Some (c', m', short)" and "best_len < 8"
  shows "chain_left c' \<le> chain_left c \<and> (\<forall>len. short = Some len \<longrightarrow> best_len < len)"
  using assms
proof (induction s best_len ofs limit c m rule: short_walk.induct)
  case (1 s best_len ofs limit c m)
  let ?d = "read8 s (strstart s) XOR read8 s (m - ofs)"
  show ?case
  proof (cases "?d = 0 \<or> ?d AND zng_first_bytes_mask64 (best_len + 1) = 0")
    case True
    then show ?thesis
      using 1(2,3) ctz_ge [of ?d "best_len + 1"]
      by (subst (asm) short_walk.simps) (auto simp: Let_def xor_eq_0_iff Suc_le_eq split: if_splits)
  next
    case False
    then have "dec_chain c \<noteq> 0" "short_walk s best_len ofs limit (dec_chain c) (link s m) = Some (c', m', short)"
      "chain_left c' \<le> chain_left (dec_chain c) \<and> (\<forall>len. short = Some len \<longrightarrow> best_len < len)"
      using 1 by (subst (asm) (2) short_walk.simps; auto simp: Let_def xor_eq_0_iff split: if_splits)+
    then show ?thesis using dec_chain_left [of c] by auto
  qed
qed

lemma long_walk_len:
  assumes "long_walk s best_len ofs limit c m = Some (c', m', short)"
  shows "chain_left c' \<le> chain_left c \<and> short = None"
  using assms
proof (induction s best_len ofs limit c m rule: long_walk.induct)
  case (1 s best_len ofs limit c m)
  show ?case
    using 1(2) 1(1) dec_chain_left [of c]
    by (subst (asm) long_walk.simps) (auto split: if_splits)
qed

text \<open>
  The loop of LONGEST_MATCH. \<open>search\<close> is its constant offset_search, and a candidate is compared \<open>ofs\<close> bytes before its position, as the shifted
  base pointers do. The result is the best length and the start of the match.
\<close>

function search_loop :: "variant \<Rightarrow> 'a deflate_state_scheme \<Rightarrow> bool \<Rightarrow> nat \<Rightarrow> nat \<Rightarrow> nat \<Rightarrow> nat \<Rightarrow> nat \<Rightarrow> nat \<Rightarrow> nat \<times> nat" where
  "search_loop v s search chain_length cur_match ofs limit best_len start =
    (if cur_match \<ge> strstart s then (best_len, start)
     else case next_candidate s best_len ofs limit chain_length cur_match of
       None \<Rightarrow> (best_len, start)
     | Some (chain_length, cur_match, short) \<Rightarrow>
         let len = match_length s (cur_match - ofs) short in
         if len > best_len
         then let start = cur_match - ofs in
           if len \<ge> lookahead s then (lookahead s, start)
           else if len \<ge> nice_match s then (len, start)
           else if search \<and> len > STD_MIN_MATCH \<and> start + len < strstart s
           then case better_offset v s start len of
               None \<Rightarrow> (len, start)
             | Some (cur_match, ofs) \<Rightarrow> search_loop v s search chain_length cur_match ofs (lm_limit s + ofs) len start
           else if dec_chain chain_length = 0 \<or> link s cur_match \<le> limit then (len, start)
           else search_loop v s search (dec_chain chain_length) (link s cur_match) ofs limit len start
         else if dec_chain chain_length = 0 \<or> link s cur_match \<le> limit then (best_len, start)
         else search_loop v s search (dec_chain chain_length) (link s cur_match) ofs limit best_len start)"
  by pat_completeness auto

lemma next_candidate_left:
  "next_candidate s best_len ofs limit c m = Some (c', m', short) \<Longrightarrow> dec_chain c' \<noteq> 0 \<Longrightarrow> chain_left (dec_chain c') < chain_left c"
  using short_walk_len [of s best_len ofs limit c m] long_walk_len [of s best_len ofs limit c m] dec_chain_left [of c']
  by (fastforce simp: next_candidate_def split: if_splits)

termination search_loop
proof (relation "measures [\<lambda>(v, s, search, c, m, ofs, limit, best_len, start). lookahead s - best_len,
    \<lambda>(v, s, search, c, m, ofs, limit, best_len, start). chain_left c]", goal_cases)
  case 2
  then show ?case by auto
qed (auto dest: next_candidate_left)

declare search_loop.simps [simp del]

definition longest_match :: "variant \<Rightarrow> nat \<Rightarrow> 'a deflate_state_scheme \<Rightarrow> 'a deflate_state_scheme \<times> nat" where
  "longest_match v cur_match s =
    (let best_len = (if v \<noteq> Fast \<and> prev_length s \<noteq> 0 then prev_length s else STD_MIN_MATCH - 1) in
     if v \<noteq> Fast \<and> best_len \<ge> lookahead s then (s, lookahead s)
     else let search = (v = Slow_Roll \<or> v = Slow_Knuth \<and> best_len \<ge> STD_MIN_MATCH);
              chain_length = (if best_len \<ge> good_match s then max_chain_length s div 4 else max_chain_length s);
              lazy = (v \<noteq> Fast \<and> best_len \<ge> STD_MIN_MATCH);
              (cur_match, ofs) = (if lazy then lazy_offset v s best_len cur_match else (cur_match, 0));
              limit = lm_limit s + ofs
          in if lazy \<and> cur_match \<le> limit then (s, best_len)
             else let (len, start) = search_loop v s search chain_length cur_match ofs limit best_len (match_start s)
               in (s\<lparr>match_start := start\<rparr>, len))"

section \<open>The result is a match\<close>

definition valid_match :: "'a deflate_state_scheme \<Rightarrow> nat \<Rightarrow> nat \<Rightarrow> bool" where
  "valid_match s start len \<longleftrightarrow> start < strstart s \<and> strstart s \<le> start + MAX_DIST s \<and> len \<le> lookahead s \<and> len \<le> STD_MAX_MATCH
     \<and> (\<forall>i < len. window s ! (start + i) = window s ! (strstart s + i))"

text \<open>All entries of a hash table are positions before \<open>n\<close>, or zero.\<close>

definition below :: "nat \<Rightarrow> u16 list \<Rightarrow> bool" where
  "below n tab \<longleftrightarrow> (\<forall>v \<in> set tab. v = 0 \<or> unat v < n)"

lemma below_update: "below n tab \<Longrightarrow> v = 0 \<or> unat v < n \<Longrightarrow> below n (tab[i := v])"
  using set_update_subset_insert [of tab i v] by (auto simp: below_def)

lemma below_nth: "below n tab \<Longrightarrow> i < length tab \<Longrightarrow> tab ! i = 0 \<or> unat (tab ! i) < n"
  by (simp add: below_def)

text \<open>What a search needs: room for an unguarded comparison, and links that point backwards.\<close>

definition search_ok :: "'a deflate_state_scheme \<Rightarrow> bool" where
  "search_ok s \<longleftrightarrow> tables_ok s \<and> strstart s + STD_MAX_MATCH \<le> length (window s) \<and> below (strstart s) (prev s)"

lemma link_below: "search_ok s \<Longrightarrow> limit < link s p \<Longrightarrow> link s p < strstart s"
  using below_nth [OF _ W_MASK_less, of "strstart s" s p] by (auto simp: search_ok_def link_def)

definition candidate_ok :: "'a deflate_state_scheme \<Rightarrow> nat \<Rightarrow> nat \<Rightarrow> nat \<Rightarrow> nat option \<Rightarrow> bool" where
  "candidate_ok s ofs limit m short \<longleftrightarrow> limit \<le> m \<and> m < strstart s
     \<and> (case short of None \<Rightarrow> read8 s (m - ofs) = read8 s (strstart s)
        | Some len \<Rightarrow> read8 s (m - ofs) \<noteq> read8 s (strstart s) \<and> len = zng_first_diff_byte64 (read8 s (strstart s) XOR read8 s (m - ofs)))"

lemma short_walk_ok:
  assumes ok: "search_ok s"
  shows "short_walk s b ofs limit c m = Some (c', m', short) \<Longrightarrow> limit \<le> m \<Longrightarrow> m < strstart s \<Longrightarrow> candidate_ok s ofs limit m' short"
  using ok
proof (induction s b ofs limit c m rule: short_walk.induct)
  case (1 s b ofs limit c m)
  show ?case
    using 1(2-5) 1(1) link_below [OF 1(5), of limit m]
    by (subst (asm) short_walk.simps) (auto simp: Let_def candidate_ok_def split: if_splits)
qed

lemma long_walk_ok:
  assumes ok: "search_ok s"
  shows "long_walk s b ofs limit c m = Some (c', m', short) \<Longrightarrow> limit \<le> m \<Longrightarrow> m < strstart s \<Longrightarrow> candidate_ok s ofs limit m' short"
  using ok
proof (induction s b ofs limit c m rule: long_walk.induct)
  case (1 s b ofs limit c m)
  show ?case
    using 1(2-5) 1(1) link_below [OF 1(5), of limit m]
    by (subst (asm) long_walk.simps) (auto simp: candidate_ok_def split: if_splits)
qed

lemma next_candidate_ok:
  "search_ok s \<Longrightarrow> next_candidate s b ofs limit c m = Some (c', m', short) \<Longrightarrow> limit \<le> m \<Longrightarrow> m < strstart s \<Longrightarrow> candidate_ok s ofs limit m' short"
  unfolding next_candidate_def using short_walk_ok [of s] long_walk_ok [of s] by (metis (full_types))

text \<open>Eight equal bytes, and the comparison from the third byte on.\<close>

lemma compare_after_eight:
  assumes room: "258 \<le> length p" "258 \<le> length q" and t8: "take 8 q = take 8 p"
  shows "compare256_c (drop 2 p) (drop 2 q) \<le> 256" and "i < compare256_c (drop 2 p) (drop 2 q) + 2 \<Longrightarrow> q ! i = p ! i"
proof -
  define k where "k = compare256_c (drop 2 p) (drop 2 q)"
  have l: "256 \<le> length (drop 2 p)" "256 \<le> length (drop 2 q)" using room by simp_all
  have k: "k \<le> 256" "\<And>i. i < k \<Longrightarrow> drop 2 p ! i = drop 2 q ! i" unfolding k_def using cmp_c.cmp_le [OF l] cmp_c.cmp_equal [OF l] by auto
  show "compare256_c (drop 2 p) (drop 2 q) \<le> 256" using k(1) by (simp add: k_def)
  assume "i < compare256_c (drop 2 p) (drop 2 q) + 2"
  then have i: "i < k + 2" by (simp add: k_def)
  show "q ! i = p ! i"
  proof (cases "i < 2")
    case True
    then show ?thesis using arg_cong [OF t8, of "\<lambda>xs. xs ! i"] by simp
  next
    case False
    then obtain j where j: "i = j + 2" by (metis add.commute le_Suc_ex not_less)
    then have "drop 2 p ! j = drop 2 q ! j" using k(2) i by simp
    then show ?thesis using room by (simp add: j)
  qed
qed

lemma match_length_ok:
  assumes ok: "search_ok s" and c: "candidate_ok s ofs (lm_limit s + ofs) m short"
  defines "start \<equiv> m - ofs" and "len \<equiv> match_length s (m - ofs) short"
  shows "start < strstart s \<and> strstart s \<le> start + MAX_DIST s \<and> len \<le> 258 \<and> (\<forall>i < len. window s ! (start + i) = window s ! (strstart s + i))"
proof -
  have m: "lm_limit s + ofs \<le> m" "m < strstart s" using c by (simp_all add: candidate_ok_def)
  then have st: "start < strstart s" "strstart s \<le> start + MAX_DIST s" by (auto simp: start_def lm_limit_def split: if_splits)
  let ?p = "drop (strstart s) (window s)" and ?q = "drop start (window s)"
  have room: "258 \<le> length ?p" "258 \<le> length ?q" using ok st by (auto simp: search_ok_def STD_MAX_MATCH_def)
  have nth: "?p ! i = window s ! (strstart s + i)" "?q ! i = window s ! (start + i)" if "i < 258" for i
    using that room by simp_all
  have r8: "read8 s start = read8 s (strstart s) \<longleftrightarrow> take 8 ?q = take 8 ?p"
    using memread_8_first_diff(1) [of ?q ?p] room by (simp add: read8_def xor_eq_0_iff)
  show ?thesis
  proof (cases short)
    case None
    have t8: "take 8 ?q = take 8 ?p" using c r8 None by (simp add: candidate_ok_def start_def)
    have d: "drop 2 ?p = drop (strstart s + 2) (window s)" "drop 2 ?q = drop (start + 2) (window s)" by (simp_all add: add.commute)
    define k where "k = compare256_c (drop 2 ?p) (drop 2 ?q)"
    have len: "len = k + 2" unfolding d k_def using None by (simp add: len_def match_length_def start_def)
    have k: "k \<le> 256" "\<And>i. i < len \<Longrightarrow> ?q ! i = ?p ! i"
      using compare_after_eight [OF room t8] unfolding len k_def by simp_all
    have "window s ! (start + i) = window s ! (strstart s + i)" if "i < len" for i
      using k that nth len by simp
    then show ?thesis using st len k(1) by simp
  next
    case (Some l)
    have ne: "read8 s (strstart s) XOR read8 s start \<noteq> 0" and "l = zng_first_diff_byte64 (read8 s (strstart s) XOR read8 s start)"
      using c Some by (auto simp: candidate_ok_def start_def xor_eq_0_iff)
    then have l: "l = common_prefix (take 8 ?p) (take 8 ?q)"
      using memread_8_first_diff(2) [of ?p ?q] room by (simp add: read8_def)
    have "len = l" using Some by (simp add: len_def match_length_def)
    moreover have "l \<le> 8" unfolding l using common_prefix_le(1) [of "take 8 ?p" "take 8 ?q"] room by simp
    moreover have "window s ! (start + i) = window s ! (strstart s + i)" if "i < l" for i
    proof -
      have "take 8 ?p ! i = take 8 ?q ! i" using that unfolding l by (rule common_prefix_eq)
      moreover have "i < 8" using that \<open>l \<le> 8\<close> by simp
      ultimately show ?thesis using nth by simp
    qed
    ultimately show ?thesis using st by simp
  qed
qed

lemma offset_walk_ok:
  assumes "offset_walk s start is (p, ofs) = Some (p', ofs')" and "lm_limit s + ofs \<le> p" and "p < strstart s"
  shows "lm_limit s + ofs' \<le> p' \<and> p' < strstart s"
  using assms
proof (induction s start "is" "(p, ofs)" arbitrary: p ofs rule: offset_walk.induct)
  case (2 s start i ns next_pos ofs)
  then show ?case by (auto simp: Let_def split: if_splits)
qed simp

lemma better_offset_ok:
  assumes "better_offset v s start len = Some (p, ofs)" and "lm_limit s \<le> start" and "start < strstart s"
  shows "lm_limit s + ofs \<le> p \<and> p < strstart s"
  using assms offset_walk_ok [of s start "[0..<len - match_width v + 1]" start 0]
  by (fastforce simp: better_offset_def Let_def split: option.splits if_splits)

lemma search_loop_ok:
  assumes "search_ok s" and "lm_limit s + ofs \<le> m" and "limit = lm_limit s + ofs"
    and "search_loop v s search c m ofs limit b st = (len, start)" and "b = b0 \<or> valid_match s st b"
  shows "len = b0 \<or> valid_match s start len"
  using assms
proof (induction v s search c m ofs limit b st rule: search_loop.induct)
  case (1 v s search c m ofs limit b st)
  show ?case
  proof (cases "m \<ge> strstart s \<or> next_candidate s b ofs limit c m = None")
    case True
    then show ?thesis using 1(7,8) by (subst (asm) search_loop.simps) (auto split: if_splits)
  next
    case False
    then obtain c' m' short where n: "next_candidate s b ofs limit c m = Some (c', m', short)" by auto
    have m: "\<not> m \<ge> strstart s" using False by simp
    have c: "candidate_ok s ofs (lm_limit s + ofs) m' short"
      using next_candidate_ok [OF 1(4) n] 1(5,6) False by simp
    define l where "l = match_length s (m' - ofs) short"
    note ml = match_length_ok [OF 1(4) c, folded l_def]
    have v: "valid_match s (m' - ofs) (min l (lookahead s))" using ml by (auto simp: valid_match_def STD_MAX_MATCH_def)
    have lim: "lm_limit s \<le> m' - ofs" "m' - ofs < strstart s" using c by (auto simp: candidate_ok_def)
    have next_ok: "lm_limit s + ofs \<le> link s m'" if "\<not> (dec_chain c' = 0 \<or> link s m' \<le> limit)" using that 1(6) by simp
    note loop = 1(7) [unfolded search_loop.simps [of v s search c m]]
    note IH = 1(1-3) [OF m n refl refl refl, folded l_def]
    show ?thesis
    proof (cases "l > b")
      case F: False
      show ?thesis
      proof (cases "dec_chain c' = 0 \<or> link s m' \<le> limit")
        case True
        then show ?thesis using loop m n F 1(8) by (auto simp: Let_def simp flip: l_def)
      next
        case G: False
        then have "search_loop v s search (dec_chain c') (link s m') ofs limit b st = (len, start)"
          using loop m n F by (simp add: Let_def flip: l_def)
        then show ?thesis using IH(3) [OF F G 1(4) next_ok [OF G] 1(6) _ 1(8)] by simp
      qed
    next
      case T: True
      show ?thesis
      proof (cases "l \<ge> lookahead s \<or> l \<ge> nice_match s")
        case True
        then show ?thesis using loop m n T v by (auto simp: Let_def min_def simp flip: l_def split: if_splits)
      next
        case N: False
        have vl: "b0 = b0 \<and> valid_match s (m' - ofs) l" using v N by (simp add: min_def)
        then have vl': "l = b0 \<or> valid_match s (m' - ofs) l" by simp
        show ?thesis
        proof (cases "search \<and> l > STD_MIN_MATCH \<and> m' - ofs + l < strstart s")
          case S: True
          show ?thesis
          proof (cases "better_offset v s (m' - ofs) l")
            case None
            then show ?thesis using loop m n T N S vl by (auto simp: Let_def simp flip: l_def)
          next
            case (Some pp)
            obtain p' ofs' where pp: "pp = (p', ofs')" by (cases pp)
            have "search_loop v s search c' p' ofs' (lm_limit s + ofs') l (m' - ofs) = (len, start)"
              using loop m n T N S Some pp by (auto simp: Let_def simp flip: l_def)
            then show ?thesis
              using IH(1) [OF T refl _ _ S Some pp [symmetric] 1(4) _ refl _ vl'] better_offset_ok [OF Some [unfolded pp] lim] N by simp
          qed
        next
          case S: False
          show ?thesis
          proof (cases "dec_chain c' = 0 \<or> link s m' \<le> limit")
            case True
            then show ?thesis using loop m n T N S vl by (auto simp: Let_def simp flip: l_def)
          next
            case G: False
            then have "search_loop v s search (dec_chain c') (link s m') ofs limit l (m' - ofs) = (len, start)"
              using loop m n T N S by (auto simp: Let_def simp flip: l_def)
            then show ?thesis using IH(2) [OF T refl _ _ S G 1(4) next_ok [OF G] 1(6) _ vl'] N by simp
          qed
        qed
      qed
    qed
  qed
qed

lemma lazy_roll_le: "fst (lazy_roll s h ns st) \<le> fst st"
proof (induction s h ns st rule: lazy_roll.induct)
  case (2 s hash i ns cur_match ofs)
  show ?case unfolding lazy_roll.simps Let_def by (rule order.trans [OF 2 [OF refl refl]]) auto
qed simp

lemma lazy_knuth_le: "fst (lazy_knuth s ns st) \<le> fst st"
proof (induction s ns st rule: lazy_knuth.induct)
  case (2 s i ns cur_match ofs)
  show ?case unfolding lazy_knuth.simps Let_def by (rule order.trans [OF 2 [OF refl]]) auto
qed simp

lemma lazy_offset_le: "fst (lazy_offset v s b m) \<le> m"
  using lazy_roll_le lazy_knuth_le by (fastforce simp: lazy_offset_def Let_def)

text \<open>The length that a search has to exceed.\<close>

definition start_length :: "variant \<Rightarrow> 'a deflate_state_scheme \<Rightarrow> nat" where
  "start_length v s = (if v \<noteq> Fast \<and> prev_length s \<noteq> 0 then prev_length s else STD_MIN_MATCH - 1)"

lemma longest_match_ok:
  assumes ok: "search_ok s" and m: "lm_limit s \<le> cur_match" "cur_match < strstart s"
    and r: "longest_match v cur_match s = (s', len)"
  shows "s' = s\<lparr>match_start := match_start s'\<rparr>"
    and "len \<le> start_length v s \<or> valid_match s (match_start s') len"
proof -
  define b where "b = start_length v s"
  define search where "search = (v = Slow_Roll \<or> v = Slow_Knuth \<and> b \<ge> STD_MIN_MATCH)"
  define chain where "chain = (if b \<ge> good_match s then max_chain_length s div 4 else max_chain_length s)"
  define lazy where "lazy = (v \<noteq> Fast \<and> b \<ge> STD_MIN_MATCH)"
  obtain cur ofs where co: "(if lazy then lazy_offset v s b cur_match else (cur_match, 0)) = (cur, ofs)" by fastforce
  have l: "longest_match v cur_match s = (if v \<noteq> Fast \<and> b \<ge> lookahead s then (s, lookahead s)
      else if lazy \<and> cur \<le> lm_limit s + ofs then (s, b)
      else (s\<lparr>match_start := snd (search_loop v s search chain cur ofs (lm_limit s + ofs) b (match_start s))\<rparr>,
            fst (search_loop v s search chain cur ofs (lm_limit s + ofs) b (match_start s))))"
    using co unfolding longest_match_def Let_def start_length_def [symmetric] b_def [symmetric] search_def [symmetric] lazy_def [symmetric]
    by (simp add: chain_def case_prod_beta)
  show "s' = s\<lparr>match_start := match_start s'\<rparr>" using r by (auto simp: l split: if_splits)
  have cur: "cur \<le> cur_match" using co lazy_offset_le [of v s b cur_match] by (auto split: if_splits)
  show "len \<le> start_length v s \<or> valid_match s (match_start s') len"
  proof (cases "(v \<noteq> Fast \<and> b \<ge> lookahead s) \<or> (lazy \<and> cur \<le> lm_limit s + ofs)")
    case True
    then have "len \<le> b" using r unfolding l by (auto split: if_splits)
    then show ?thesis by (simp add: b_def)
  next
    case False
    then have lim: "lm_limit s + ofs \<le> cur" using co m by (auto split: if_splits)
    obtain ln st where sl: "search_loop v s search chain cur ofs (lm_limit s + ofs) b (match_start s) = (ln, st)" by fastforce
    have "ln = b \<or> valid_match s st ln" using search_loop_ok [OF ok lim refl sl] by simp
    moreover have "len = ln" "match_start s' = st" using r False sl unfolding l by (auto split: if_splits)
    ultimately show ?thesis by (auto simp: b_def)
  qed
qed

section \<open>The contract of a match finder\<close>

text \<open>What the strategies rely on: the search changes nothing but match_start, and a length beyond \<open>floor\<close> is that of a real match.\<close>

locale match_finder =
  fixes find :: "nat \<Rightarrow> 'a deflate_state_scheme \<Rightarrow> 'a deflate_state_scheme \<times> nat" and floor :: "'a deflate_state_scheme \<Rightarrow> nat"
  assumes find_frame: "search_ok s \<Longrightarrow> lm_limit s \<le> m \<Longrightarrow> m < strstart s \<Longrightarrow> fst (find m s) = s\<lparr>match_start := match_start (fst (find m s))\<rparr>"
    and find_match: "search_ok s \<Longrightarrow> lm_limit s \<le> m \<Longrightarrow> m < strstart s \<Longrightarrow> floor s < snd (find m s) \<Longrightarrow>
      valid_match s (match_start (fst (find m s))) (snd (find m s))"
begin

text \<open>Appending the match to what precedes it yields what the window holds.\<close>

lemma find_copies:
  assumes "search_ok s" "lm_limit s \<le> m" "m < strstart s" "floor s < snd (find m s)" "i < snd (find m s)"
  shows "window s ! (strstart s + i) = window s ! (strstart s - (strstart s - match_start (fst (find m s))) + i)"
  using find_match [OF assms(1-4)] assms(5) by (simp add: valid_match_def)

end

interpretation fast_match: match_finder "longest_match Fast" "start_length Fast"
  by unfold_locales (metis longest_match_ok prod.collapse not_le)+

interpretation slow_knuth_match: match_finder "longest_match Slow_Knuth" "start_length Slow_Knuth"
  by unfold_locales (metis longest_match_ok prod.collapse not_le)+

interpretation slow_roll_match: match_finder "longest_match Slow_Roll" "start_length Slow_Roll"
  by unfold_locales (metis longest_match_ok prod.collapse not_le)+

section \<open>Properties\<close>

text \<open>
  C8: Whatever the hash chains hold, a length beyond the one it started from that longest_match returns, in any of its variants, belongs to a real match: the start is
  at a distance from 1 to MAX_DIST, the length does not exceed the lookahead or 258, and the bytes agree. Only match_start changes. The
  search terminates, also when the chains form a cycle.
\<close>

theorem longest_match_sound:
  assumes "tables_ok s" and "strstart s + STD_MAX_MATCH \<le> length (window s)" and "\<forall>v \<in> set (prev s). v = 0 \<or> unat v < strstart s"
    and "lm_limit s \<le> cur_match" and "cur_match < strstart s"
    and "longest_match v cur_match s = (s', len)" and "start_length v s < len"
  shows "s' = s\<lparr>match_start := match_start s'\<rparr> \<and> match_start s' < strstart s \<and> strstart s - match_start s' \<le> MAX_DIST s
    \<and> len \<le> lookahead s \<and> len \<le> STD_MAX_MATCH \<and> (\<forall>i < len. window s ! (match_start s' + i) = window s ! (strstart s + i))"
proof -
  have ok: "search_ok s" using assms(1-3) by (simp add: search_ok_def below_def)
  show ?thesis using longest_match_ok [OF ok assms(4-6)] assms(7) by (auto simp: valid_match_def)
qed

text \<open>A window of zeros: the first candidate agrees everywhere.\<close>

definition zero_run :: deflate_state where
  "zero_run = zero_mem 512 4\<lparr>strstart := 100, lookahead := 300, nice_match := 32, max_chain_length := 4, good_match := 8\<rparr>"

lemma zero_run_search: "longest_match Fast 50 zero_run = (zero_run\<lparr>match_start := 50\<rparr>, 258)"
proof -
  have w: "window zero_run = replicate 32768 0" by (simp add: zero_run_def zero_mem_def)
  have f: "strstart zero_run = 100" "lookahead zero_run = 300" "nice_match zero_run = 32" "good_match zero_run = 8" "max_chain_length zero_run = 4"
    by (simp_all add: zero_run_def)
  have r: "read8 zero_run p = zng_memread_8 (replicate 8 0)" if "p \<le> 1000" for p
    using that by (simp add: read8_def w zng_memread_8_def)
  have "compare256_c (replicate 32666 0) (replicate 32716 0) = 256"
    using cmp_c.cmp [of "replicate 32666 0" "replicate 32716 0"] common_prefix_eq_length [of "replicate 256 (0 :: u8)" "replicate 256 0"]
    by simp
  then have ml: "match_length zero_run 50 None = 258" by (simp add: match_length_def f w)
  have "next_candidate zero_run 2 0 l c 50 = Some (c, 50, None)" for l c
    by (subst next_candidate_def, subst short_walk.simps) (simp add: f r)
  then have "search_loop Fast zero_run False 4 50 0 l 2 st = (258, 50)" for l st
    by (subst search_loop.simps) (simp add: f ml)
  then show ?thesis by (simp add: longest_match_def f STD_MIN_MATCH_def)
qed

theorem longest_match_sound_witness:
  "snd (longest_match Fast 50 zero_run) = 258 \<and> match_start (fst (longest_match Fast 50 zero_run)) < 100"
proof -
  have "tables_ok zero_run" using zero_mem_tables [of 9 4] by (simp add: tables_ok_def zero_run_def)
  moreover have "strstart zero_run + STD_MAX_MATCH \<le> length (window zero_run)" "\<forall>v \<in> set (prev zero_run). v = 0 \<or> unat v < strstart zero_run"
    by (simp_all add: zero_run_def zero_mem_def STD_MAX_MATCH_def)
  moreover have "lm_limit zero_run \<le> 50" "50 < strstart zero_run" "strstart zero_run = 100" "start_length Fast zero_run < 258"
    by (simp_all add: lm_limit_def MAX_DIST_def zero_run_def zero_mem_def match_consts start_length_def)
  ultimately show ?thesis using longest_match_sound [OF _ _ _ _ _ zero_run_search] by (simp add: zero_run_search)
qed

end
