(* ===== verification/Lz77.thy ===== *)
theory Lz77
  imports Trees_Flush
begin

text \<open>
  The meaning of a deflate stream (RFC 1951, 3.2): the expansion of literals and matches over the output so far, and the decoding of a sequence of blocks.
  This is the specification that the compressor's output is measured against.
\<close>

section \<open>Expansion\<close>

fun copy_match :: "nat \<Rightarrow> nat \<Rightarrow> bytes \<Rightarrow> bytes" where
  "copy_match dist 0 out = out"
| "copy_match dist (Suc n) out = copy_match dist n (out @ [out ! (length out - dist)])"

text \<open>A symbol is a literal (distance zero) or a distance and a length minus three.\<close>

fun expand :: "(nat \<times> nat) list \<Rightarrow> bytes \<Rightarrow> bytes option" where
  "expand [] out = Some out"
| "expand ((dist, lc) # ss) out =
    (if dist = 0 then expand ss (out @ [of_nat lc])
     else if dist \<le> length out then expand ss (copy_match dist (lc + 3) out)
     else None)"

fun expand_block :: "block \<Rightarrow> bytes \<Rightarrow> bytes option" where
  "expand_block (Stored data) out = Some (out @ data)"
| "expand_block (Coded ss) out = expand ss out"

lemma copy_match_append: "\<exists>zs. copy_match dist n out = out @ zs \<and> length zs = n"
proof (induction n arbitrary: out)
  case (Suc n)
  obtain zs where "copy_match dist n (out @ [out ! (length out - dist)]) = (out @ [out ! (length out - dist)]) @ zs" "length zs = n"
    using Suc by blast
  then show ?case by (intro exI [of _ "out ! (length out - dist) # zs"]) simp
qed simp

lemma expand_append: "expand (as @ bs) out = Option.bind (expand as out) (expand bs)"
  by (induction as out rule: expand.induct) auto

lemma expand_prefix: "expand ss out = Some out' \<Longrightarrow> \<exists>zs. out' = out @ zs"
proof (induction ss out arbitrary: out' rule: expand.induct)
  case (2 dist lc ss out)
  show ?case
  proof (cases "dist = 0")
    case True
    then show ?thesis using 2(1) [OF True, of out'] 2(3) by auto
  next
    case False
    then have d: "dist \<le> length out" using 2(3) by (auto split: if_splits)
    then obtain zs where "out' = copy_match dist (lc + 3) out @ zs" using 2(2) [OF False d, of out'] 2(3) False by auto
    then show ?thesis using copy_match_append [of dist "lc + 3" out] by auto
  qed
qed simp

lemma expand_block_prefix: "expand_block b out = Some out' \<Longrightarrow> \<exists>zs. out' = out @ zs"
  by (cases b) (auto dest: expand_prefix)

text \<open>A copy of bytes that agree with those at the distance.\<close>

lemma copy_match_take:
  assumes "1 \<le> dist" "dist \<le> p" "p + n \<le> length D" and "\<And>i. i < n \<Longrightarrow> D ! (p + i) = D ! (p - dist + i)"
  shows "copy_match dist n (take p D) = take (p + n) D"
  using assms
proof (induction n arbitrary: p)
  case (Suc n)
  have "take p D ! (p - dist) = D ! p" using Suc.prems(1-3) Suc.prems(4) [of 0] by simp
  then have step: "take p D @ [take p D ! (length (take p D) - dist)] = take (Suc p) D"
    using Suc.prems(3) by (simp add: take_Suc_conv_app_nth min_def)
  have "copy_match dist n (take (Suc p) D) = take (Suc p + n) D"
  proof (rule Suc.IH)
    fix i assume "i < n"
    then have "D ! (p + Suc i) = D ! (p - dist + Suc i)" using Suc.prems(4) [of "Suc i"] by simp
    moreover have "Suc p - dist = Suc (p - dist)" using Suc.prems(2) by simp
    ultimately show "D ! (Suc p + i) = D ! (Suc p - dist + i)" by simp
  qed (use Suc.prems in simp_all)
  then show ?case unfolding copy_match.simps step by simp
qed simp

section \<open>A sequence of blocks\<close>

lemma read_items_shorter: "read_items ll dls bs = Some (ss, bs') \<Longrightarrow> length bs' < length bs"
proof (induction ll dls bs arbitrary: ss bs' rule: read_items.induct)
  case (1 ll dls bs)
  then obtain i b where i: "read_item ll dls bs = Some (i, b)" by (subst (asm) (3) read_items.simps) (auto split: option.splits)
  note sh = read_item_shorter [OF i]
  show ?case
  proof (cases i)
    case (Lit c)
    then obtain ss' where "read_items ll dls b = Some (ss', bs')" using 1(3) i by (subst (asm) read_items.simps) auto
    then show ?thesis using 1(1) [OF i refl Lit] sh by fastforce
  next
    case (Match d l)
    then obtain ss' where "read_items ll dls b = Some (ss', bs')" using 1(3) i by (subst (asm) read_items.simps) auto
    then show ?thesis using 1(2) [OF i refl Match] sh by fastforce
  next
    case End_of_block
    then show ?thesis using 1(3) i sh by (subst (asm) read_items.simps) simp
  qed
qed

lemma read_many_shorter: "read_many w n bs = Some (xs, bs') \<Longrightarrow> length bs' \<le> length bs"
proof (induction n arbitrary: bs xs)
  case (Suc n)
  then show ?case by (fastforce split: Option.bind_splits dest: read_bits_shorter)
qed simp

lemma read_lens_shorter: "read_lens bl n acc bs = Some (ls, bs') \<Longrightarrow> length bs' \<le> length bs"
proof (induction bl n acc bs rule: read_lens.induct)
  case (1 bl n acc bs)
  show ?case
  proof (cases "n = 0")
    case True
    then show ?thesis using 1(3) by (simp add: read_lens.simps)
  next
    case n: False
    then obtain c b where c: "read_code bl bs = Some (c, b)" using 1(3) by (subst (asm) read_lens.simps) (auto split: Option.bind_splits)
    note sh = read_code_shorter [OF c]
    show ?thesis
    proof (cases "c < 16")
      case True
      then have "read_lens bl (n - 1) (acc @ [c]) b = Some (ls, bs')" using 1(3) n c by (subst (asm) read_lens.simps) simp
      then show ?thesis using 1(1) [OF n c refl True] sh by simp
    next
      case False
      let ?w = "if c = 16 then 2 else if c = 17 then 3 else 7 :: nat" and ?z = "if c = 16 then List.last acc else 0"
      obtain x b' where x: "read_bits ?w b = Some (x, b')" using 1(3) n c False by (subst (asm) read_lens.simps) (auto split: Option.bind_splits)
      let ?k = "(if c = 18 then 11 else 3) + x"
      have "\<not> (c = 16 \<and> acc = [] \<or> n < ?k)" "read_lens bl (n - ?k) (acc @ replicate ?k ?z) b' = Some (ls, bs')"
        using 1(3) n c False x by (subst (asm) read_lens.simps; simp add: Let_def split: if_splits)+
      then show ?thesis using 1(2) [OF n c refl False x refl refl] sh read_bits_shorter [OF x] by simp
    qed
  qed
qed

lemma read_bits_1: "read_bits (Suc 0) bs = Some (x, bs') \<Longrightarrow> length bs = Suc (length bs')"
  by (auto simp: read_bits_def split: if_splits)

lemma read_header_shorter: "read_header bs = Some (ll, dls, bs') \<Longrightarrow> length bs' \<le> length bs"
  by (auto simp: read_header_def Let_def split: Option.bind_splits dest!: read_bits_shorter read_many_shorter read_lens_shorter)

lemma read_block_shorter:
  assumes "read_block pos bs = Some (fin, b, bs')"
  shows "length bs' < length bs"
proof -
  obtain f b1 where r: "read_bits 1 bs = Some (f, b1)" using assms by (auto simp: read_block_def split: Option.bind_splits)
  then have "length bs = Suc (length b1)" using read_bits_1 by simp
  moreover have "length bs' \<le> length b1"
    using assms r by (auto simp: read_block_def split: Option.bind_splits if_splits
        dest!: read_bits_shorter read_many_shorter read_header_shorter read_items_shorter)
  ultimately show ?thesis by simp
qed

text \<open>The decoder: blocks up to the final one. The result is the output and what follows the stream.\<close>

function rfc_inflate :: "nat \<Rightarrow> bool list \<Rightarrow> bytes \<Rightarrow> (bytes \<times> bool list) option" where
  "rfc_inflate pos bs out = (case read_block pos bs of
     None \<Rightarrow> None
   | Some (fin, b, bs') \<Rightarrow> (case expand_block b out of
       None \<Rightarrow> None
     | Some out \<Rightarrow> if fin then Some (out, bs') else rfc_inflate (pos + (length bs - length bs')) bs' out))"
  by pat_completeness auto
termination by (relation "measure (\<lambda>(pos, bs, out). length bs)") (auto dest: read_block_shorter)

declare rfc_inflate.simps [simp del]

text \<open>Complete blocks, none of them final, that extend the output.\<close>

inductive blocks_read :: "nat \<Rightarrow> bytes \<Rightarrow> bool list \<Rightarrow> bytes \<Rightarrow> bool" for pos :: nat and hist :: bytes where
  none: "blocks_read pos hist [] hist"
| more: "blocks_read pos hist bs out \<Longrightarrow> block_bits (pos + length bs) False b cs \<Longrightarrow> expand_block b out = Some out' \<Longrightarrow>
    blocks_read pos hist (bs @ cs) out'"

lemma blocks_read_inflate:
  "blocks_read pos hist bs out \<Longrightarrow> rfc_inflate pos (bs @ rest) hist = rfc_inflate (pos + length bs) rest out"
proof (induction bs out arbitrary: rest rule: blocks_read.induct)
  case (more bs out b cs out')
  have "rfc_inflate (pos + length bs) (cs @ rest) out = rfc_inflate (pos + length bs + length cs) rest out'"
    using more.hyps(2,3) by (subst rfc_inflate.simps) (simp add: block_bits_def)
  then show ?case using more.IH [of "cs @ rest"] by (simp add: add.assoc)
qed simp

lemma blocks_read_final:
  assumes "blocks_read pos hist bs out" and "block_bits (pos + length bs) True b cs" and "expand_block b out = Some out'"
  shows "rfc_inflate pos (bs @ cs @ rest) hist = Some (out', rest)"
  unfolding blocks_read_inflate [OF assms(1)]
  using assms(2,3) by (subst rfc_inflate.simps) (simp add: block_bits_def)

lemma blocks_read_prefix: "blocks_read pos hist bs out \<Longrightarrow> \<exists>zs. out = hist @ zs"
proof (induction rule: blocks_read.induct)
  case (more bs out b cs out')
  then show ?case using expand_block_prefix by fastforce
qed simp

lemma read_block_mod: "read_block (8 * k + pos) bs = read_block pos bs"
proof -
  have "- int (8 * k + pos + 3) mod 8 = - int (pos + 3) mod 8"
    using mod_mult_self2 [of "- int (pos + 3)" 8 "- int k"] by (simp add: algebra_simps)
  then show ?thesis unfolding read_block_def by (simp only:)
qed

lemma block_bits_mod: "block_bits (8 * k + pos) = block_bits pos"
  by (simp add: block_bits_def fun_eq_iff read_block_mod)

end
