(* ===== verification/Window.thy ===== *)
theory Window
  imports Match_Finder Adler32 Crc32 Lz77
begin

text \<open>
  The input and output sides of the compressor: delivery of pending bytes and reading of input (deflate_p.h), the sliding window (fill_window of deflate.c) and the end
  of a block. The lemmas state what the window holds in terms of all the data read so far.
\<close>

section \<open>Output and input (deflate\_p.h)\<close>

definition flush_pending :: "'a deflate_state_scheme \<Rightarrow> 'a deflate_state_scheme" where
  "flush_pending s =
    (let s = zng_tr_flush_bits s; len = min (length (pending_buf s)) (avail_out s) in
     if len = 0 then s
     else s\<lparr>next_out := next_out s @ take len (pending_buf s), pending_buf := drop len (pending_buf s),
       pending_out := (if len = length (pending_buf s) then 0 else pending_out s + len),
       total_out := total_out s + len, avail_out := avail_out s - len\<rparr>)"

text \<open>
  The bytes read are returned; the caller stores them. The value of a checksum does not depend on the alignment of its input, which is taken to be zero.
\<close>

definition read_buf :: "nat \<Rightarrow> 'a deflate_state_scheme \<Rightarrow> bytes \<times> 'a deflate_state_scheme" where
  "read_buf room s =
    (let len = min (length (next_in s)) room; src = take len (next_in s) in
     if len = 0 then ([], s)
     else let (check, buf) = (if wrap s = 2 then crc32_copy_braid 0 (adler s) src
                  else if wrap s = 1 then adler32_copy_c 0 (adler s) src else (adler s, src))
       in (buf, s\<lparr>adler := check, next_in := drop len (next_in s), total_in := total_in s + len\<rparr>))"

definition Z_HUFFMAN_ONLY :: int where "Z_HUFFMAN_ONLY = 2"
definition Z_RLE :: int where "Z_RLE = 3"

definition HASHLESS :: "int \<Rightarrow> int \<Rightarrow> bool" where
  "HASHLESS lev strat = (lev = 0 \<or> strat = Z_HUFFMAN_ONLY \<or> strat = Z_RLE)"

definition insert_batch :: "nat \<Rightarrow> nat \<Rightarrow> 'a deflate_state_scheme \<Rightarrow> 'a deflate_state_scheme" where
  "insert_batch str cnt s =
    (if level s \<ge> MIN_ROLL_LEVEL then insert_roll_batch str cnt s
     else if level s = 1 then insert_knuth_batch_head str cnt s
     else insert_knuth_batch str cnt s)"

section \<open>fill\_window\<close>

definition slide_data :: "nat \<Rightarrow> 'a deflate_state_scheme \<Rightarrow> 'a deflate_state_scheme" where
  "slide_data slide s =
    (let live = strstart s + lookahead s - slide in s\<lparr>window := take live (drop slide (window s)) @ drop live (window s)\<rparr>)"

definition slide_match :: "nat \<Rightarrow> 'a deflate_state_scheme \<Rightarrow> 'a deflate_state_scheme" where
  "slide_match slide s =
    (if match_start s \<ge> slide then s\<lparr>match_start := match_start s - slide\<rparr> else s\<lparr>match_start := 0, prev_length := 0\<rparr>)"

definition slide_positions :: "nat \<Rightarrow> 'a deflate_state_scheme \<Rightarrow> 'a deflate_state_scheme" where
  "slide_positions slide s =
    (let str = strstart s - slide
     in s\<lparr>strstart := str, block_start := block_start s - int slide, fill_end := fill_end s - slide,
          to_insert := (if to_insert s > str then str else to_insert s)\<rparr>)"

definition slide_tables :: "nat \<Rightarrow> 'a deflate_state_scheme \<Rightarrow> 'a deflate_state_scheme" where
  "slide_tables slide s =
    (if HASHLESS (level s) (strategy s) then s
     else let s = s\<lparr>slide_len := slide\<rparr> in if level s = 1 then slide_hash_head_c s else slide_hash_c s)"

definition slide_window :: "'a deflate_state_scheme \<Rightarrow> 'a deflate_state_scheme" where
  "slide_window s =
    (let n = strstart s - MAX_DIST s; slide = n - (n AND W_MASK s)
     in slide_tables slide (slide_positions slide (slide_match slide (slide_data slide s))))"

definition make_room :: "'a deflate_state_scheme \<Rightarrow> 'a deflate_state_scheme" where
  "make_room s =
    (let s = (if strstart s \<ge> fill_end s then s\<lparr>fill_end := fill_end s + w_size s\<rparr> else s)
     in if fill_end s > window_size s - MIN_LOOKAHEAD then slide_window s else s)"

text \<open>Insertion of the strings at the end of the previous input, which now have enough bytes.\<close>

definition insert_before :: "nat \<Rightarrow> 'a deflate_state_scheme \<Rightarrow> 'a deflate_state_scheme" where
  "insert_before str s =
    (if level s \<ge> MIN_ROLL_LEVEL
     then s\<lparr>ins_h := update_hash_roll (ucast (window s ! str)) (ucast (window s ! (str + 1)))\<rparr>
     else if str \<ge> 1
     then if level s = 1 then fst (insert_knuth_head (str + 2 - STD_MIN_MATCH) s)
       else fst (insert_knuth (str + 2 - STD_MIN_MATCH) s)
     else s)"

definition insert_counted :: "nat \<Rightarrow> 'a deflate_state_scheme \<Rightarrow> 'a deflate_state_scheme" where
  "insert_counted str s =
    (let cnt = (if lookahead s = 1 then to_insert s - 1 else to_insert s)
     in if cnt > 0 then let s = insert_batch str cnt s in s\<lparr>to_insert := to_insert s - cnt\<rparr> else s)"

definition insert_pending :: "'a deflate_state_scheme \<Rightarrow> 'a deflate_state_scheme" where
  "insert_pending s =
    (if \<not> HASHLESS (level s) (strategy s) \<and> lookahead s + to_insert s \<ge> STD_MIN_MATCH
     then let str = strstart s - to_insert s in insert_counted str (insert_before str s)
     else s)"

definition append_input :: "'a deflate_state_scheme \<Rightarrow> 'a deflate_state_scheme" where
  "append_input s =
    (let more = fill_end s + MIN_LOOKAHEAD - lookahead s - strstart s; pos = strstart s + lookahead s;
         (buf, s) = read_buf more s
     in s\<lparr>window := take pos (window s) @ buf @ drop (pos + length buf) (window s), lookahead := lookahead s + length buf\<rparr>)"

text \<open>The loop ends because every round reads some input; without room it would not.\<close>

partial_function (option) fill_loop :: "'a deflate_state_scheme \<Rightarrow> 'a deflate_state_scheme option" where
  "fill_loop s =
    (let s = make_room s in
     if next_in s = [] then Some s
     else let s = insert_pending (append_input s) in
       if lookahead s < MIN_LOOKAHEAD \<and> next_in s \<noteq> [] then fill_loop s else Some s)"

definition memset_window :: "nat \<Rightarrow> nat \<Rightarrow> 'a deflate_state_scheme \<Rightarrow> 'a deflate_state_scheme" where
  "memset_window pos n s = s\<lparr>window := take pos (window s) @ replicate n 0 @ drop (pos + n) (window s)\<rparr>"

definition WIN_INIT :: nat where "WIN_INIT = STD_MAX_MATCH"

definition zero_high_water :: "'a deflate_state_scheme \<Rightarrow> 'a deflate_state_scheme" where
  "zero_high_water s =
    (if high_water s < window_size s
     then let curr = strstart s + lookahead s in
       if high_water s < curr
       then let init = min (window_size s - curr) WIN_INIT in (memset_window curr init s)\<lparr>high_water := curr + init\<rparr>
       else if high_water s < curr + WIN_INIT
       then let init = min (curr + WIN_INIT - high_water s) (window_size s - high_water s)
         in (memset_window (high_water s) init s)\<lparr>high_water := high_water s + init\<rparr>
       else s
     else s)"

definition fill_window :: "'a deflate_state_scheme \<Rightarrow> 'a deflate_state_scheme option" where
  "fill_window s = map_option zero_high_water (fill_loop s)"

section \<open>The end of a block\<close>

text \<open>
  The block is appended to the pending bytes, so it must not start while a part of them has been delivered and the rest has not: the program would write over the rest.
  Such a state has no successor in the model.
\<close>

definition FLUSH_BLOCK_ONLY :: "bool \<Rightarrow> 'a deflate_state_scheme \<Rightarrow> 'a deflate_state_scheme option" where
  "FLUSH_BLOCK_ONLY is_last s =
    (if pending_out s \<noteq> 0 then None
     else let buf = (if block_start s \<ge> 0 then Some (drop (nat (block_start s)) (window s)) else None) in
     map_option (\<lambda>s. flush_pending (s\<lparr>block_start := int (strstart s)\<rparr>))
       (zng_tr_flush_block buf (of_int (int (strstart s) - block_start s)) is_last s))"

text \<open>The second component is the value that the compression function returns early, if it does.\<close>

definition FLUSH_BLOCK :: "bool \<Rightarrow> 'a deflate_state_scheme \<Rightarrow> ('a deflate_state_scheme \<times> block_state option) option" where
  "FLUSH_BLOCK is_last s =
    map_option (\<lambda>s. (s, if avail_out s = 0 then Some (if is_last then finish_started else need_more) else None)) (FLUSH_BLOCK_ONLY is_last s)"

section \<open>What the operations leave alone\<close>

text \<open>The part of the state that belongs to the coder and to the application, which the window operations do not touch.\<close>

definition same_coder :: "'a deflate_state_scheme \<Rightarrow> 'a deflate_state_scheme \<Rightarrow> bool" where
  "same_coder s s' \<longleftrightarrow> tree_state.truncate s' = tree_state.truncate s \<and> next_out s' = next_out s \<and> avail_out s' = avail_out s
     \<and> total_out s' = total_out s \<and> wrap s' = wrap s \<and> status s' = status s \<and> last_flush s' = last_flush s
     \<and> w_size s' = w_size s \<and> window_size s' = window_size s
     \<and> match_available s' = match_available s \<and> prev_match s' = prev_match s \<and> max_chain_length s' = max_chain_length s
     \<and> max_lazy_match s' = max_lazy_match s \<and> good_match s' = good_match s \<and> nice_match s' = nice_match s
     \<and> lit_bufsize s' = lit_bufsize s \<and> pending_buf_size s' = pending_buf_size s \<and> block_open s' = block_open s
     \<and> reproducible s' = reproducible s \<and> gzhead s' = gzhead s \<and> gzindex s' = gzindex s \<and> pending_out s' = pending_out s"

lemma same_coder_refl [simp]: "same_coder s s" by (simp add: same_coder_def)

lemma same_coder_trans [trans]: "same_coder s s' \<Longrightarrow> same_coder s' s'' \<Longrightarrow> same_coder s s''"
  by (simp add: same_coder_def)

lemma same_coder_fields:
  assumes "same_coder s s'"
  shows "level s' = level s" "strategy s' = strategy s" "w_size s' = w_size s" "window_size s' = window_size s" "written s' = written s"
    "bit_inv s' = bit_inv s" "tallied s' = tallied s" "tally_inv s' = tally_inv s" "sym_end s' = sym_end s" "sym_next s' = sym_next s"
    "MAX_DIST s' = MAX_DIST s" "W_MASK s' = W_MASK s"
  using assms
  by (simp_all add: same_coder_def tree_state.truncate_def written_def bit_inv_def tallied_def tally_inv_def MAX_DIST_def W_MASK_def)

lemma same_coder_updates [simp]:
  "same_coder s (s\<lparr>prev := a\<rparr>)" "same_coder s (s\<lparr>head := a\<rparr>)" "same_coder s (s\<lparr>ins_h := b\<rparr>)" "same_coder s (s\<lparr>window := c\<rparr>)"
  "same_coder s (s\<lparr>match_start := d\<rparr>)" "same_coder s (s\<lparr>strstart := d\<rparr>)" "same_coder s (s\<lparr>lookahead := d\<rparr>)"
  by (simp_all add: same_coder_def tree_state.truncate_def)

text \<open>Insertion changes the hash tables only.\<close>

definition hash_only :: "'a deflate_state_scheme \<Rightarrow> 'a deflate_state_scheme \<Rightarrow> bool" where
  "hash_only s s' \<longleftrightarrow> s' = s\<lparr>prev := prev s', head := head s', ins_h := ins_h s'\<rparr>"

lemma hash_only_refl: "hash_only s s" by (simp add: hash_only_def)

lemma hash_only_trans:
  assumes "hash_only s s'" and "hash_only s' s''"
  shows "hash_only s s''"
proof -
  have "s'' = (s\<lparr>prev := prev s', head := head s', ins_h := ins_h s'\<rparr>)\<lparr>prev := prev s'', head := head s'', ins_h := ins_h s''\<rparr>"
    using assms unfolding hash_only_def by metis
  then show ?thesis unfolding hash_only_def by simp
qed

lemma hash_only_fields:
  assumes "hash_only s s'"
  shows "same_coder s s'" "strstart s' = strstart s" "lookahead s' = lookahead s" "window s' = window s" "fill_end s' = fill_end s"
    "block_start s' = block_start s" "next_in s' = next_in s" "match_start s' = match_start s" "prev_length s' = prev_length s"
    "to_insert s' = to_insert s" "high_water s' = high_water s" "adler s' = adler s" "total_in s' = total_in s" "max_chain_length s' = max_chain_length s"
    "nice_match s' = nice_match s"
proof -
  obtain a b c where s': "s' = s\<lparr>prev := a, head := b, ins_h := c\<rparr>" using assms unfolding hash_only_def by blast
  show "same_coder s s'" "strstart s' = strstart s" "lookahead s' = lookahead s" "window s' = window s" "fill_end s' = fill_end s"
    "block_start s' = block_start s" "next_in s' = next_in s" "match_start s' = match_start s" "prev_length s' = prev_length s"
    "to_insert s' = to_insert s" "high_water s' = high_water s" "adler s' = adler s" "total_in s' = total_in s" "max_chain_length s' = max_chain_length s"
    "nice_match s' = nice_match s"
    unfolding s' by (simp_all add: same_coder_def tree_state.truncate_def)
qed

section \<open>The hash tables point backwards\<close>

text \<open>Heads and links are positions before \<open>n\<close>, or zero. Level 1 does not maintain the links.\<close>

definition hash_below :: "nat \<Rightarrow> 'a deflate_state_scheme \<Rightarrow> bool" where
  "hash_below n s \<longleftrightarrow> tables_ok s \<and> below n (head s) \<and> (level s \<noteq> 1 \<longrightarrow> below n (prev s))"

lemma hash_below_mono: "hash_below n s \<Longrightarrow> n \<le> m \<Longrightarrow> hash_below m s"
  by (auto simp: hash_below_def below_def intro: order.strict_trans2)

lemma pos_below: "str < n \<Longrightarrow> unat (of_nat str :: u16) < n"
  by (rule order.strict_trans1 [of _ str]) (simp_all add: unat_of_nat)

lemma hash_push_below:
  assumes "hash_below n s" and "str < n" and "h < HASH_SIZE"
  shows "hash_below n (fst (hash_push h str s))" and "hash_only s (fst (hash_push h str s))"
    and "snd (hash_push h str s) = unat (head s ! h)"
proof -
  have hd: "head s ! h = 0 \<or> unat (head s ! h) < n" using assms by (intro below_nth) (simp_all add: hash_below_def tables_ok_def)
  have "below n ((head s)[h := of_nat str])" "level s \<noteq> 1 \<Longrightarrow> below n ((prev s)[i := head s ! h])" for i
    using assms(1) hd pos_below [OF assms(2)] by (auto simp: hash_below_def intro!: below_update)
  then show "hash_below n (fst (hash_push h str s))"
    using assms(1) by (simp add: hash_below_def hash_push_def Let_def tables_ok_def)
  show "hash_only s (fst (hash_push h str s))" by (simp add: hash_only_def hash_push_def Let_def)
  show "snd (hash_push h str s) = unat (head s ! h)" by (simp add: hash_push_def Let_def)
qed

lemma push_head_below:
  assumes "hash_below n s" and "str < n"
  shows "hash_below n (s\<lparr>head := (head s)[h := of_nat str]\<rparr>)" and "hash_only s (s\<lparr>head := (head s)[h := of_nat str]\<rparr>)"
  using assms(1) below_update [of n "head s" "of_nat str" h] pos_below [OF assms(2)]
  by (simp_all add: hash_below_def tables_ok_def hash_only_def)

lemma seed_below:
  "hash_below n s \<Longrightarrow> hash_below n (s\<lparr>ins_h := h\<rparr>)" "hash_only s (s\<lparr>ins_h := h\<rparr>)"
  by (simp_all add: hash_below_def tables_ok_def hash_only_def)

text \<open>All insertion operations.\<close>

definition inserts :: "nat \<Rightarrow> 'a deflate_state_scheme \<Rightarrow> 'a deflate_state_scheme \<Rightarrow> bool" where
  "inserts n s s' \<longleftrightarrow> hash_only s s' \<and> (hash_below n s \<longrightarrow> hash_below n s')"

lemma inserts_refl: "inserts n s s" by (simp add: inserts_def hash_only_refl)

lemma inserts_trans: "inserts n s s' \<Longrightarrow> inserts n s' s'' \<Longrightarrow> inserts n s s''"
  by (auto simp: inserts_def intro: hash_only_trans)

lemma inserts_fold:
  "(\<And>i s. i \<in> set is \<Longrightarrow> inserts n s (f i s)) \<Longrightarrow> inserts n s (fold f is s)"
  by (induction "is" arbitrary: s) (auto intro: inserts_refl inserts_trans)

lemma push_inserts:
  assumes "str < n" and "h < HASH_SIZE"
  shows "inserts n s (fst (hash_push h str s))"
proof -
  have "hash_only s (fst (hash_push h str s))" by (simp add: hash_only_def hash_push_def Let_def)
  then show ?thesis using hash_push_below(1) [OF _ assms] unfolding inserts_def by blast
qed

lemma insert_inserts:
  assumes "str < n"
  shows "inserts n s (fst (insert_knuth str s))" "inserts n s (insert_knuth_one str s)" "inserts n s (fst (insert_knuth_head str s))"
    "inserts n s (fst (insert_roll str s))" "inserts n s (fst (insert_knuth_val str v s))"
proof -
  show "inserts n s (fst (insert_knuth str s))" "inserts n s (insert_knuth_one str s)" "inserts n s (fst (insert_knuth_val str v s))"
    unfolding insert_knuth_def insert_knuth_one_def insert_knuth_val_def by (intro push_inserts assms hash_index)+
  show "inserts n s (fst (insert_knuth_head str s))"
    using push_head_below [OF _ assms] by (auto simp: inserts_def insert_knuth_head_def Let_def hash_only_def)
  let ?h = "update_hash_roll (ins_h s) (ucast (window s ! (str + (STD_MIN_MATCH - 1))))"
  have "inserts n s (s\<lparr>ins_h := ?h\<rparr>)" using seed_below unfolding inserts_def by blast
  from inserts_trans [OF this push_inserts [OF assms hash_index(2)]]
  show "inserts n s (fst (insert_roll str s))" by (simp add: insert_roll_def Let_def)
qed

lemma batch_inserts:
  assumes "str + cnt \<le> n"
  shows "inserts n s (insert_batch str cnt s)"
  unfolding insert_batch_def insert_roll_batch_def insert_knuth_batch_head_def insert_knuth_batch_def
  using assms by (auto intro!: inserts_fold insert_inserts)

end
