(* ===== verification/Window_Inv.thy ===== *)
theory Window_Inv
  imports Window
begin

text \<open>
  What the sliding window holds. The window is a view of all the data read so far, at an offset that grows when the window slides. The lemmas show that
  fill_window always returns, that it keeps this view, the pending match and the hash tables, and that it reads until there is enough lookahead.
\<close>

section \<open>The invariant\<close>

text \<open>With a strategy that uses no hash table the tables are not maintained.\<close>

definition hash_inv :: "'a deflate_state_scheme \<Rightarrow> bool" where
  "hash_inv s \<longleftrightarrow> (\<not> HASHLESS (level s) (strategy s) \<longrightarrow> hash_below (strstart s) s)"

definition window_ok :: "'a deflate_state_scheme \<Rightarrow> bool" where
  "window_ok s \<longleftrightarrow> tables_ok s \<and> 512 \<le> w_size s \<and> window_size s = max (2 * w_size s) 32768 \<and> length (window s) = window_size s
     \<and> w_size s dvd fill_end s + MIN_LOOKAHEAD \<and> 2 * w_size s \<le> fill_end s + MIN_LOOKAHEAD \<and> fill_end s + MIN_LOOKAHEAD \<le> window_size s
     \<and> strstart s + lookahead s \<le> fill_end s + MIN_LOOKAHEAD \<and> to_insert s \<le> strstart s \<and> hash_inv s"

text \<open>The window holds the data from \<open>off\<close> on.\<close>

definition holds :: "bytes \<Rightarrow> nat \<Rightarrow> 'a deflate_state_scheme \<Rightarrow> bool" where
  "holds D off s \<longleftrightarrow> off \<le> length D \<and> drop off D = take (strstart s + lookahead s) (window s)"

text \<open>The match found at the previous position, of which the compressor has not decided yet.\<close>

definition pending_match :: "bytes \<Rightarrow> nat \<Rightarrow> 'a deflate_state_scheme \<Rightarrow> bool" where
  "pending_match D p s \<longleftrightarrow> (STD_MIN_MATCH \<le> prev_length s \<longrightarrow> match_start s + 1 < strstart s
     \<and> strstart s \<le> match_start s + 1 + MAX_DIST s \<and> prev_length s \<le> lookahead s + 1 \<and> prev_length s \<le> STD_MAX_MATCH
     \<and> (\<forall>i < prev_length s. D ! (p - 1 + i) = D ! (p - strstart s + match_start s + i)))"

text \<open>A checksum as the wrapper asks for it.\<close>

definition checked :: "int \<Rightarrow> u32 \<Rightarrow> bytes \<Rightarrow> u32" where
  "checked wr a data = (if data = [] then a else if wr = 2 then crc32_ref a data else if wr = 1 then adler32_c 0 a data else a)"

lemma checked_append: "checked wr (checked wr a xs) ys = checked wr a (xs @ ys)"
  by (simp add: checked_def crc32_ref_append adler32_update_append [where r = 0])

lemma checked_Nil [simp]: "checked wr a [] = a" by (simp add: checked_def)

text \<open>A step that reads \<open>c\<close> and moves the window from the offset \<open>off\<close> to \<open>off'\<close>.\<close>

definition reads :: "bytes \<Rightarrow> nat \<Rightarrow> bytes \<Rightarrow> nat \<Rightarrow> 'a deflate_state_scheme \<Rightarrow> 'a deflate_state_scheme \<Rightarrow> bool" where
  "reads D off c off' s s' \<longleftrightarrow> same_coder s s' \<and> next_in s = c @ next_in s' \<and> adler s' = checked (wrap s) (adler s) c
     \<and> total_in s' = total_in s + length c \<and> window_ok s' \<and> holds (D @ c) off' s' \<and> off' + strstart s' = off + strstart s
     \<and> (0 < strstart s \<longrightarrow> 0 < strstart s') \<and> prev_length s' \<le> prev_length s \<and> int off' + block_start s' = int off + block_start s \<and> lookahead s' = lookahead s + length c
     \<and> (pending_match D (off + strstart s) s \<longrightarrow> pending_match (D @ c) (off' + strstart s') s')"

lemma reads_refl: "window_ok s \<Longrightarrow> holds D off s \<Longrightarrow> reads D off [] off s s"
  by (simp add: reads_def)

lemma reads_trans:
  assumes "reads D off c off' s s'" and "reads (D @ c) off' c' off'' s' s''"
  shows "reads D off (c @ c') off'' s s''"
proof -
  have "wrap s' = wrap s" using assms(1) by (simp add: reads_def same_coder_def)
  then show ?thesis using assms by (auto simp: reads_def checked_append intro: same_coder_trans)
qed

lemma window_room: "window_ok s \<Longrightarrow> strstart s + lookahead s \<le> length (window s)"
  by (simp add: window_ok_def)

lemma holds_length:
  assumes "window_ok s" and "holds D off s"
  shows "length D = off + strstart s + lookahead s"
proof -
  have "length (drop off D) = strstart s + lookahead s" using assms by (simp add: window_ok_def holds_def)
  then show ?thesis using assms(2) by (auto simp: holds_def)
qed

lemma holds_nth:
  assumes "window_ok s" and "holds D off s" and "i < strstart s + lookahead s"
  shows "window s ! i = D ! (off + i)"
proof -
  have "drop off D ! i = window s ! i" using assms by (simp add: window_ok_def holds_def)
  moreover have "off \<le> length D" using assms(2) by (simp add: holds_def)
  then have "drop off D ! i = D ! (off + i)" by simp
  ultimately show ?thesis by simp
qed

section \<open>The slide\<close>

lemma window_sizes:
  assumes "window_ok s"
  shows "w_size s dvd window_size s" and "2 * w_size s \<le> window_size s" and "window_size s \<le> 65536" and "512 \<le> w_size s" and "w_size s \<le> 32768"
proof -
  obtain k where k: "8 \<le> k" "k \<le> 15" "w_size s = 2 ^ k" using assms by (auto simp: window_ok_def tables_ok_def)
  have ws: "window_size s = max (2 * w_size s) 32768" "512 \<le> w_size s" using assms by (simp_all add: window_ok_def)
  have w: "w_size s \<le> 32768" using power_increasing [OF k(2), of "2 :: nat"] by (simp add: k(3))
  have "2 ^ k dvd (2 ^ 15 :: nat)" using k(2) by (rule le_imp_power_dvd)
  then have d: "w_size s dvd 32768" by (simp add: k(3))
  show "w_size s dvd window_size s" unfolding ws(1) max_def using d by simp
  show "2 * w_size s \<le> window_size s" "window_size s \<le> 65536" "512 \<le> w_size s" "w_size s \<le> 32768" using ws w by simp_all
qed

lemma fill_end_le:
  assumes "window_ok s"
  shows "fill_end s + MIN_LOOKAHEAD \<le> length (window s)" and "fill_end s + MIN_LOOKAHEAD \<le> 65536"
proof -
  have w: "fill_end s + MIN_LOOKAHEAD \<le> window_size s" "length (window s) = window_size s" using assms by (simp_all add: window_ok_def)
  then show "fill_end s + MIN_LOOKAHEAD \<le> length (window s)" by simp
  show "fill_end s + MIN_LOOKAHEAD \<le> 65536" using w(1) window_sizes(3) [OF assms] by (rule order.trans)
qed

lemma slide_amount:
  assumes ok: "window_ok s" and la: "lookahead s < MIN_LOOKAHEAD" and st: "fill_end s \<le> strstart s"
    and full: "window_size s < fill_end s + w_size s + MIN_LOOKAHEAD"
  defines "n \<equiv> strstart s - MAX_DIST s"
  shows "n - (n AND W_MASK s) = window_size s - w_size s" and "fill_end s + MIN_LOOKAHEAD = window_size s"
proof -
  note sz = window_sizes [OF ok]
  obtain c where c: "window_size s = w_size s * c" using sz(1) by (elim dvdE)
  obtain q where q: "fill_end s + MIN_LOOKAHEAD = w_size s * q" using ok by (auto simp: window_ok_def elim: dvdE)
  have "w_size s * q \<le> w_size s * c" using ok unfolding c [symmetric] q [symmetric] by (simp add: window_ok_def)
  then have qc: "q \<le> c" using sz(4) by simp
  have "w_size s * c < w_size s * (q + 1)" using full q c by simp
  then have "c < q + 1" by (metis mult_less_cancel1)
  then have "q = c" using qc by simp
  then show fe: "fill_end s + MIN_LOOKAHEAD = window_size s" using q c by simp
  have c2: "2 \<le> c" using sz(2,4) c by (simp add: mult.commute)
  have bound: "strstart s \<le> window_size s" using ok fe by (simp add: window_ok_def)
  have d: "MAX_DIST s = w_size s - 262" by (simp add: MAX_DIST_def match_consts)
  define r where "r = strstart s + 262 - window_size s"
  have n: "n = w_size s * (c - 1) + r" and r: "r < w_size s"
    using bound st fe sz c c2 by (simp_all add: n_def r_def d match_consts algebra_simps)
  have "n AND W_MASK s = r" using ok n r by (simp add: window_ok_def W_MASK_and)
  then show "n - (n AND W_MASK s) = window_size s - w_size s" using n c by (simp add: algebra_simps)
qed

lemma slide_chain_below:
  assumes "below n tab" and "k < 65536"
  shows "below (n - k) (slide_hash_c_chain (of_nat k) tab)"
proof -
  have k: "unat (of_nat k :: u16) = k" using assms(2) by (simp add: unat_of_nat)
  define f where "f = (\<lambda>m :: u16. if m \<ge> of_nat k then m - of_nat k else 0)"
  have "f m = 0 \<or> unat (f m) < n - k" if m: "m = 0 \<or> unat m < n" for m
  proof (cases "of_nat k \<le> m \<and> m \<noteq> of_nat k")
    case True
    then have "of_nat k < m" by (metis order_less_le)
    then have "unat (m - of_nat k) = unat m - k" "k < unat m" using k True by (simp_all add: unat_sub word_less_nat_alt)
    then show ?thesis using m True by (auto simp: f_def)
  qed (auto simp: f_def)
  moreover have "slide_hash_c_chain (of_nat k) tab = map f tab" by (simp add: slide_hash_c_chain_def f_def)
  ultimately show ?thesis using assms(1) by (auto simp: below_def)
qed

text \<open>The slide by the amount \<open>sl\<close>.\<close>

lemma slide_window_eq:
  fixes s :: "'a deflate_state_scheme"
  defines "sl \<equiv> strstart s - MAX_DIST s - ((strstart s - MAX_DIST s) AND W_MASK s)"
  defines "live \<equiv> strstart s + lookahead s - sl"
  defines "hl \<equiv> HASHLESS (level s) (strategy s)"
  shows "slide_window s = s\<lparr>window := take live (drop sl (window s)) @ drop live (window s),
      match_start := (if match_start s \<ge> sl then match_start s - sl else 0), prev_length := (if match_start s \<ge> sl then prev_length s else 0),
      strstart := strstart s - sl, block_start := block_start s - int sl, fill_end := fill_end s - sl,
      to_insert := min (to_insert s) (strstart s - sl), slide_len := (if hl then slide_len s else sl),
      head := (if hl then head s else slide_hash_c_chain (of_nat sl) (head s)),
      prev := (if hl \<or> level s = 1 then prev s else slide_hash_c_chain (of_nat sl) (prev s))\<rparr>"
proof -
  have t: "slide_tables sl t = t\<lparr>slide_len := (if hl then slide_len t else sl),
      head := (if hl then head t else slide_hash_c_chain (of_nat sl) (head t)),
      prev := (if hl \<or> level t = 1 then prev t else slide_hash_c_chain (of_nat sl) (prev t))\<rparr>"
    if "level t = level s" "strategy t = strategy s" for t :: "'a deflate_state_scheme"
    using that by (cases hl; cases "level s = 1") (simp_all add: slide_tables_def hl_def slide_hash_c_def slide_hash_head_c_def Let_def)
  have p: "slide_positions sl t = t\<lparr>strstart := strstart t - sl, block_start := block_start t - int sl, fill_end := fill_end t - sl,
      to_insert := min (to_insert t) (strstart t - sl)\<rparr>" for t :: "'a deflate_state_scheme"
    by (simp add: slide_positions_def min_def Let_def)
  have m: "slide_match sl t = t\<lparr>match_start := (if match_start t \<ge> sl then match_start t - sl else 0),
      prev_length := (if match_start t \<ge> sl then prev_length t else 0)\<rparr>" for t :: "'a deflate_state_scheme"
    by (simp add: slide_match_def)
  have "slide_window s = slide_tables sl (slide_positions sl (slide_match sl (slide_data sl s)))"
    by (simp add: slide_window_def sl_def Let_def)
  also have "\<dots> = slide_tables sl (slide_positions sl (slide_match sl
      (s\<lparr>window := take live (drop sl (window s)) @ drop live (window s)\<rparr>)))"
    by (simp add: slide_data_def live_def Let_def)
  finally show ?thesis by (simp add: m p t)
qed

lemma slide_window_fields:
  fixes s :: "'a deflate_state_scheme"
  defines "sl \<equiv> strstart s - MAX_DIST s - ((strstart s - MAX_DIST s) AND W_MASK s)"
  defines "live \<equiv> strstart s + lookahead s - sl"
  shows "same_coder s (slide_window s)" and "strstart (slide_window s) = strstart s - sl" and "block_start (slide_window s) = block_start s - int sl"
    and "fill_end (slide_window s) = fill_end s - sl" and "lookahead (slide_window s) = lookahead s"
    and "next_in (slide_window s) = next_in s" and "adler (slide_window s) = adler s" and "total_in (slide_window s) = total_in s"
    and "window (slide_window s) = take live (drop sl (window s)) @ drop live (window s)"
    and "to_insert (slide_window s) = min (to_insert s) (strstart s - sl)"
    and "match_start (slide_window s) = (if match_start s \<ge> sl then match_start s - sl else 0)"
    and "prev_length (slide_window s) = (if match_start s \<ge> sl then prev_length s else 0)"
  unfolding slide_window_eq sl_def live_def by (simp_all add: same_coder_def tree_state.truncate_def)

lemma slide_window_hash:
  fixes s :: "'a deflate_state_scheme"
  defines "sl \<equiv> strstart s - MAX_DIST s - ((strstart s - MAX_DIST s) AND W_MASK s)"
  assumes "hash_inv s" and "tables_ok s" and "sl < 65536"
  shows "hash_inv (slide_window s)" and "tables_ok (slide_window s)"
proof -
  note e = slide_window_eq [of s, folded sl_def]
  show t: "tables_ok (slide_window s)" using assms(3) unfolding e by (simp add: tables_ok_def slide_hash_c_chain_def)
  have h: "head (slide_window s) = (if HASHLESS (level s) (strategy s) then head s else slide_hash_c_chain (of_nat sl) (head s))"
    "prev (slide_window s) = (if HASHLESS (level s) (strategy s) \<or> level s = 1 then prev s else slide_hash_c_chain (of_nat sl) (prev s))"
    "strstart (slide_window s) = strstart s - sl" "level (slide_window s) = level s" "strategy (slide_window s) = strategy s"
    unfolding e by simp_all
  show "hash_inv (slide_window s)"
    using assms(2,4) t slide_chain_below [of "strstart s" "head s" sl] slide_chain_below [of "strstart s" "prev s" sl]
    by (simp add: hash_inv_def hash_below_def h)
qed

section \<open>Making room\<close>

lemma hash_inv_fields:
  assumes "level s' = level s" "strategy s' = strategy s" "strstart s' = strstart s" "prev s' = prev s" "head s' = head s" "w_size s' = w_size s"
  shows "hash_inv s' = hash_inv s" "tables_ok s' = tables_ok s"
  using assms by (simp_all add: hash_inv_def hash_below_def tables_ok_def)

lemma fill_end_advanced:
  assumes ok: "window_ok s" and h: "holds D off s" and fe: "fill_end s + w_size s + MIN_LOOKAHEAD \<le> window_size s"
  shows "reads D off [] off s (s\<lparr>fill_end := fill_end s + w_size s\<rparr>)"
proof -
  let ?s = "s\<lparr>fill_end := fill_end s + w_size s\<rparr>"
  have "w_size s dvd fill_end s + MIN_LOOKAHEAD" using ok by (simp add: window_ok_def)
  then have "w_size s dvd (fill_end s + MIN_LOOKAHEAD) + w_size s" by simp
  then have "window_ok ?s" using ok fe hash_inv_fields [of ?s s] by (simp add: window_ok_def add.commute add.left_commute)
  moreover have "same_coder s ?s" by (simp add: same_coder_def tree_state.truncate_def)
  moreover have "pending_match D (off + strstart s) s \<longrightarrow> pending_match D (off + strstart s) ?s" by (simp add: pending_match_def MAX_DIST_def)
  ultimately show ?thesis using h by (simp add: reads_def holds_def)
qed

lemma window_slid:
  assumes ok: "window_ok s" and la: "lookahead s < MIN_LOOKAHEAD" and h: "holds D off s" and st: "fill_end s \<le> strstart s"
    and full: "window_size s < fill_end s + w_size s + MIN_LOOKAHEAD"
  defines "sl \<equiv> window_size s - w_size s" and "s' \<equiv> slide_window (s\<lparr>fill_end := fill_end s + w_size s\<rparr>)"
  shows "reads D off [] (off + sl) s s'" and "strstart s' < fill_end s'"
proof -
  let ?t = "s\<lparr>fill_end := fill_end s + w_size s\<rparr>"
  note sz = window_sizes [OF ok]
  have sl: "strstart s - MAX_DIST s - ((strstart s - MAX_DIST s) AND W_MASK s) = sl" and fe: "fill_end s + MIN_LOOKAHEAD = window_size s"
    using slide_amount [OF ok la st full] by (simp_all add: sl_def)
  have t: "strstart ?t - MAX_DIST ?t - ((strstart ?t - MAX_DIST ?t) AND W_MASK ?t) = sl"
    using sl by (simp add: MAX_DIST_def W_MASK_def)
  have sl_le: "sl \<le> strstart s" using sl by simp
  have sl_less: "sl < 65536" using sz by (simp add: sl_def)
  have st2: "strstart s + lookahead s \<le> window_size s" using ok fe by (simp add: window_ok_def)
  note f = slide_window_fields [of ?t, unfolded t, folded s'_def, simplified]
  have sc: "same_coder s s'" using f(1) by (simp add: same_coder_def tree_state.truncate_def)
  have hi: "hash_inv s'" "tables_ok s'"
    using slide_window_hash [of ?t, unfolded t, OF _ _ sl_less] ok hash_inv_fields [of ?t s] by (simp_all add: window_ok_def s'_def)
  have len: "length (window s) = window_size s" using ok by (simp add: window_ok_def)
  have "w_size s dvd 2 * w_size s" by simp
  moreover have "fill_end s' + MIN_LOOKAHEAD = 2 * w_size s" unfolding f(4) sl_def using fe sz by (simp add: match_consts)
  moreover have live: "strstart s + lookahead s - sl \<le> w_size s" "sl + w_size s = window_size s" using st2 sz by (simp_all add: sl_def)
  have "length (window s') = window_size s" using live len by (simp add: f)
  moreover have "strstart s' + lookahead s' \<le> 2 * w_size s" using live sl_le by (simp add: f)
  moreover have "512 \<le> w_size s" "window_size s = max (2 * w_size s) 32768" using ok by (simp_all add: window_ok_def)
  ultimately have "window_ok s'"
    using hi sz(2) same_coder_fields(3,4) [OF sc] by (simp add: window_ok_def f(10) f(2))
  moreover have "holds D (off + sl) s'"
  proof -
    have "drop (off + sl) D = drop sl (take (strstart s + lookahead s) (window s))"
      using h by (metis add.commute drop_drop holds_def)
    then have "drop (off + sl) D = take (strstart s + lookahead s - sl) (drop sl (window s))" by (simp add: drop_take)
    moreover have "length (drop off D) = strstart s + lookahead s" using h len st2 by (simp add: holds_def)
    ultimately show ?thesis using sl_le st2 len h by (auto simp: holds_def f)
  qed
  moreover have "pending_match D (off + strstart s) s \<longrightarrow> pending_match D (off + strstart s) s'"
    using sl_le same_coder_fields(11) [OF sc] by (auto simp: pending_match_def f match_consts)
  moreover have "0 < strstart s'"
    using live sl_le st fe sz by (simp add: f match_consts)
  ultimately show "reads D off [] (off + sl) s s'"
    using sc sl_le by (simp add: reads_def f)
  have "strstart s' \<le> w_size s" using st2 sz by (simp add: f sl_def)
  also have "w_size s < fill_end s'" using \<open>fill_end s' + MIN_LOOKAHEAD = 2 * w_size s\<close> sz(4) by (simp add: match_consts)
  finally show "strstart s' < fill_end s'" .
qed

lemma make_room_reads:
  assumes ok: "window_ok s" and la: "lookahead s < MIN_LOOKAHEAD" and h: "holds D off s"
  obtains off' where "reads D off [] off' s (make_room s)" and "strstart (make_room s) < fill_end (make_room s)"
proof (cases "strstart s < fill_end s")
  case True
  moreover have "fill_end s + MIN_LOOKAHEAD \<le> window_size s" using ok by (simp add: window_ok_def)
  ultimately have "make_room s = s" by (simp add: make_room_def)
  then show ?thesis using that reads_refl [OF ok h] True by simp
next
  case False
  show ?thesis
  proof (cases "window_size s < fill_end s + w_size s + MIN_LOOKAHEAD")
    case True
    then have "window_size s - MIN_LOOKAHEAD < fill_end s + w_size s" using window_sizes(4) [OF ok] by (simp add: match_consts)
    then have "make_room s = slide_window (s\<lparr>fill_end := fill_end s + w_size s\<rparr>)"
      using False by (simp add: make_room_def Let_def)
    then show ?thesis using that window_slid [OF ok la h _ True] False by simp
  next
    case fe: False
    then have "make_room s = s\<lparr>fill_end := fill_end s + w_size s\<rparr>" using False by (auto simp: make_room_def Let_def)
    moreover have "strstart s < fill_end s + w_size s" using ok window_sizes(4) [OF ok] by (simp add: window_ok_def match_consts)
    ultimately show ?thesis using that fill_end_advanced [OF ok h] fe by simp
  qed
qed

section \<open>Reading input\<close>

lemma read_buf_eq:
  "read_buf room s = (let src = take room (next_in s) in
     (src, s\<lparr>adler := checked (wrap s) (adler s) src, next_in := drop room (next_in s), total_in := total_in s + length src\<rparr>))"
proof (cases "next_in s = [] \<or> room = 0")
  case True
  then have "s = s\<lparr>adler := checked (wrap s) (adler s) (take room (next_in s)), next_in := drop room (next_in s),
      total_in := total_in s + length (take room (next_in s))\<rparr>" by auto
  then show ?thesis using True by (auto simp: read_buf_def Let_def)
next
  case False
  moreover have "drop (min (length (next_in s)) room) (next_in s) = drop room (next_in s)"
    "take (min (length (next_in s)) room) (next_in s) = take room (next_in s)" by (simp_all add: min_def)
  ultimately show ?thesis
    by (simp add: read_buf_def Let_def checked_def crc32_copy_braid_def adler32_copy_c_def crc32_braid_ref min.commute)
qed

lemma append_input_reads:
  assumes ok: "window_ok s" and la: "lookahead s < MIN_LOOKAHEAD" and h: "holds D off s" and st: "strstart s < fill_end s"
    and inp: "next_in s \<noteq> []"
  obtains c where "c \<noteq> []" and "reads D off c off s (append_input s)"
proof -
  define c where "c = take (fill_end s + MIN_LOOKAHEAD - lookahead s - strstart s) (next_in s)"
  let ?p = "strstart s + lookahead s"
  have s': "append_input s = s\<lparr>adler := checked (wrap s) (adler s) c, next_in := drop (length c) (next_in s), total_in := total_in s + length c,
      window := take ?p (window s) @ c @ drop (?p + length c) (window s), lookahead := lookahead s + length c\<rparr>"
    unfolding append_input_def read_buf_eq Let_def c_def prod.case by (simp add: min_def)
  have room: "?p + length c \<le> fill_end s + MIN_LOOKAHEAD" "c \<noteq> []"
    using st la inp ok by (auto simp: c_def window_ok_def match_consts)
  have c: "next_in s = c @ drop (length c) (next_in s)" by (simp add: c_def min_def)
  have len: "length (window s) = window_size s" "?p \<le> window_size s" "?p + length c \<le> window_size s"
    using ok room by (auto simp: window_ok_def)
  have "window_ok (append_input s)"
    using ok room len hash_inv_fields [of "append_input s" s] by (simp add: s' window_ok_def)
  moreover have "holds (D @ c) off (append_input s)"
    using h len by (simp add: s' holds_def add.assoc [symmetric])
  moreover have "pending_match D (off + strstart s) s \<longrightarrow> pending_match (D @ c) (off + strstart s) (append_input s)"
  proof -
    have "length (drop off D) = ?p" using h len by (simp add: holds_def)
    then have "length D = off + ?p" using h by (auto simp: holds_def)
    then show ?thesis by (auto simp: pending_match_def s' nth_append MAX_DIST_def)
  qed
  moreover have "same_coder s (append_input s)" by (simp add: s' same_coder_def tree_state.truncate_def)
  ultimately have "reads D off c off s (append_input s)" using c by (simp add: reads_def s')
  then show ?thesis using that room(2) by blast
qed

lemma inserts_inv:
  assumes "inserts (strstart s) s s'" and "\<not> HASHLESS (level s) (strategy s)" and "hash_inv s"
  shows "hash_inv s'" and "tables_ok s'"
proof -
  have "hash_below (strstart s) s'" using assms by (simp add: hash_inv_def inserts_def)
  moreover have "strstart s' = strstart s" using assms(1) hash_only_fields(2) by (auto simp: inserts_def)
  ultimately show "hash_inv s'" "tables_ok s'" by (simp_all add: hash_inv_def hash_below_def)
qed

lemma insert_pending_inserts:
  assumes hl: "\<not> HASHLESS (level s) (strategy s)" and ti: "to_insert s \<le> strstart s"
  obtains s2 k where "insert_pending s = s2\<lparr>to_insert := k\<rparr>" and "inserts (strstart s) s s2" and "k \<le> to_insert s"
proof (cases "lookahead s + to_insert s \<ge> STD_MIN_MATCH")
  case False
  then have "insert_pending s = s\<lparr>to_insert := to_insert s\<rparr>" by (simp add: insert_pending_def)
  then show ?thesis using that inserts_refl by blast
next
  case True
  define str where "str = strstart s - to_insert s"
  define s1 where "s1 = insert_before str s"
  have s1: "inserts (strstart s) s s1"
  proof (cases "MIN_ROLL_LEVEL \<le> level s \<or> str = 0")
    case True
    then show ?thesis using seed_below(1) [of "strstart s" s] seed_below(2) [of s] unfolding s1_def insert_before_def by (auto simp: inserts_def hash_only_refl)
  next
    case False
    then have "str + 2 - STD_MIN_MATCH < strstart s" using ti by (simp add: str_def match_consts)
    then show ?thesis using insert_inserts(1,3) [where n = "strstart s" and s = s] False by (simp add: s1_def insert_before_def)
  qed
  have f: "to_insert s1 = to_insert s" using hash_only_fields(10) s1 unfolding inserts_def by blast
  define cnt where "cnt = (if lookahead s1 = 1 then to_insert s1 - 1 else to_insert s1)"
  have e: "insert_pending s = (if cnt > 0 then let s = insert_batch str cnt s1 in s\<lparr>to_insert := to_insert s - cnt\<rparr> else s1)"
    using hl True unfolding insert_pending_def insert_counted_def Let_def s1_def cnt_def str_def by simp
  show ?thesis
  proof (cases "cnt > 0")
    case True
    have "str + cnt \<le> strstart s" using ti f by (cases "lookahead s1 = 1") (simp_all add: str_def cnt_def)
    then have i: "inserts (strstart s) s (insert_batch str cnt s1)" by (rule inserts_trans [OF s1 batch_inserts])
    then have "to_insert (insert_batch str cnt s1) = to_insert s" using hash_only_fields(10) unfolding inserts_def by blast
    then show ?thesis using that [OF _ i, of "to_insert s - cnt"] True e by (simp add: Let_def)
  next
    case False
    then have "insert_pending s = s1\<lparr>to_insert := to_insert s\<rparr>" using e f by simp
    then show ?thesis using that s1 by blast
  qed
qed

lemma insert_pending_reads:
  assumes ok: "window_ok s" and h: "holds D off s"
  shows "reads D off [] off s (insert_pending s) \<and> fill_end (insert_pending s) = fill_end s"
proof (cases "HASHLESS (level s) (strategy s)")
  case True
  then show ?thesis using reads_refl [OF ok h] by (simp add: insert_pending_def)
next
  case False
  have ti: "to_insert s \<le> strstart s" "hash_inv s" using ok by (simp_all add: window_ok_def)
  obtain s2 k where e: "insert_pending s = s2\<lparr>to_insert := k\<rparr>" and i: "inserts (strstart s) s s2" and k: "k \<le> to_insert s"
    using insert_pending_inserts [OF False ti(1)] by blast
  note f = hash_only_fields [of s s2]
  have ho: "hash_only s s2" using i by (simp add: inserts_def)
  note inv = inserts_inv [OF i False ti(2)]
  have inv': "hash_inv (s2\<lparr>to_insert := k\<rparr>)" "tables_ok (s2\<lparr>to_insert := k\<rparr>)"
    using inv hash_inv_fields [of "s2\<lparr>to_insert := k\<rparr>" s2] by simp_all
  have sc: "same_coder s s2" by (rule f(1) [OF ho])
  have "window_ok (s2\<lparr>to_insert := k\<rparr>)"
    using ok k inv' f [OF ho] same_coder_fields [OF sc] by (simp add: window_ok_def)
  moreover have "same_coder s (s2\<lparr>to_insert := k\<rparr>)" using sc by (simp add: same_coder_def tree_state.truncate_def)
  ultimately show ?thesis
    using h f [OF ho] same_coder_fields(11) [OF sc] by (simp add: e reads_def holds_def pending_match_def MAX_DIST_def)
qed

section \<open>fill\_window\<close>

lemma pending_reads: "reads D off c off' s s' \<Longrightarrow> window_ok s' \<and> holds (D @ c) off' s' \<and> lookahead s' = lookahead s + length c"
  by (simp add: reads_def)

lemma fill_loop_reads:
  assumes "window_ok s" and "lookahead s < MIN_LOOKAHEAD" and "holds D off s"
  shows "\<exists>s' c off'. fill_loop s = Some s' \<and> reads D off c off' s s' \<and> strstart s' < fill_end s'
    \<and> (MIN_LOOKAHEAD \<le> lookahead s' \<or> next_in s' = [])"
  using assms
proof (induction "length (next_in s)" arbitrary: s D off rule: less_induct)
  case less
  obtain o1 where m: "reads D off [] o1 s (make_room s)" "strstart (make_room s) < fill_end (make_room s)"
    using make_room_reads [OF less.prems] by blast
  let ?m = "make_room s"
  have mi: "next_in ?m = next_in s" "window_ok ?m" "holds D o1 ?m" "lookahead ?m = lookahead s" using m(1) by (simp_all add: reads_def)
  show ?case
  proof (cases "next_in s = []")
    case True
    then have "fill_loop s = Some ?m" using mi by (subst fill_loop.simps) (simp add: Let_def)
    then show ?thesis using m True mi(1) by auto
  next
    case False
    obtain c where c: "c \<noteq> []" and a: "reads D o1 c o1 ?m (append_input ?m)"
      using append_input_reads [OF mi(2) _ mi(3) m(2)] less.prems(2) mi False by auto
    define t where "t = insert_pending (append_input ?m)"
    have t0: "reads (D @ c) o1 [] o1 (append_input ?m) t" "fill_end t = fill_end (append_input ?m)"
      using insert_pending_reads [of "append_input ?m" "D @ c" o1] pending_reads [OF a] by (simp_all add: t_def)
    have ma: "reads D off c o1 s (append_input ?m)" using reads_trans [OF m(1)] a by simp
    have t: "reads D off c o1 s t" using reads_trans [OF ma t0(1)] by simp
    have "strstart t = strstart ?m" using m(1) t by (simp add: reads_def)
    moreover have "fill_end t = fill_end ?m" using t0(2) by (simp add: append_input_def read_buf_eq Let_def)
    ultimately have fe: "strstart t < fill_end t" using m(2) by simp
    have ti: "window_ok t" "holds (D @ c) o1 t" "next_in s = c @ next_in t" using t by (simp_all add: reads_def)
    show ?thesis
    proof (cases "lookahead t < MIN_LOOKAHEAD \<and> next_in t \<noteq> []")
      case True
      then have e: "fill_loop s = fill_loop t" using False mi(1) by (subst fill_loop.simps) (simp add: Let_def t_def)
      have "length (next_in t) < length (next_in s)" using ti(3) c by simp
      from less.hyps [OF this ti(1) _ ti(2)] True obtain s' c' off' where
        r: "fill_loop t = Some s'" "reads (D @ c) o1 c' off' t s'" "strstart s' < fill_end s'" "MIN_LOOKAHEAD \<le> lookahead s' \<or> next_in s' = []"
        by blast
      show ?thesis using e r(1,3,4) reads_trans [OF t r(2)] by auto
    next
      case False': False
      then have "fill_loop s = Some t" using False mi(1) by (subst fill_loop.simps) (auto simp: Let_def t_def)
      then show ?thesis using t False' fe by auto
    qed
  qed
qed

lemma memset_reads:
  assumes ok: "window_ok s" and h: "holds D off s" and pos: "strstart s + lookahead s \<le> pos" "pos + n \<le> window_size s"
  shows "reads D off [] off s ((memset_window pos n s)\<lparr>high_water := k\<rparr>)"
proof -
  let ?s = "(memset_window pos n s)\<lparr>high_water := k\<rparr>"
  have len: "length (window s) = window_size s" using ok by (simp add: window_ok_def)
  have "window_ok ?s" using ok pos len hash_inv_fields [of ?s s] by (simp add: window_ok_def memset_window_def)
  moreover have "holds D off ?s" using h pos len by (simp add: holds_def memset_window_def)
  moreover have "same_coder s ?s" by (simp add: memset_window_def same_coder_def tree_state.truncate_def)
  ultimately show ?thesis by (simp add: reads_def memset_window_def pending_match_def MAX_DIST_def)
qed

lemma zero_high_water_reads:
  assumes ok: "window_ok s" and h: "holds D off s"
  shows "reads D off [] off s (zero_high_water s)" and "strstart (zero_high_water s) = strstart s" and "fill_end (zero_high_water s) = fill_end s"
proof -
  let ?c = "strstart s + lookahead s"
  have room: "?c \<le> window_size s" using ok by (simp add: window_ok_def)
  consider "zero_high_water s = s"
    | pos n k where "zero_high_water s = (memset_window pos n s)\<lparr>high_water := k\<rparr>" "?c \<le> pos" "pos + n \<le> window_size s"
  proof (cases "high_water s < window_size s")
    case True
    show ?thesis
    proof (cases "high_water s < ?c")
      case h: True
      have "zero_high_water s = (memset_window ?c (min (window_size s - ?c) WIN_INIT) s)\<lparr>high_water := ?c + min (window_size s - ?c) WIN_INIT\<rparr>"
        using h True by (simp add: zero_high_water_def Let_def)
      then show ?thesis using that(2) room by (metis add_diff_inverse_nat add_le_cancel_left min.cobounded1 nle_le not_less order_refl)
    next
      case h: False
      have e: "zero_high_water s = (if high_water s < ?c + WIN_INIT
          then let init = min (?c + WIN_INIT - high_water s) (window_size s - high_water s)
            in (memset_window (high_water s) init s)\<lparr>high_water := high_water s + init\<rparr> else s)"
        using h True by (simp add: zero_high_water_def Let_def)
      show ?thesis
      proof (cases "high_water s < ?c + WIN_INIT")
        case True
        show ?thesis
          by (rule that(2) [where pos = "high_water s" and n = "min (?c + WIN_INIT - high_water s) (window_size s - high_water s)"])
            (use e True h \<open>high_water s < window_size s\<close> in \<open>simp_all add: Let_def\<close>)
      qed (use e that(1) in simp)
    qed
  qed (use that(1) in \<open>simp add: zero_high_water_def\<close>)
  then have "reads D off [] off s (zero_high_water s) \<and> strstart (zero_high_water s) = strstart s \<and> fill_end (zero_high_water s) = fill_end s"
  proof cases
    case 1
    then show ?thesis using reads_refl [OF ok h] by simp
  next
    case 2
    then show ?thesis using memset_reads [OF ok h 2(2,3)] by (simp add: memset_window_def)
  qed
  then show "reads D off [] off s (zero_high_water s)" "strstart (zero_high_water s) = strstart s" "fill_end (zero_high_water s) = fill_end s"
    by simp_all
qed

text \<open>
  fill_window, called without enough lookahead, returns; it keeps the view of the data and reads until there is enough lookahead or no more input.
\<close>

lemma fill_window_reads:
  assumes "window_ok s" and "lookahead s < MIN_LOOKAHEAD" and "holds D off s"
  obtains s' c off' where "fill_window s = Some s'" and "reads D off c off' s s'" and "strstart s' < fill_end s'"
    and "MIN_LOOKAHEAD \<le> lookahead s' \<or> next_in s' = []"
proof -
  obtain s1 c off' where s1: "fill_loop s = Some s1" "reads D off c off' s s1" "strstart s1 < fill_end s1"
      "MIN_LOOKAHEAD \<le> lookahead s1 \<or> next_in s1 = []"
    using fill_loop_reads [OF assms] by blast
  have z: "reads (D @ c) off' [] off' s1 (zero_high_water s1)" "strstart (zero_high_water s1) < fill_end (zero_high_water s1)"
    using zero_high_water_reads [of s1 "D @ c" off'] pending_reads [OF s1(2)] s1(3) by simp_all
  have "fill_window s = Some (zero_high_water s1)" using s1(1) by (simp add: fill_window_def)
  moreover have "lookahead (zero_high_water s1) = lookahead s1" "next_in (zero_high_water s1) = next_in s1" using z(1) by (simp_all add: reads_def)
  ultimately show ?thesis using that reads_trans [OF s1(2) z(1)] z(2) s1(4) by simp
qed

end
