(* ===== verification/Deflate_Coder.thy ===== *)
theory Deflate_Coder
  imports Window_Inv
begin

text \<open>
  What the output of the compressor means while it runs. All bits produced so far are complete blocks that decode to the data up to the start of the current
  block, and the tallied symbols expand to the data up to the current position. Tallying the next byte or a true match and flushing a block keep this relation;
  flushing the last block ends the stream.
\<close>

section \<open>All the output\<close>

definition bits_out :: "'a deflate_state_scheme \<Rightarrow> bool list" where
  "bits_out s = bytes_bits (next_out s) @ written s"

text \<open>The coder changes nothing of the window and the input.\<close>

definition coder_only :: "'a deflate_state_scheme \<Rightarrow> 'a deflate_state_scheme \<Rightarrow> bool" where
  "coder_only s s' \<longleftrightarrow> level s' = level s \<and> strategy s' = strategy s \<and> sym_end s' = sym_end s
     \<and> (\<exists>a b c d e. tree_state.more s' = tree_state.more (s\<lparr>next_out := a, avail_out := b, total_out := c, block_start := d, pending_out := e\<rparr>))"

lemma coder_only_fields:
  assumes "coder_only s s'"
  shows "level s' = level s" "strategy s' = strategy s" "sym_end s' = sym_end s" "wrap s' = wrap s" "status s' = status s" "last_flush s' = last_flush s"
    "lookahead s' = lookahead s" "strstart s' = strstart s" "w_size s' = w_size s" "window_size s' = window_size s" "window s' = window s" "prev s' = prev s"
    "head s' = head s" "ins_h s' = ins_h s" "match_available s' = match_available s" "prev_match s' = prev_match s" "match_start s' = match_start s"
    "prev_length s' = prev_length s" "max_chain_length s' = max_chain_length s" "max_lazy_match s' = max_lazy_match s"
    "good_match s' = good_match s" "nice_match s' = nice_match s" "to_insert s' = to_insert s" "fill_end s' = fill_end s"
    "next_in s' = next_in s" "total_in s' = total_in s" "adler s' = adler s" "gzhead s' = gzhead s" "gzindex s' = gzindex s"
  using assms by (cases s; cases s'; auto simp: coder_only_def)+

lemma coder_only_refl: "coder_only s s"
proof -
  have "s\<lparr>next_out := next_out s, avail_out := avail_out s, total_out := total_out s, block_start := block_start s, pending_out := pending_out s\<rparr> = s"
    by simp
  then show ?thesis unfolding coder_only_def by metis
qed

lemma coder_only_trans: "coder_only s s' \<Longrightarrow> coder_only s' s'' \<Longrightarrow> coder_only s s''"
  by (cases s; cases s'; cases s'') (auto simp: coder_only_def)

lemma coder_only_inv:
  assumes "coder_only s s'"
  shows "window_ok s' = window_ok s" "holds D off s' = holds D off s" "pending_match D p s' = pending_match D p s" "MAX_DIST s' = MAX_DIST s"
    "hash_inv s' = hash_inv s" "tables_ok s' = tables_ok s"
  using coder_only_fields [OF assms] by (simp_all add: window_ok_def holds_def pending_match_def MAX_DIST_def hash_inv_def hash_below_def tables_ok_def)

lemma flush_bits_more: "bit_state.more (zng_tr_flush_bits s) = bit_state.more s" by simp

lemma flush_pending_facts:
  fixes s :: "'a deflate_state_scheme"
  assumes "bit_inv s"
  shows "bits_out (flush_pending s) = bits_out s" and "bit_inv (flush_pending s)" and "coder_only s (flush_pending s)"
    and "tallied (flush_pending s) = tallied s" and "tally_inv (flush_pending s) = tally_inv s" and "block_start (flush_pending s) = block_start s"
    and "length (next_out s) + avail_out s = length (next_out (flush_pending s)) + avail_out (flush_pending s)"
    and "\<exists>xs. next_out (flush_pending s) = next_out s @ xs"
    and "pending_out s = 0 \<Longrightarrow> avail_out (flush_pending s) \<noteq> 0 \<Longrightarrow> pending_out (flush_pending s) = 0"
proof -
  define t where "t = zng_tr_flush_bits s"
  have m: "bit_state.more t = bit_state.more s" by (simp add: t_def)
  have w: "written t = written s" "bit_inv t" using zng_tr_flush_bits_written [OF assms] by (simp_all add: t_def)
  have f: "next_out t = next_out s" "avail_out t = avail_out s" "block_start t = block_start s" "tallied t = tallied s" "tally_inv t = tally_inv s"
    "pending_out t = pending_out s"
    using more_fields [OF m] m by (cases t; cases s; simp)+
  have c: "coder_only s t" using m coder_only_refl [of s] by (cases t; cases s) (auto simp: coder_only_def)
  define n where "n = min (length (pending_buf t)) (avail_out t)"
  have fp: "flush_pending s = (if n = 0 then t else t\<lparr>next_out := next_out t @ take n (pending_buf t), pending_buf := drop n (pending_buf t),
       pending_out := (if n = length (pending_buf t) then 0 else pending_out t + n), total_out := total_out t + n, avail_out := avail_out t - n\<rparr>)" (is "_ = (if _ then _ else ?u)")
    by (simp add: flush_pending_def t_def n_def Let_def)
  have "bytes_bits (take n (pending_buf t)) @ bytes_bits (drop n (pending_buf t)) = bytes_bits (pending_buf t)"
    by (metis append_take_drop_id bytes_bits_simps(3))
  then have "bits_out ?u = bits_out t" by (simp add: bits_out_def written_def)
  moreover have "bits_out t = bits_out s" using w f by (simp add: bits_out_def)
  ultimately show "bits_out (flush_pending s) = bits_out s" by (simp add: fp)
  show "bit_inv (flush_pending s)" using w by (simp add: fp bit_inv_def)
  have "coder_only t ?u" by (cases t) (auto simp: coder_only_def)
  then show "coder_only s (flush_pending s)" using c coder_only_trans by (auto simp: fp)
  have "tallied ?u = tallied t" "tally_inv ?u = tally_inv t" by (simp_all add: tallied_def tally_inv_def)
  then show "tallied (flush_pending s) = tallied s" "tally_inv (flush_pending s) = tally_inv s" "block_start (flush_pending s) = block_start s"
    using f by (simp_all add: fp)
  show "length (next_out s) + avail_out s = length (next_out (flush_pending s)) + avail_out (flush_pending s)"
    and "\<exists>xs. next_out (flush_pending s) = next_out s @ xs"
    using f by (simp_all add: fp n_def)
  show "pending_out (flush_pending s) = 0" if "pending_out s = 0" "avail_out (flush_pending s) \<noteq> 0"
    using that f by (auto simp: fp n_def min_def split: if_splits)
qed

section \<open>The relation between the output and the data\<close>

text \<open>While there is room for output, nothing is left of a partial delivery.\<close>

definition encoder_ok :: "'a deflate_state_scheme \<Rightarrow> bool" where
  "encoder_ok s \<longleftrightarrow> bit_inv s \<and> tally_inv s \<and> sym_next s < sym_end s \<and> sym_end s \<le> 3 * 32767 \<and> (avail_out s \<noteq> 0 \<longrightarrow> pending_out s = 0)"

text \<open>
  After the bits \<open>pre\<close> of the wrapper, and over the history \<open>H\<close>, the complete blocks decode to the first \<open>q\<close> bytes of the data and the tallied symbols extend
  them to the first \<open>p\<close> bytes.
\<close>

definition coded :: "bool list \<Rightarrow> bytes \<Rightarrow> bytes \<Rightarrow> nat \<Rightarrow> nat \<Rightarrow> 'a deflate_state_scheme \<Rightarrow> bool" where
  "coded pre H D q p s \<longleftrightarrow> encoder_ok s \<and> q \<le> p \<and> p \<le> length D
     \<and> (\<exists>bs. bits_out s = pre @ bs \<and> blocks_read (length pre) H bs (take q D)) \<and> expand (tallied s) (take q D) = Some (take p D)"

text \<open>The stream is complete: a decoder returns all the data, and stops at the padding of the last byte.\<close>

definition finished :: "bool list \<Rightarrow> bytes \<Rightarrow> bytes \<Rightarrow> 'a deflate_state_scheme \<Rightarrow> bool" where
  "finished pre H D s \<longleftrightarrow> encoder_ok s \<and> tallied s = [] \<and> 8 dvd length (bits_out s)
     \<and> (\<exists>bs pad. bits_out s = pre @ bs @ pad \<and> length pad < 8 \<and> (\<forall>rest. rfc_inflate (length pre) (bs @ rest) H = Some (D, rest)))"

lemma coded_more_data: "coded pre H D q p s \<Longrightarrow> coded pre H (D @ c) q p s"
  by (simp add: coded_def)

lemma coded_encoder: "coded pre H D q p s \<Longrightarrow> encoder_ok s" by (simp add: coded_def)

text \<open>Whatever leaves the coder alone.\<close>

definition same_output :: "'a deflate_state_scheme \<Rightarrow> 'a deflate_state_scheme \<Rightarrow> bool" where
  "same_output s s' \<longleftrightarrow> tree_state.truncate s' = tree_state.truncate s \<and> next_out s' = next_out s \<and> avail_out s' = avail_out s
     \<and> pending_out s' = pending_out s"

lemma same_coder_output: "same_coder s s' \<Longrightarrow> same_output s s'"
  by (simp add: same_coder_def same_output_def)

lemma same_output_coded:
  assumes "same_output s s'"
  shows "coded pre H D q p s' = coded pre H D q p s" "finished pre H D s' = finished pre H D s" "encoder_ok s' = encoder_ok s"
    "bits_out s' = bits_out s" "tallied s' = tallied s" "sym_next s' = sym_next s" "pending_out s' = pending_out s"
  using assms
  by (simp_all add: same_output_def coded_def finished_def encoder_ok_def bits_out_def tree_state.truncate_def written_def bit_inv_def tallied_def tally_inv_def)

section \<open>Tallying\<close>

lemma tally_lit_frame:
  fixes s :: "'a deflate_state_scheme"
  shows "coder_only s (fst (zng_tr_tally_lit c s))" "bits_out (fst (zng_tr_tally_lit c s)) = bits_out s" "bit_inv (fst (zng_tr_tally_lit c s)) = bit_inv s"
    "block_start (fst (zng_tr_tally_lit c s)) = block_start s" "avail_out (fst (zng_tr_tally_lit c s)) = avail_out s"
    "sym_next (fst (zng_tr_tally_lit c s)) = sym_next s + 3" "next_out (fst (zng_tr_tally_lit c s)) = next_out s"
    "pending_out (fst (zng_tr_tally_lit c s)) = pending_out s"
proof -
  show "coder_only s (fst (zng_tr_tally_lit c s))"
    using coder_only_refl [of s] by (cases s) (auto simp: zng_tr_tally_lit_def Let_def coder_only_def)
qed (simp_all add: zng_tr_tally_lit_def Let_def bits_out_def written_def bit_inv_def)

lemma tally_dist_frame:
  fixes s :: "'a deflate_state_scheme"
  shows "coder_only s (fst (zng_tr_tally_dist d l s))" "bits_out (fst (zng_tr_tally_dist d l s)) = bits_out s" "bit_inv (fst (zng_tr_tally_dist d l s)) = bit_inv s"
    "block_start (fst (zng_tr_tally_dist d l s)) = block_start s" "avail_out (fst (zng_tr_tally_dist d l s)) = avail_out s"
    "sym_next (fst (zng_tr_tally_dist d l s)) = sym_next s + 3" "next_out (fst (zng_tr_tally_dist d l s)) = next_out s"
    "pending_out (fst (zng_tr_tally_dist d l s)) = pending_out s"
proof -
  show "coder_only s (fst (zng_tr_tally_dist d l s))"
    using coder_only_refl [of s] by (cases s) (auto simp: zng_tr_tally_dist_def Let_def coder_only_def)
qed (simp_all add: zng_tr_tally_dist_def Let_def bits_out_def written_def bit_inv_def)

text \<open>After a symbol is tallied the buffer may be full, and then the block has to be flushed before the next one.\<close>

definition tallied_to :: "bool list \<Rightarrow> bytes \<Rightarrow> bytes \<Rightarrow> nat \<Rightarrow> nat \<Rightarrow> bool \<Rightarrow> 'a deflate_state_scheme \<Rightarrow> bool" where
  "tallied_to pre H D q p full s \<longleftrightarrow> bit_inv s \<and> tally_inv s \<and> 0 < sym_end s \<and> sym_end s \<le> 3 * 32767 \<and> (\<not> full \<longrightarrow> sym_next s < sym_end s)
     \<and> pending_out s = 0 \<and> q \<le> p \<and> p \<le> length D
     \<and> (\<exists>bs. bits_out s = pre @ bs \<and> blocks_read (length pre) H bs (take q D)) \<and> expand (tallied s) (take q D) = Some (take p D)"

lemma tallied_to_coded: "tallied_to pre H D q p False s \<Longrightarrow> coded pre H D q p s"
  by (simp add: tallied_to_def coded_def encoder_ok_def)

lemma coded_tallied_to: "coded pre H D q p s \<Longrightarrow> pending_out s = 0 \<Longrightarrow> tallied_to pre H D q p full s"
  by (auto simp: tallied_to_def coded_def encoder_ok_def)

lemma tallied_to_room:
  assumes "tallied_to pre H D q p False s"
  shows "sym_next s \<le> sym_end s" and "sym_next s + 3 \<le> sym_end s"
proof -
  obtain n where n: "sym_next s = 3 * n" using assms by (auto simp: tallied_to_def tally_inv_def)
  obtain m where m: "sym_end s = 3 * m" using assms by (auto simp: tallied_to_def tally_inv_def)
  show "sym_next s + 3 \<le> sym_end s" using assms n m by (simp add: tallied_to_def)
  then show "sym_next s \<le> sym_end s" by simp
qed

lemma tally_lit_coded:
  assumes c: "coded pre H D q p s" and p: "p < length D" and po: "pending_out s = 0"
  shows "tallied_to pre H D q (p + 1) (snd (zng_tr_tally_lit (D ! p) s)) (fst (zng_tr_tally_lit (D ! p) s))"
proof -
  let ?s = "fst (zng_tr_tally_lit (D ! p) s)"
  have tt: "tallied_to pre H D q p False s" using c po by (rule coded_tallied_to)
  have e: "bit_inv s" "tally_inv s" "sym_end s \<le> 3 * 32767" using c by (simp_all add: coded_def encoder_ok_def)
  note room = tallied_to_room [OF tt]
  note t = tally_lit_ok [OF e(2) room(1), of "D ! p"]
  note f = tally_lit_frame [where s = s and c = "D ! p"]
  have "expand (tallied ?s) (take q D) = Some (take (p + 1) D)"
    using c p by (simp add: t(1) expand_append coded_def take_Suc_conv_app_nth)
  then show ?thesis
    using c p e t room f po coder_only_fields(3) [OF f(1)] by (auto simp: tallied_to_def coded_def)
qed

text \<open>One more match may be tallied when the buffer is already full.\<close>

lemma tally_dist_coded:
  assumes c: "tallied_to pre H D q p full s" and room: "sym_next s \<le> sym_end s" and p: "p + len + 3 \<le> length D"
    and d: "1 \<le> dist" "dist \<le> p" "dist \<le> 32768" and len: "len < 256"
    and eq: "\<And>i. i < len + 3 \<Longrightarrow> D ! (p + i) = D ! (p - dist + i)"
  shows "tallied_to pre H D q (p + len + 3) (full \<or> snd (zng_tr_tally_dist (of_nat dist) (of_nat len) s)) (fst (zng_tr_tally_dist (of_nat dist) (of_nat len) s))"
proof -
  let ?s = "fst (zng_tr_tally_dist (of_nat dist) (of_nat len) s)"
  have e: "bit_inv s" "tally_inv s" "sym_end s \<le> 3 * 32767" using c by (simp_all add: tallied_to_def)
  have u: "unat (of_nat dist :: u32) = dist" "unat (of_nat len :: u32) = len" using d len by (simp_all add: unat_of_nat)
  note t = tally_dist_ok [OF e(2) room, of "of_nat dist" "of_nat len", unfolded u, OF d(1,3) len]
  note f = tally_dist_frame [where s = s and d = "of_nat dist" and l = "of_nat len"]
  have "copy_match dist (len + 3) (take p D) = take (p + (len + 3)) D" using p d eq by (intro copy_match_take) simp_all
  then have x: "expand (tallied ?s) (take q D) = Some (take (p + len + 3) D)"
    using c p d by (simp add: t(1) expand_append tallied_to_def add.assoc)
  have "sym_next ?s < sym_end ?s" if "\<not> full" "\<not> snd (zng_tr_tally_dist (of_nat dist) (of_nat len) s)"
  proof -
    have "tallied_to pre H D q p False s" using c that(1) by simp
    from tallied_to_room(2) [OF this] show ?thesis using that(2) t(3) f(6) coder_only_fields(3) [OF f(1)] by simp
  qed
  then show ?thesis
    using c p e t f x coder_only_fields(3) [OF f(1)] by (auto simp: tallied_to_def)
qed

section \<open>Flushing a block\<close>

lemma tally_empty:
  assumes "tally_inv s" and "tallied s = []"
  shows "sym_next s = 0"
proof -
  obtain n where "sym_next s = 3 * n" using assms(1) by (auto simp: tally_inv_def)
  then show ?thesis using arg_cong [OF assms(2), of length] by (simp add: tallied_def syms_def)
qed

lemma blocks_read_more:
  assumes "blocks_read (length pre) H bs X" and "bits_out s = pre @ bs" and b: "block_bits (length (written s)) fin b cs"
  shows "block_bits (length pre + length bs) fin b cs"
proof -
  have "length pre + length bs = 8 * length (next_out s) + length (written s)"
    using arg_cong [OF assms(2), of length] by (simp add: bits_out_def)
  then show ?thesis using b block_bits_mod [of "length (next_out s)" "length (written s)"] by metis
qed

lemma window_block:
  assumes h: "holds D off s" and st: "off + strstart s = p" and q: "off \<le> q" "q \<le> p" and len: "strstart s + lookahead s \<le> length (window s)"
  shows "take (p - q) (drop (q - off) (window s)) = drop q (take p D)" and "p - q \<le> length (drop (q - off) (window s))"
proof -
  have "take (p - off) (drop off D) = drop off (take p D)" using q by (simp add: drop_take)
  then have "drop q (take p D) = drop (q - off) (take (p - off) (drop off D))" using q by (metis drop_drop le_add_diff_inverse2)
  also have "take (p - off) (drop off D) = take (p - off) (window s)" using h st by (auto simp: holds_def min_def)
  finally show "take (p - q) (drop (q - off) (window s)) = drop q (take p D)" using q by (simp add: drop_take)
  show "p - q \<le> length (drop (q - off) (window s))" using st q len by simp
qed

lemma padded_dvd: "8 dvd n + nat (- int n mod 8)"
proof -
  have "(int n + (- int n mod 8)) mod 8 = 0" by (simp add: mod_add_right_eq)
  then have "int 8 dvd int (n + nat (- int n mod 8))" by (simp add: dvd_eq_mod_eq_0)
  then show ?thesis unfolding int_dvd_int_iff .
qed

lemma flush_block_only:
  assumes t: "tallied_to pre H D q p full s" and bs: "int q = int off + block_start s" and st: "off + strstart s = p" and h: "holds D off s"
    and len: "strstart s + lookahead s \<le> length (window s)" and small: "p - q \<le> 65535 \<or> block_start s < 0"
  obtains s' where "FLUSH_BLOCK_ONLY fin s = Some s'" and "coder_only s s'" and "block_start s' = int (strstart s)" and "tallied s' = []"
    and "\<not> fin \<Longrightarrow> coded pre H D p p s'" and "fin \<Longrightarrow> p = length D \<Longrightarrow> finished pre H D s'"
proof -
  have inv: "bit_inv s" "tally_inv s" "q \<le> p" "p \<le> length D" "expand (tallied s) (take q D) = Some (take p D)" "0 < sym_end s" "sym_end s \<le> 3 * 32767"
    "pending_out s = 0"
    using t by (simp_all add: tallied_to_def)
  obtain bs0 where bo: "bits_out s = pre @ bs0" "blocks_read (length pre) H bs0 (take q D)" using t by (auto simp: tallied_to_def)
  have "length (tallied s) = sym_next s div 3" by (simp add: tallied_def syms_def)
  moreover have "sym_next s \<le> sym_end s + 3" using inv(2) by (simp add: tally_inv_def)
  ultimately have short: "length (tallied s) < 65535" using inv(7) by linarith
  define buf where "buf = (if block_start s \<ge> 0 then Some (drop (nat (block_start s)) (window s)) else None)"
  define n where "n = (of_int (int (strstart s) - block_start s) :: u32)"
  have data: "unat n = p - q \<and> take (unat n) x = drop q (take p D) \<and> p - q \<le> length x \<and> p - q \<le> 65535" if "buf = Some x" for x
  proof -
    have b: "block_start s \<ge> 0" "x = drop (nat (block_start s)) (window s)" using that by (simp_all add: buf_def split: if_splits)
    have "nat (block_start s) = q - off" "off \<le> q" using b(1) bs by simp_all
    then have x: "x = drop (q - off) (window s)" "off \<le> q" using b by simp_all
    have "p - q \<le> 65535" using small b by simp
    moreover have "int (strstart s) - block_start s = int (p - q)" using bs st inv(3) by simp
    ultimately have "unat n = p - q" by (simp add: n_def unat_of_nat)
    then show ?thesis using window_block [OF h st x(2) inv(3) len] \<open>p - q \<le> 65535\<close> by (simp add: x)
  qed
  obtain s1 b where s1: "zng_tr_flush_block buf n fin s = Some s1" and fl: "flushed fin b s s1"
    and b: "b = Coded (tallied s) \<or> (\<exists>data. buf = Some data \<and> b = Stored (take (unat n) data))"
    using flush_block_flushed [OF inv(2,1) short, of buf n fin] data by metis
  have eb: "expand_block b (take q D) = Some (take p D)"
  proof -
    have "take q D @ drop q (take p D) = take p D" using append_take_drop_id [of q "take p D"] inv(3) by (simp add: min_def)
    then show ?thesis using b inv(5) data by auto
  qed
  obtain cs where cs: "block_bits (length (written s)) fin b cs"
      "written s1 = written s @ cs @ (if fin then replicate (nat (- int (length (written s @ cs)) mod 8)) False else [])"
      "bit_inv s1" "tally_inv s1" "tallied s1 = []" "block_frame s s1"
    using fl unfolding flushed_def by blast
  define s2 where "s2 = s1\<lparr>block_start := int (strstart s1)\<rparr>"
  have more: "tree_state.more s1 = tree_state.more s" "level s1 = level s" "strategy s1 = strategy s" "sym_end s1 = sym_end s"
    using cs(6) by (simp_all add: block_frame_def)
  have c1: "coder_only s s2" using more unfolding s2_def by (cases s; cases s1) (auto simp: coder_only_def)
  have f1: "next_out s1 = next_out s" "strstart s1 = strstart s" "pending_out s1 = pending_out s" using more(1) by (cases s; cases s1; simp)+
  have i2: "bit_inv s2" "tally_inv s2" "tallied s2 = []" "bits_out s2 = bits_out s1"
    using cs(3-5) by (simp_all add: s2_def bit_inv_def tally_inv_def tallied_def bits_out_def written_def)
  define s' where "s' = flush_pending s2"
  note fp = flush_pending_facts [OF i2(1), folded s'_def]
  have e: "FLUSH_BLOCK_ONLY fin s = Some s'"
    using s1 inv(8) unfolding FLUSH_BLOCK_ONLY_def Let_def buf_def [symmetric] n_def [symmetric] s'_def s2_def by simp
  have co: "coder_only s s'" using coder_only_trans c1 fp(3) by blast
  have out: "bits_out s' = bits_out s @ cs @ (if fin then replicate (nat (- int (length (written s @ cs)) mod 8)) False else [])"
    using fp(1) i2(4) cs(2) f1(1) by (simp add: bits_out_def)
  have tn: "tallied s' = []" using fp i2 by simp
  have "pending_out s2 = 0" using f1(3) inv(8) by (simp add: s2_def)
  then have enc: "encoder_ok s'"
    using fp i2 tally_empty [of s'] tn inv(6,7) coder_only_fields(3) [OF co] by (simp add: encoder_ok_def)
  have bb: "block_bits (length pre + length bs0) fin b cs" by (rule blocks_read_more [OF bo(2,1) cs(1)])
  have nf: "coded pre H D p p s'" if "\<not> fin"
  proof -
    have "blocks_read (length pre) H (bs0 @ cs) (take p D)" using bo(2) bb eb that by (auto intro: blocks_read.more)
    then show ?thesis using enc tn inv(4) out bo(1) that by (simp add: coded_def)
  qed
  have fi: "finished pre H D s'" if fin and p: "p = length D"
  proof -
    let ?pad = "replicate (nat (- int (length (written s @ cs)) mod 8)) False"
    have "rfc_inflate (length pre) ((bs0 @ cs) @ rest) H = Some (D, rest)" for rest
      using blocks_read_final [OF bo(2) _ eb, of cs rest] bb that by simp
    moreover have "bits_out s' = pre @ (bs0 @ cs) @ ?pad" using out bo(1) that by simp
    moreover have "length ?pad < 8" by (simp add: nat_less_iff)
    moreover have "8 dvd length (bits_out s')"
    proof -
      have "length (bits_out s') = 8 * length (next_out s) + (length (written s @ cs) + nat (- int (length (written s @ cs)) mod 8))"
        unfolding out using that by (simp add: bits_out_def)
      moreover have "8 dvd length (written s @ cs) + nat (- int (length (written s @ cs)) mod 8)" by (rule padded_dvd)
      ultimately show ?thesis by simp
    qed
    ultimately show ?thesis using enc tn unfolding finished_def by blast
  qed
  have "block_start s' = int (strstart s)" using fp(6) f1(2) by (simp add: s2_def)
  then show ?thesis using that e co tn nf fi by blast
qed

end
