(* ===== verification/Deflate_Strategies.thy ===== *)
theory Deflate_Strategies
  imports Deflate_Coder
begin

text \<open>
  The frame that the compression functions share, and the two that need no hash table: deflate_huff and deflate_rle. Every function is a loop whose body either goes on, leaves
  the loop because the input has ended, or returns because there is no more input or no room for output. A locale states what a body has to promise, and proves
  that the loop ends and what the function delivers.
\<close>

section \<open>Flush values and the end of a call\<close>

definition Z_NO_FLUSH :: int where "Z_NO_FLUSH = 0"
definition Z_PARTIAL_FLUSH :: int where "Z_PARTIAL_FLUSH = 1"
definition Z_SYNC_FLUSH :: int where "Z_SYNC_FLUSH = 2"
definition Z_FULL_FLUSH :: int where "Z_FULL_FLUSH = 3"
definition Z_FINISH :: int where "Z_FINISH = 4"
definition Z_BLOCK :: int where "Z_BLOCK = 5"

datatype 's outcome = Next (state_of: 's) | Stop (state_of: 's) | Return (state_of: 's) (result_of: block_state)

partial_function (option) strategy_loop :: "('s \<Rightarrow> 's outcome option) \<Rightarrow> 's \<Rightarrow> 's outcome option" where
  "strategy_loop step s = Option.bind (step s) (\<lambda>r. if is_Next r then strategy_loop step (state_of r) else Some r)"

definition flush_if :: "bool \<Rightarrow> 'a deflate_state_scheme \<Rightarrow> 'a deflate_state_scheme outcome option" where
  "flush_if bflush s =
    (if bflush then map_option (\<lambda>(s, r). case r of Some b \<Rightarrow> Return s b | None \<Rightarrow> Next s) (FLUSH_BLOCK False s)
     else Some (Next s))"

definition end_stream :: "int \<Rightarrow> 'a deflate_state_scheme \<Rightarrow> ('a deflate_state_scheme \<times> block_state) option" where
  "end_stream flush s =
    (if flush = Z_FINISH
     then map_option (\<lambda>(s, r). (s, case r of Some b \<Rightarrow> b | None \<Rightarrow> finish_done)) (FLUSH_BLOCK True s)
     else if sym_next s \<noteq> 0
     then map_option (\<lambda>(s, r). (s, case r of Some b \<Rightarrow> b | None \<Rightarrow> block_done)) (FLUSH_BLOCK False s)
     else Some (s, block_done))"

section \<open>deflate\_huff\<close>

definition huff_step :: "int \<Rightarrow> 'a deflate_state_scheme \<Rightarrow> 'a deflate_state_scheme outcome option" where
  "huff_step flush s =
    Option.bind (if lookahead s = 0 then fill_window s else Some s) (\<lambda>s.
      if lookahead s = 0 then Some (if flush = Z_NO_FLUSH then Return s need_more else Stop s)
      else let (s, bflush) = zng_tr_tally_lit (window s ! strstart s) s
        in flush_if bflush (s\<lparr>lookahead := lookahead s - 1, strstart := strstart s + 1\<rparr>))"

definition deflate_huff :: "int \<Rightarrow> 'a deflate_state_scheme \<Rightarrow> ('a deflate_state_scheme \<times> block_state) option" where
  "deflate_huff flush s =
    Option.bind (strategy_loop (huff_step flush) s) (\<lambda>r. case r of
      Return s b \<Rightarrow> Some (s, b)
    | Stop s \<Rightarrow> end_stream flush (s\<lparr>to_insert := 0\<rparr>)
    | Next s \<Rightarrow> None)"

section \<open>deflate\_rle\<close>

definition rle_length :: "'a deflate_state_scheme \<Rightarrow> nat" where
  "rle_length s =
    (if lookahead s \<ge> STD_MIN_MATCH \<and> strstart s > 0
     then let scan = drop (strstart s - 1) (window s)
       in if scan ! 0 = scan ! 1 \<and> scan ! 1 = scan ! 2 then min (compare256_rle_64 scan (drop 3 scan) + 2) (lookahead s) else 0
     else 0)"

definition rle_step :: "int \<Rightarrow> 'a deflate_state_scheme \<Rightarrow> 'a deflate_state_scheme outcome option" where
  "rle_step flush s =
    Option.bind (if lookahead s \<le> STD_MAX_MATCH then fill_window s else Some s) (\<lambda>s.
      if lookahead s \<le> STD_MAX_MATCH \<and> flush = Z_NO_FLUSH then Some (Return s need_more)
      else if lookahead s = 0 then Some (Stop s)
      else let match_len = rle_length s in
        if match_len \<ge> STD_MIN_MATCH
        then let (s, bflush) = zng_tr_tally_dist 1 (of_nat (match_len - STD_MIN_MATCH)) s
          in flush_if bflush (s\<lparr>lookahead := lookahead s - match_len, strstart := strstart s + match_len\<rparr>)
        else let (s, bflush) = zng_tr_tally_lit (window s ! strstart s) s
          in flush_if bflush (s\<lparr>lookahead := lookahead s - 1, strstart := strstart s + 1\<rparr>))"

definition deflate_rle :: "int \<Rightarrow> 'a deflate_state_scheme \<Rightarrow> ('a deflate_state_scheme \<times> block_state) option" where
  "deflate_rle flush s =
    Option.bind (strategy_loop (rle_step flush) s) (\<lambda>r. case r of
      Return s b \<Rightarrow> Some (s, b)
    | Stop s \<Rightarrow> end_stream flush (s\<lparr>to_insert := 0\<rparr>)
    | Next s \<Rightarrow> None)"

section \<open>What a compression function keeps\<close>

text \<open>
  The window holds the data read so far, the output is that of the blocks before block_start, and the tallied symbols reach to the current position, less the \<open>lit\<close> bytes of
  which the compressor has not decided yet.
\<close>

definition stream_ok :: "bool list \<Rightarrow> bytes \<Rightarrow> bytes \<Rightarrow> nat \<Rightarrow> nat \<Rightarrow> 'a deflate_state_scheme \<Rightarrow> bool" where
  "stream_ok pre H D off lit s \<longleftrightarrow> window_ok s \<and> holds D off s \<and> lit \<le> strstart s
     \<and> (\<exists>q. int q = int off + block_start s \<and> coded pre H D q (off + strstart s - lit) s)"

lemma stream_encoder: "stream_ok pre H D off lit s \<Longrightarrow> encoder_ok s"
  by (auto simp: stream_ok_def dest: coded_encoder)

text \<open>Input consumed, with the fields that no compression function touches.\<close>

definition consumes :: "bytes \<Rightarrow> 'a deflate_state_scheme \<Rightarrow> 'a deflate_state_scheme \<Rightarrow> bool" where
  "consumes c s s' \<longleftrightarrow> next_in s = c @ next_in s' \<and> adler s' = checked (wrap s) (adler s) c \<and> total_in s' = total_in s + length c
     \<and> wrap s' = wrap s \<and> status s' = status s \<and> last_flush s' = last_flush s \<and> level s' = level s \<and> strategy s' = strategy s \<and> w_size s' = w_size s
     \<and> max_lazy_match s' = max_lazy_match s \<and> good_match s' = good_match s \<and> gzhead s' = gzhead s \<and> gzindex s' = gzindex s"

lemma consumes_refl: "consumes [] s s" by (simp add: consumes_def)

lemma consumes_trans: "consumes c s s' \<Longrightarrow> consumes c' s' s'' \<Longrightarrow> consumes (c @ c') s s''"
  by (simp add: consumes_def checked_append)

lemma reads_consumes: "reads D off c off' s s' \<Longrightarrow> consumes c s s'"
  using same_coder_fields(1,2) [of s s'] by (simp add: reads_def consumes_def same_coder_def)

lemma coder_consumes: "coder_only s s' \<Longrightarrow> consumes [] s s'"
  using coder_only_fields [of s s'] by (simp add: consumes_def)

definition left :: "'a deflate_state_scheme \<Rightarrow> nat" where
  "left s = length (next_in s) + lookahead s"

locale compression =
  fixes step :: "'a deflate_state_scheme \<Rightarrow> 'a deflate_state_scheme outcome option"
    and inv :: "bool list \<Rightarrow> bytes \<Rightarrow> bytes \<Rightarrow> nat \<Rightarrow> 'a deflate_state_scheme \<Rightarrow> bool"
    and flush :: int
  assumes step_ok: "inv pre H D off s \<Longrightarrow> pending_out s = 0 \<Longrightarrow> \<exists>r c off'. step s = Some r \<and> consumes c s (state_of r) \<and> inv pre H (D @ c) off' (state_of r)
      \<and> (is_Next r \<longrightarrow> left (state_of r) < left s)
      \<and> (\<not> is_Return r \<longrightarrow> pending_out (state_of r) = 0)
      \<and> (is_Stop r \<longrightarrow> lookahead (state_of r) = 0 \<and> next_in (state_of r) = [] \<and> flush \<noteq> Z_NO_FLUSH)
      \<and> (is_Return r \<longrightarrow> result_of r = need_more \<and> (avail_out (state_of r) = 0 \<or> next_in (state_of r) = [] \<and> flush = Z_NO_FLUSH))"
begin

lemma loop_ok:
  assumes "inv pre H D off s" and "pending_out s = 0"
  shows "\<exists>r c off'. strategy_loop step s = Some r \<and> consumes c s (state_of r) \<and> inv pre H (D @ c) off' (state_of r) \<and> \<not> is_Next r
      \<and> (is_Stop r \<longrightarrow> pending_out (state_of r) = 0)
      \<and> (is_Stop r \<longrightarrow> lookahead (state_of r) = 0 \<and> next_in (state_of r) = [] \<and> flush \<noteq> Z_NO_FLUSH)
      \<and> (is_Return r \<longrightarrow> result_of r = need_more \<and> (avail_out (state_of r) = 0 \<or> next_in (state_of r) = [] \<and> flush = Z_NO_FLUSH))"
  using assms
proof (induction "left s" arbitrary: s D off rule: less_induct)
  case less
  obtain r c off' where r: "step s = Some r" "consumes c s (state_of r)" "inv pre H (D @ c) off' (state_of r)"
      "is_Next r \<longrightarrow> left (state_of r) < left s" "\<not> is_Return r \<longrightarrow> pending_out (state_of r) = 0"
      "is_Stop r \<longrightarrow> lookahead (state_of r) = 0 \<and> next_in (state_of r) = [] \<and> flush \<noteq> Z_NO_FLUSH"
      "is_Return r \<longrightarrow> result_of r = need_more \<and> (avail_out (state_of r) = 0 \<or> next_in (state_of r) = [] \<and> flush = Z_NO_FLUSH)"
    using step_ok [OF less.prems] by blast
  show ?case
  proof (cases "is_Next r")
    case False
    then have "strategy_loop step s = Some r" using r(1) by (simp add: strategy_loop.simps)
    then show ?thesis using r False by blast
  next
    case True
    then have e: "strategy_loop step s = strategy_loop step (state_of r)" using r(1) by (subst strategy_loop.simps) simp
    have po: "pending_out (state_of r) = 0" using r(5) True by (cases r) simp_all
    obtain r' c' off'' where r': "strategy_loop step (state_of r) = Some r'" "consumes c' (state_of r) (state_of r')"
        "inv pre H ((D @ c) @ c') off'' (state_of r')" "\<not> is_Next r'"
        "is_Stop r' \<longrightarrow> pending_out (state_of r') = 0"
        "is_Stop r' \<longrightarrow> lookahead (state_of r') = 0 \<and> next_in (state_of r') = [] \<and> flush \<noteq> Z_NO_FLUSH"
        "is_Return r' \<longrightarrow> result_of r' = need_more \<and> (avail_out (state_of r') = 0 \<or> next_in (state_of r') = [] \<and> flush = Z_NO_FLUSH)"
      using less.hyps [of "state_of r" "D @ c" off'] r(3,4) po True by blast
    show ?thesis using e r' consumes_trans [OF r(2) r'(2)] by auto
  qed
qed

end

section \<open>The shared steps\<close>

lemma stream_flush:
  assumes ok: "window_ok s" and h: "holds D off s" and q: "int q = int off + block_start s"
    and t: "tallied_to pre H D q p full s" and p: "off + strstart s = p" and small: "p - q \<le> 65535 \<or> block_start s < 0"
  obtains s' where "FLUSH_BLOCK_ONLY False s = Some s'" and "coder_only s s'" and "stream_ok pre H D off 0 s'" and "tallied s' = []"
    and "block_start s' = int (strstart s')"
proof -
  obtain s' where s': "FLUSH_BLOCK_ONLY False s = Some s'" "coder_only s s'" "block_start s' = int (strstart s)" "tallied s' = []"
      "coded pre H D p p s'"
    using flush_block_only [OF t q p h window_room [OF ok] small, of False] by blast
  have "int p = int off + block_start s'" using s'(3) p by simp
  then have "stream_ok pre H D off 0 s'"
    using s'(5) ok h p coder_only_inv(1,2) [OF s'(2)] coder_only_fields(8) [OF s'(2)] by (auto simp: stream_ok_def)
  then show ?thesis using that s' coder_only_fields(8) [OF s'(2)] by metis
qed

text \<open>A symbol has been tallied; a full block is flushed.\<close>

lemma flush_if_ok:
  assumes ok: "window_ok s" and h: "holds D off s" and q: "int q = int off + block_start s"
    and t: "tallied_to pre H D q p full s" and p: "off + strstart s = p" and small: "p - q \<le> 65535 \<or> block_start s < 0"
  obtains r where "flush_if full s = Some r" and "coder_only s (state_of r)" and "stream_ok pre H D off 0 (state_of r)" and "\<not> is_Stop r"
    and "is_Return r \<longrightarrow> result_of r = need_more \<and> avail_out (state_of r) = 0"
    and "state_of r = s \<or> tallied (state_of r) = [] \<and> block_start (state_of r) = int (strstart (state_of r))"
    and "is_Next r \<longrightarrow> pending_out (state_of r) = 0"
proof (cases full)
  case True
  obtain s' where s': "FLUSH_BLOCK_ONLY False s = Some s'" "coder_only s s'" "stream_ok pre H D off 0 s'" "tallied s' = []"
      "block_start s' = int (strstart s')"
    by (rule stream_flush [OF ok h q t p small])
  have "flush_if full s = Some (if avail_out s' = 0 then Return s' need_more else Next s')"
    using s'(1) True by (simp add: flush_if_def FLUSH_BLOCK_def)
  moreover have "pending_out s' = 0" if "avail_out s' \<noteq> 0" using stream_encoder [OF s'(3)] that by (simp add: encoder_ok_def)
  ultimately show ?thesis using that s' by (cases "avail_out s' = 0") simp_all
next
  case False
  have "coded pre H D q p s" using t False tallied_to_coded by simp
  then have "stream_ok pre H D off 0 s" using ok h q p by (auto simp: stream_ok_def)
  moreover have "pending_out s = 0" using t by (simp add: tallied_to_def)
  ultimately show ?thesis using that [of "Next s"] False by (simp add: flush_if_def coder_only_refl)
qed

lemma end_stream_ok:
  assumes ok: "window_ok s" "holds D off s" and q: "int q = int off + block_start s" and t: "tallied_to pre H D q (off + strstart s) full s"
    and nonempty: "full \<longrightarrow> sym_next s \<noteq> 0" and end_of_input: "lookahead s = 0" and small: "off + strstart s - q \<le> 65535 \<or> block_start s < 0"
  obtains s' b where "end_stream flush s = Some (s', b)" and "coder_only s s'"
    and "flush = Z_FINISH \<longrightarrow> b \<in> {finish_started, finish_done} \<and> finished pre H D s' \<and> (b = finish_started \<longleftrightarrow> avail_out s' = 0)"
    and "flush \<noteq> Z_FINISH \<longrightarrow> b \<in> {need_more, block_done} \<and> stream_ok pre H D off 0 s' \<and> tallied s' = [] \<and> block_start s' = int (strstart s')
      \<and> (b = need_more \<longrightarrow> avail_out s' = 0)"
proof -
  have len: "length D = off + strstart s" using holds_length [OF ok] end_of_input by simp
  show ?thesis
  proof (cases "flush = Z_FINISH")
    case True
    obtain s' where s': "FLUSH_BLOCK_ONLY True s = Some s'" "coder_only s s'" "finished pre H D s'"
      using flush_block_only [OF t q refl ok(2) window_room [OF ok(1)] small, of True] len by (metis (full_types))
    have "end_stream flush s = Some (s', if avail_out s' = 0 then finish_started else finish_done)"
      using True s'(1) by (simp add: end_stream_def FLUSH_BLOCK_def)
    then show ?thesis using that s' True by simp
  next
    case False
    show ?thesis
    proof (cases "sym_next s = 0")
      case True
      have e: "tallied s = []" using True by (simp add: tallied_def syms_def)
      then have "take q D = take (off + strstart s) D" using t by (simp add: tallied_to_def)
      then have "length (take q D) = length (take (off + strstart s) D)" by simp
      then have "q = off + strstart s" using t by (simp add: tallied_to_def)
      then have "block_start s = int (strstart s)" using q by simp
      moreover have "coded pre H D q (off + strstart s) s" using t nonempty True tallied_to_coded by (cases full) simp_all
      then have "stream_ok pre H D off 0 s" using ok q by (auto simp: stream_ok_def)
      ultimately show ?thesis using that [of s block_done] e True False by (simp add: end_stream_def coder_only_refl)
    next
      case n: False
      obtain s' where s': "FLUSH_BLOCK_ONLY False s = Some s'" "coder_only s s'" "stream_ok pre H D off 0 s'" "tallied s' = []"
          "block_start s' = int (strstart s')"
        by (rule stream_flush [OF ok q t refl small])
      have "end_stream flush s = Some (s', if avail_out s' = 0 then need_more else block_done)"
        using False n s'(1) by (simp add: end_stream_def FLUSH_BLOCK_def)
      then show ?thesis using that s' False by simp
    qed
  qed
qed

text \<open>Reading more input before a symbol.\<close>

lemma reads_stream:
  assumes so: "stream_ok pre H D off lit s" and r: "reads D off c off' s s'" and lit: "lit \<le> strstart s'"
  shows "stream_ok pre H (D @ c) off' lit s'"
proof -
  obtain q where q: "int q = int off + block_start s" "coded pre H D q (off + strstart s - lit) s" using so by (auto simp: stream_ok_def)
  have "coded pre H (D @ c) q (off' + strstart s' - lit) s'"
    using q(2) r coded_more_data same_output_coded(1) [OF same_coder_output, of s s'] by (simp add: reads_def)
  then show ?thesis using q(1) r lit by (auto simp: stream_ok_def reads_def)
qed

lemma slid_start:
  assumes "reads D off c off' s s'"
  shows "left s' = left s" "tallied s' = tallied s" "avail_out s' = avail_out s" "pending_out s' = pending_out s"
  using assms same_coder_fields(7) [of s s'] by (simp_all add: reads_def left_def same_coder_def)

lemma one_le_lookahead: "1 \<le> MIN_LOOKAHEAD" "STD_MAX_MATCH + 1 \<le> MIN_LOOKAHEAD" by (simp_all add: match_consts)

text \<open>The test of the lookahead at the start of every body.\<close>

lemma refill:
  assumes so: "stream_ok pre H D off lit s" and lit: "lit \<le> 1" and n: "n \<le> MIN_LOOKAHEAD"
  obtains s1 c off1 where "(if lookahead s < n then fill_window s else Some s) = Some s1" and "reads D off c off1 s s1"
    and "lookahead s1 < n \<longrightarrow> next_in s1 = []" and "stream_ok pre H (D @ c) off1 lit s1"
    and "strstart s1 + n \<le> fill_end s1 + MIN_LOOKAHEAD"
proof -
  have ok: "window_ok s" "holds D off s" using so by (simp_all add: stream_ok_def)
  have st: "lit \<le> strstart s1" if "reads D off c off1 s s1" for s1 c off1
    using that lit so by (cases "lit = 0") (auto simp: reads_def stream_ok_def)
  show ?thesis
  proof (cases "lookahead s < n")
    case True
    then have la: "lookahead s < MIN_LOOKAHEAD" using n by simp
    obtain s1 c off1 where s1: "fill_window s = Some s1" "reads D off c off1 s s1" "strstart s1 < fill_end s1"
        "MIN_LOOKAHEAD \<le> lookahead s1 \<or> next_in s1 = []"
      by (rule fill_window_reads [OF ok(1) la ok(2)])
    show ?thesis
    proof (rule that [OF _ s1(2)])
      show "(if lookahead s < n then fill_window s else Some s) = Some s1" using True s1(1) by simp
      show "lookahead s1 < n \<longrightarrow> next_in s1 = []" using s1(4) n by auto
      show "strstart s1 + n \<le> fill_end s1 + MIN_LOOKAHEAD" using s1(3) n by simp
      show "stream_ok pre H (D @ c) off1 lit s1" by (rule reads_stream [OF so s1(2) st [OF s1(2)]])
    qed
  next
    case False
    have "strstart s + n \<le> fill_end s + MIN_LOOKAHEAD" using False ok(1) by (simp add: window_ok_def)
    then show ?thesis using that [OF _ reads_refl [OF ok]] False so by simp
  qed
qed

text \<open>Moving on by \<open>n\<close> bytes.\<close>

lemma advance_window:
  assumes "window_ok s" and "holds D off s" and "n \<le> lookahead s"
  shows "window_ok (s\<lparr>lookahead := lookahead s - n, strstart := strstart s + n\<rparr>)"
    and "holds D off (s\<lparr>lookahead := lookahead s - n, strstart := strstart s + n\<rparr>)"
proof -
  have "hash_below (strstart s + n) s" if "hash_below (strstart s) s" using hash_below_mono [OF that] by simp
  then show "window_ok (s\<lparr>lookahead := lookahead s - n, strstart := strstart s + n\<rparr>)"
    using assms by (auto simp: window_ok_def hash_inv_def hash_below_def tables_ok_def)
  show "holds D off (s\<lparr>lookahead := lookahead s - n, strstart := strstart s + n\<rparr>)" using assms by (simp add: holds_def)
qed

lemma advance_output: "same_output s (s\<lparr>lookahead := a, strstart := b\<rparr>)"
  by (simp add: same_output_def tree_state.truncate_def)

lemma same_output_tallied: "same_output s s' \<Longrightarrow> tallied_to pre H D q p full s' = tallied_to pre H D q p full s"
  by (simp add: same_output_def tallied_to_def bits_out_def tree_state.truncate_def written_def bit_inv_def tallied_def tally_inv_def)

text \<open>A symbol for \<open>n\<close> bytes has been tallied.\<close>

lemma advance_step:
  assumes ok: "window_ok s" "holds D off s" and n: "0 < n" "n \<le> lookahead s" and q: "int q = int off + block_start s"
    and co: "coder_only s t" and bs: "block_start t = block_start s" and tt: "tallied_to pre H D q (off + strstart s + n) full t"
    and small: "off + strstart s + n - q \<le> 65535 \<or> block_start s < 0"
  obtains r where "flush_if full (t\<lparr>lookahead := lookahead t - n, strstart := strstart t + n\<rparr>) = Some r"
    and "consumes [] s (state_of r)" and "stream_ok pre H D off 0 (state_of r)" and "\<not> is_Stop r" and "left (state_of r) < left s"
    and "is_Return r \<longrightarrow> result_of r = need_more \<and> avail_out (state_of r) = 0"
    and "block_start (state_of r) = block_start s \<and> tallied (state_of r) = tallied t
      \<or> tallied (state_of r) = [] \<and> block_start (state_of r) = int (strstart (state_of r))"
    and "strstart (state_of r) = strstart s + n" and "fill_end (state_of r) = fill_end s" and "lookahead (state_of r) = lookahead s - n"
    and "is_Next r \<longrightarrow> pending_out (state_of r) = 0"
proof -
  note f = coder_only_fields [OF co] and fi = coder_only_inv [OF co]
  let ?u = "t\<lparr>lookahead := lookahead t - n, strstart := strstart t + n\<rparr>"
  have tu: "tallied_to pre H D q (off + strstart s + n) full ?u" using tt same_output_tallied [OF advance_output] by metis
  have u: "window_ok ?u" "holds D off ?u" using advance_window [of t D off n] ok fi f n by simp_all
  have q': "int q = int off + block_start ?u" using q bs by simp
  have p': "off + strstart ?u = off + strstart s + n" using f by simp
  have sm: "off + strstart s + n - q \<le> 65535 \<or> block_start ?u < 0" using small bs by simp
  obtain r where r: "flush_if full ?u = Some r" "coder_only ?u (state_of r)" "stream_ok pre H D off 0 (state_of r)" "\<not> is_Stop r"
      "is_Return r \<longrightarrow> result_of r = need_more \<and> avail_out (state_of r) = 0"
      "state_of r = ?u \<or> tallied (state_of r) = [] \<and> block_start (state_of r) = int (strstart (state_of r))"
      "is_Next r \<longrightarrow> pending_out (state_of r) = 0"
    by (rule flush_if_ok [OF u q' tu p' sm])
  note fr = coder_only_fields [OF r(2)]
  have cs: "consumes [] s (state_of r)" using f fr by (simp add: consumes_def)
  show ?thesis
  proof (rule that [OF r(1) cs r(3,4)])
    show "left (state_of r) < left s" using f fr n by (simp add: left_def)
    show "strstart (state_of r) = strstart s + n" "fill_end (state_of r) = fill_end s" "lookahead (state_of r) = lookahead s - n" using f fr by simp_all
    show "block_start (state_of r) = block_start s \<and> tallied (state_of r) = tallied t
      \<or> tallied (state_of r) = [] \<and> block_start (state_of r) = int (strstart (state_of r))"
      using r(6) bs by (auto simp: tallied_def)
  qed (use r(5,7) in simp_all)
qed

text \<open>A literal at the current position.\<close>

lemma literal_tallied:
  assumes ok: "window_ok s" "holds D off s" and la: "0 < lookahead s" and c: "coded pre H D q (off + strstart s) s"
    and po: "pending_out s = 0" and tl: "zng_tr_tally_lit (window s ! strstart s) s = (t, full)"
  shows "coder_only s t" and "block_start t = block_start s" and "tallied_to pre H D q (off + strstart s + 1) full t"
    and "tallied t = tallied s @ [(0, unat (window s ! strstart s))]"
proof -
  have w: "window s ! strstart s = D ! (off + strstart s)" using holds_nth [OF ok, of "strstart s"] la by simp
  have t: "t = fst (zng_tr_tally_lit (D ! (off + strstart s)) s)" "full = snd (zng_tr_tally_lit (D ! (off + strstart s)) s)"
    using tl w by simp_all
  show "coder_only s t" "block_start t = block_start s" using tally_lit_frame(1,4) t(1) by simp_all
  have p: "off + strstart s < length D" using holds_length [OF ok] la by simp
  show "tallied_to pre H D q (off + strstart s + 1) full t" using tally_lit_coded [OF c p po] t by simp
  have "encoder_ok s" using c by (rule coded_encoder)
  then show "tallied t = tallied s @ [(0, unat (window s ! strstart s))]"
    using tally_lit_ok(1) [of s "D ! (off + strstart s)"] t(1) w by (simp add: encoder_ok_def)
qed

section \<open>deflate\_huff delivers a stream\<close>

text \<open>A block holds as many bytes as symbols.\<close>

definition huff_inv :: "bool list \<Rightarrow> bytes \<Rightarrow> bytes \<Rightarrow> nat \<Rightarrow> 'a deflate_state_scheme \<Rightarrow> bool" where
  "huff_inv pre H D off s \<longleftrightarrow> stream_ok pre H D off 0 s \<and> int (strstart s) - block_start s = int (length (tallied s))"

lemma tallied_short:
  assumes "stream_ok pre H D off lit s"
  shows "length (tallied s) < 32767"
proof -
  have e: "encoder_ok s" using assms coded_encoder by (auto simp: stream_ok_def)
  have "length (tallied s) = sym_next s div 3" by (simp add: tallied_def syms_def)
  moreover have "3 dvd sym_next s" "sym_next s < 3 * 32767" using e by (auto simp: encoder_ok_def tally_inv_def)
  ultimately show ?thesis by auto
qed

lemma huff_step_ok:
  assumes inv: "huff_inv pre H D off s" and po: "pending_out s = 0"
  shows "\<exists>r c off'. huff_step flush s = Some r \<and> consumes c s (state_of r) \<and> huff_inv pre H (D @ c) off' (state_of r)
      \<and> (is_Next r \<longrightarrow> left (state_of r) < left s)
      \<and> (\<not> is_Return r \<longrightarrow> pending_out (state_of r) = 0)
      \<and> (is_Stop r \<longrightarrow> lookahead (state_of r) = 0 \<and> next_in (state_of r) = [] \<and> flush \<noteq> Z_NO_FLUSH)
      \<and> (is_Return r \<longrightarrow> result_of r = need_more \<and> (avail_out (state_of r) = 0 \<or> next_in (state_of r) = [] \<and> flush = Z_NO_FLUSH))"
proof -
  have so: "stream_ok pre H D off 0 s" and ok: "window_ok s" "holds D off s" using inv by (simp_all add: huff_inv_def stream_ok_def)
  obtain s1 c off1 where s1: "(if lookahead s < 1 then fill_window s else Some s) = Some s1" and rd: "reads D off c off1 s s1"
    and la: "lookahead s1 < 1 \<longrightarrow> next_in s1 = []" and so1: "stream_ok pre H (D @ c) off1 0 s1"
    by (rule refill [OF so le0 one_le_lookahead(1)], rule that)
  have inv1: "huff_inv pre H (D @ c) off1 s1"
    using inv rd slid_start(2) [OF rd] so1 by (simp add: huff_inv_def reads_def)
  have po1: "pending_out s1 = 0" using slid_start(4) [OF rd] po by simp
  have c1: "consumes c s s1" by (rule reads_consumes [OF rd])
  show ?thesis
  proof (cases "lookahead s1 = 0")
    case True
    then have "huff_step flush s = Some (if flush = Z_NO_FLUSH then Return s1 need_more else Stop s1)" using s1 by (simp add: huff_step_def)
    then show ?thesis using c1 inv1 la po1 True by (cases "flush = Z_NO_FLUSH") auto
  next
    case False
    obtain t full where tl: "zng_tr_tally_lit (window s1 ! strstart s1) s1 = (t, full)" by fastforce
    obtain q where q: "int q = int off1 + block_start s1" "coded pre H (D @ c) q (off1 + strstart s1) s1" using so1 by (auto simp: stream_ok_def)
    have ok1: "window_ok s1" "holds (D @ c) off1 s1" using so1 by (simp_all add: stream_ok_def)
    have la1: "0 < lookahead s1" using False by simp
    note lt = literal_tallied [OF ok1 la1 q(2) po1 tl]
    have "int (strstart s1) - block_start s1 = int (length (tallied s1))" using inv1 by (simp add: huff_inv_def)
    then have "off1 + strstart s1 = q + length (tallied s1)" using q(1) by linarith
    then have "off1 + strstart s1 + 1 - q \<le> 65535" using tallied_short [OF so1] by simp
    then obtain r where r: "flush_if full (t\<lparr>lookahead := lookahead t - 1, strstart := strstart t + 1\<rparr>) = Some r"
        "consumes [] s1 (state_of r)" "stream_ok pre H (D @ c) off1 0 (state_of r)" "\<not> is_Stop r" "left (state_of r) < left s1"
        "is_Return r \<longrightarrow> result_of r = need_more \<and> avail_out (state_of r) = 0"
        "block_start (state_of r) = block_start s1 \<and> tallied (state_of r) = tallied t
          \<or> tallied (state_of r) = [] \<and> block_start (state_of r) = int (strstart (state_of r))"
        "strstart (state_of r) = strstart s1 + 1" "is_Next r \<longrightarrow> pending_out (state_of r) = 0"
      using advance_step [OF ok1 _ _ q(1) lt(1-3)] la1 by (metis One_nat_def Suc_leI zero_less_one)
    have "huff_step flush s = Some r" using s1 r(1) False tl by (simp add: huff_step_def)
    moreover have "huff_inv pre H (D @ c) off1 (state_of r)" using r(3,7,8) inv1 lt(4) by (auto simp: huff_inv_def)
    moreover have "consumes c s (state_of r)" using consumes_trans [OF c1 r(2)] by simp
    ultimately show ?thesis using r(4-6,9) slid_start(1) [OF rd] by (cases r) auto
  qed
qed

interpretation huff: compression "huff_step flush" huff_inv flush for flush
  by unfold_locales (rule huff_step_ok)

section \<open>deflate\_rle delivers a stream\<close>

text \<open>A block that still starts inside the window is short enough to be stored.\<close>

definition block_small :: "'a deflate_state_scheme \<Rightarrow> bool" where
  "block_small s \<longleftrightarrow> int (strstart s) - block_start s \<le> 65535 \<or> block_start s < 0"

definition stream_inv :: "bool list \<Rightarrow> bytes \<Rightarrow> bytes \<Rightarrow> nat \<Rightarrow> 'a deflate_state_scheme \<Rightarrow> bool" where
  "stream_inv pre H D off s \<longleftrightarrow> stream_ok pre H D off 0 s \<and> block_small s"

lemma strstart_small:
  assumes "window_ok s" and "strstart s + n \<le> fill_end s + MIN_LOOKAHEAD" and "0 < n"
  shows "strstart s \<le> 65535" and "block_small s"
proof -
  show "strstart s \<le> 65535" using fill_end_le(2) [OF assms(1)] assms(2,3) by simp
  then show "block_small s" by (auto simp: block_small_def)
qed

lemma rle_length_ok:
  assumes ok: "window_ok s" "holds D off s" and room: "strstart s + STD_MAX_MATCH + 1 \<le> fill_end s + MIN_LOOKAHEAD"
    and len: "STD_MIN_MATCH \<le> rle_length s"
  shows "rle_length s \<le> lookahead s" and "rle_length s \<le> STD_MAX_MATCH" and "0 < strstart s"
    and "\<And>i. i < rle_length s \<Longrightarrow> D ! (off + strstart s + i) = D ! (off + strstart s - 1 + i)"
proof -
  define n where "n = rle_length s"
  let ?scan = "drop (strstart s - 1) (window s)"
  have c: "STD_MIN_MATCH \<le> lookahead s" "0 < strstart s" "?scan ! 0 = ?scan ! 1" "?scan ! 1 = ?scan ! 2"
    and n: "n = min (compare256_rle_64 ?scan (drop 3 ?scan) + 2) (lookahead s)"
    using len by (auto simp: rle_length_def n_def Let_def match_consts split: if_splits)
  have lw: "strstart s + 259 \<le> length (window s)" using ok(1) room by (simp add: window_ok_def match_consts)
  let ?k = "compare256_rle_64 ?scan (drop 3 ?scan)"
  have k: "?k = common_prefix (replicate 256 (?scan ! 0)) (take 256 (drop 3 ?scan))"
    using rle_word [of ?scan "?scan ! 0" 8] rle_64_loop [of 0 "drop 3 ?scan" "?scan ! 0"] lw c(2,3)
    by (simp add: compare256_rle_64_def Let_def)
  have k256: "?k \<le> 256" using common_prefix_le(1) [of "replicate 256 (?scan ! 0)" "take 256 (drop 3 ?scan)"] k by simp
  have same: "?scan ! j = ?scan ! 0" if "j < n + 1" for j
  proof (cases "j < 3")
    case True
    then have "j = 0 \<or> j = 1 \<or> j = 2" by auto
    then show ?thesis using c(3,4) by auto
  next
    case False
    then obtain i where i: "j = i + 3" by (metis add.commute le_Suc_ex not_less)
    then have ik: "i < ?k" using that n by simp
    have "replicate 256 (?scan ! 0) ! i = take 256 (drop 3 ?scan) ! i" using common_prefix_eq ik k by metis
    then show ?thesis using ik k256 lw c(2) by (simp add: i)
  qed
  show "rle_length s \<le> lookahead s" "rle_length s \<le> STD_MAX_MATCH" using n k256 by (simp_all add: n_def match_consts)
  show "0 < strstart s" by fact
  show "D ! (off + strstart s + i) = D ! (off + strstart s - 1 + i)" if "i < rle_length s" for i
  proof -
    have i: "i < n" "i < lookahead s" using that n by (simp_all add: n_def)
    have w: "window s ! (strstart s - 1 + j) = D ! (off + (strstart s - 1 + j))" if "j < n + 1" for j
      using that n c(2) by (intro holds_nth [OF ok]) simp_all
    have sc: "?scan ! j = window s ! (strstart s - 1 + j)" if "j < n + 1" for j using lw c(2) by simp
    have "window s ! (strstart s - 1 + (i + 1)) = window s ! (strstart s - 1 + i)" using same [of i] same [of "i + 1"] sc [of i] sc [of "i + 1"] i by simp
    then have "D ! (off + (strstart s - 1 + (i + 1))) = D ! (off + (strstart s - 1 + i))" using w [of i] w [of "i + 1"] i by simp
    then show ?thesis using c(2) by (simp add: add.assoc)
  qed
qed

text \<open>A match at the current position.\<close>

lemma max_dist_small: "window_ok s \<Longrightarrow> MAX_DIST s \<le> 32768"
  using window_sizes(5) [of s] by (simp add: MAX_DIST_def)

lemma match_tallied:
  assumes c: "tallied_to pre H D q (off + strstart s - lit) full0 s" and room: "sym_next s \<le> sym_end s"
    and data: "length D = off + strstart s + lookahead s" and maxd: "MAX_DIST s \<le> 32768"
    and lit: "lit \<le> strstart s" and len: "STD_MIN_MATCH \<le> len" "len \<le> lookahead s + lit" "len \<le> STD_MAX_MATCH"
    and dist: "1 \<le> dist" "dist \<le> strstart s - lit" "dist \<le> MAX_DIST s"
    and eq: "\<And>i. i < len \<Longrightarrow> D ! (off + strstart s - lit + i) = D ! (off + strstart s - lit - dist + i)"
    and tl: "zng_tr_tally_dist (of_nat dist) (of_nat (len - STD_MIN_MATCH)) s = (t, full)"
  shows "coder_only s t" and "block_start t = block_start s" and "tallied_to pre H D q (off + strstart s - lit + len) (full0 \<or> full) t"
    and "sym_next t = sym_next s + 3"
proof -
  have t: "t = fst (zng_tr_tally_dist (of_nat dist) (of_nat (len - STD_MIN_MATCH)) s)"
    "full = snd (zng_tr_tally_dist (of_nat dist) (of_nat (len - STD_MIN_MATCH)) s)" using tl by simp_all
  show "coder_only s t" "block_start t = block_start s" "sym_next t = sym_next s + 3" using tally_dist_frame(1,4,6) t(1) by simp_all
  have l: "len - STD_MIN_MATCH + 3 = len" "len - STD_MIN_MATCH < 256" using len by (simp_all add: match_consts)
  have d: "dist \<le> off + strstart s - lit" "dist \<le> 32768" using dist maxd by simp_all
  have p: "off + strstart s - lit + (len - STD_MIN_MATCH) + 3 \<le> length D" using data len lit l(1) by simp
  have e: "off + strstart s - lit + (len - STD_MIN_MATCH) + 3 = off + strstart s - lit + len" using l(1) by simp
  show "tallied_to pre H D q (off + strstart s - lit + len) (full0 \<or> full) t"
    using tally_dist_coded [OF c room p dist(1) d l(2)] eq l(1) t e by simp
qed

lemma rle_step_ok:
  assumes inv: "stream_inv pre H D off s" and po: "pending_out s = 0"
  shows "\<exists>r c off'. rle_step flush s = Some r \<and> consumes c s (state_of r) \<and> stream_inv pre H (D @ c) off' (state_of r)
      \<and> (is_Next r \<longrightarrow> left (state_of r) < left s)
      \<and> (\<not> is_Return r \<longrightarrow> pending_out (state_of r) = 0)
      \<and> (is_Stop r \<longrightarrow> lookahead (state_of r) = 0 \<and> next_in (state_of r) = [] \<and> flush \<noteq> Z_NO_FLUSH)
      \<and> (is_Return r \<longrightarrow> result_of r = need_more \<and> (avail_out (state_of r) = 0 \<or> next_in (state_of r) = [] \<and> flush = Z_NO_FLUSH))"
proof -
  have so: "stream_ok pre H D off 0 s" using inv by (simp add: stream_inv_def)
  obtain s1 c off1 where s1: "(if lookahead s < STD_MAX_MATCH + 1 then fill_window s else Some s) = Some s1" and rd: "reads D off c off1 s s1"
    and la: "lookahead s1 < STD_MAX_MATCH + 1 \<longrightarrow> next_in s1 = []" and so1: "stream_ok pre H (D @ c) off1 0 s1"
    and st: "strstart s1 + (STD_MAX_MATCH + 1) \<le> fill_end s1 + MIN_LOOKAHEAD"
    by (rule refill [OF so le0 one_le_lookahead(2)], rule that)
  have s1': "(if lookahead s \<le> STD_MAX_MATCH then fill_window s else Some s) = Some s1" using s1 by (simp add: less_Suc_eq_le)
  have ok1: "window_ok s1" "holds (D @ c) off1 s1" using so1 by (simp_all add: stream_ok_def)
  have small: "strstart s1 + n \<le> 65535" if "n \<le> STD_MAX_MATCH" for n using that fill_end_le(2) [OF ok1(1)] st by simp
  have inv1: "stream_inv pre H (D @ c) off1 s1" using so1 strstart_small(2) [OF ok1(1) st] by (simp add: stream_inv_def)
  have c1: "consumes c s s1" by (rule reads_consumes [OF rd])
  have po1: "pending_out s1 = 0" using slid_start(4) [OF rd] po by simp
  consider (more) "lookahead s1 \<le> STD_MAX_MATCH" "flush = Z_NO_FLUSH"
    | (stop) "lookahead s1 = 0" "flush \<noteq> Z_NO_FLUSH"
    | (go) "0 < lookahead s1" "\<not> (lookahead s1 \<le> STD_MAX_MATCH \<and> flush = Z_NO_FLUSH)" by fastforce
  then show ?thesis
  proof cases
    case more
    then have "rle_step flush s = Some (Return s1 need_more)" using s1' by (simp add: rle_step_def)
    then show ?thesis using c1 inv1 la more by auto
  next
    case stop
    then have "rle_step flush s = Some (Stop s1)" using s1' by (simp add: rle_step_def)
    then show ?thesis using c1 inv1 la po1 stop by auto
  next
    case go
    obtain q where q: "int q = int off1 + block_start s1" "coded pre H (D @ c) q (off1 + strstart s1) s1" using so1 by (auto simp: stream_ok_def)
    define n where "n = (if rle_length s1 \<ge> STD_MIN_MATCH then rle_length s1 else 1)"
    obtain t full where tl: "(if rle_length s1 \<ge> STD_MIN_MATCH then zng_tr_tally_dist 1 (of_nat (rle_length s1 - STD_MIN_MATCH)) s1
        else zng_tr_tally_lit (window s1 ! strstart s1) s1) = (t, full)" by fastforce
    have tt: "coder_only s1 t \<and> block_start t = block_start s1 \<and> tallied_to pre H (D @ c) q (off1 + strstart s1 + n) full t
        \<and> n \<le> lookahead s1 \<and> n \<le> STD_MAX_MATCH \<and> 0 < n"
    proof (cases "rle_length s1 \<ge> STD_MIN_MATCH")
      case True
      note rl = rle_length_ok [OF ok1 _ True]
      have st': "strstart s1 + STD_MAX_MATCH + 1 \<le> fill_end s1 + MIN_LOOKAHEAD" using st by simp
      have tt0: "tallied_to pre H (D @ c) q (off1 + strstart s1) False s1" using q(2) po1 by (rule coded_tallied_to)
      have "1 \<le> MAX_DIST s1" using window_sizes(4) [OF ok1(1)] by (simp add: MAX_DIST_def match_consts)
      then show ?thesis
        using match_tallied [of pre H "D @ c" q off1 s1 0 False "rle_length s1" 1 t full] tt0 tallied_to_room(1) [OF tt0] holds_length [OF ok1]
          max_dist_small [OF ok1(1)] True rl [OF st'] tl
        by (simp add: n_def match_consts)
    next
      case False
      then show ?thesis using literal_tallied(1-3) [OF ok1 go(1) q(2) po1, of t full] tl go(1) by (simp add: n_def match_consts)
    qed
    have sm: "off1 + strstart s1 + n - q \<le> 65535 \<or> block_start s1 < 0" using small [of n] tt q(1) by linarith
    obtain r where r: "flush_if full (t\<lparr>lookahead := lookahead t - n, strstart := strstart t + n\<rparr>) = Some r"
        "consumes [] s1 (state_of r)" "stream_ok pre H (D @ c) off1 0 (state_of r)" "\<not> is_Stop r" "left (state_of r) < left s1"
        "is_Return r \<longrightarrow> result_of r = need_more \<and> avail_out (state_of r) = 0"
        "strstart (state_of r) = strstart s1 + n" "is_Next r \<longrightarrow> pending_out (state_of r) = 0"
      using advance_step [OF ok1 _ _ q(1), of n t pre H full] tt sm by metis
    have "rle_step flush s = Some r"
      using s1' r(1) go tl by (cases "rle_length s1 \<ge> STD_MIN_MATCH") (auto simp: rle_step_def n_def Let_def)
    moreover have "strstart (state_of r) \<le> 65535" using r(7) small [of n] tt by simp
    then have "stream_inv pre H (D @ c) off1 (state_of r)" using r(3) by (auto simp: stream_inv_def block_small_def)
    moreover have "consumes c s (state_of r)" using consumes_trans [OF c1 r(2)] by simp
    ultimately show ?thesis using r(4-6,8) slid_start(1) [OF rd] by (cases r) auto
  qed
qed

interpretation rle: compression "rle_step flush" stream_inv flush for flush
  by unfold_locales (rule rle_step_ok)

section \<open>The result of a call\<close>

definition call_ok ::
  "(bytes \<Rightarrow> nat \<Rightarrow> 'a deflate_state_scheme \<Rightarrow> bool) \<Rightarrow> bool list \<Rightarrow> bytes \<Rightarrow> int \<Rightarrow> bytes \<Rightarrow> 'a deflate_state_scheme \<Rightarrow> block_state \<Rightarrow> bool" where
  "call_ok keeps pre H flush D s b \<longleftrightarrow> (case b of
     need_more \<Rightarrow> (\<exists>off. keeps D off s) \<and> (avail_out s = 0 \<or> next_in s = [] \<and> flush = Z_NO_FLUSH)
   | block_done \<Rightarrow> (\<exists>off. keeps D off s) \<and> next_in s = [] \<and> lookahead s = 0 \<and> tallied s = [] \<and> block_start s = int (strstart s)
       \<and> flush \<noteq> Z_NO_FLUSH \<and> flush \<noteq> Z_FINISH
   | _ \<Rightarrow> flush = Z_FINISH \<and> next_in s = [] \<and> finished pre H D s \<and> (b = finish_started \<longleftrightarrow> avail_out s = 0))"

text \<open>The end of a function, after its loop stopped.\<close>

lemma end_call_tallied:
  assumes ok: "window_ok s" "holds D off s" and q: "int q = int off + block_start s" and t: "tallied_to pre H D q (off + strstart s) full s"
    and nonempty: "full \<longrightarrow> sym_next s \<noteq> 0" and bs: "block_small s" and e: "lookahead s = 0" "next_in s = []" "flush \<noteq> Z_NO_FLUSH"
    and keeps: "\<And>s'. stream_ok pre H D off 0 s' \<Longrightarrow> tallied s' = [] \<Longrightarrow> block_start s' = int (strstart s') \<Longrightarrow> coder_only s s' \<Longrightarrow> keeps D off s'"
  shows "\<exists>s' b. end_stream flush s = Some (s', b) \<and> consumes [] s s' \<and> call_ok keeps pre H flush D s' b"
proof -
  have sm: "off + strstart s - q \<le> 65535 \<or> block_start s < 0" using bs q by (auto simp: block_small_def)
  obtain s' b where r: "end_stream flush s = Some (s', b)" "coder_only s s'"
      "flush = Z_FINISH \<longrightarrow> b \<in> {finish_started, finish_done} \<and> finished pre H D s' \<and> (b = finish_started \<longleftrightarrow> avail_out s' = 0)"
      "flush \<noteq> Z_FINISH \<longrightarrow> b \<in> {need_more, block_done} \<and> stream_ok pre H D off 0 s' \<and> tallied s' = [] \<and> block_start s' = int (strstart s')
        \<and> (b = need_more \<longrightarrow> avail_out s' = 0)"
    by (rule end_stream_ok [OF ok q t nonempty e(1) sm], rule that)
  have f: "lookahead s' = 0" "next_in s' = []" using coder_only_fields [OF r(2)] e by simp_all
  have "call_ok keeps pre H flush D s' b"
  proof (cases "flush = Z_FINISH")
    case True
    then show ?thesis using r(3) f by (auto simp: call_ok_def)
  next
    case False
    then have "keeps D off s'" using keeps [of s'] r(2,4) by blast
    then show ?thesis using False r(4) f e(3) by (auto simp: call_ok_def)
  qed
  then show ?thesis using r(1) coder_consumes [OF r(2)] by blast
qed

lemma end_call_ok:
  assumes so: "stream_ok pre H D off 0 s" and po: "pending_out s = 0" and "block_small s" and "lookahead s = 0" and "next_in s = []" and "flush \<noteq> Z_NO_FLUSH"
    and "\<And>s'. stream_ok pre H D off 0 s' \<Longrightarrow> tallied s' = [] \<Longrightarrow> block_start s' = int (strstart s') \<Longrightarrow> coder_only s s' \<Longrightarrow> keeps D off s'"
  shows "\<exists>s' b. end_stream flush s = Some (s', b) \<and> consumes [] s s' \<and> call_ok keeps pre H flush D s' b"
proof -
  obtain q where q: "int q = int off + block_start s" "coded pre H D q (off + strstart s) s" using so by (auto simp: stream_ok_def)
  have ok: "window_ok s" "holds D off s" using so by (simp_all add: stream_ok_def)
  have t: "tallied_to pre H D q (off + strstart s) False s" using q(2) po by (rule coded_tallied_to)
  show ?thesis by (rule end_call_tallied [OF ok q(1) t _ assms(3-6)]) (simp, rule assms(7))
qed

lemma reset_insert:
  assumes "stream_ok pre H D off 0 s" and that: "k \<le> strstart s"
  shows "stream_ok pre H D off 0 (s\<lparr>to_insert := k\<rparr>)"
proof -
  let ?s = "s\<lparr>to_insert := k\<rparr>"
  have out: "same_output s ?s" by (simp add: same_output_def tree_state.truncate_def)
  have "window_ok ?s" using assms that hash_inv_fields [of ?s s] by (simp add: stream_ok_def window_ok_def)
  then show ?thesis using assms same_output_coded(1) [OF out] by (auto simp: stream_ok_def holds_def)
qed

lemma deflate_huff_ok:
  assumes "huff_inv pre H D off s" and "pending_out s = 0"
  shows "\<exists>s' b c. deflate_huff flush s = Some (s', b) \<and> consumes c s s' \<and> call_ok (huff_inv pre H) pre H flush (D @ c) s' b"
proof -
  obtain r c off' where r: "strategy_loop (huff_step flush) s = Some r" "consumes c s (state_of r)" "huff_inv pre H (D @ c) off' (state_of r)"
      "\<not> is_Next r" "is_Stop r \<longrightarrow> pending_out (state_of r) = 0 \<and> lookahead (state_of r) = 0 \<and> next_in (state_of r) = [] \<and> flush \<noteq> Z_NO_FLUSH"
      "is_Return r \<longrightarrow> result_of r = need_more \<and> (avail_out (state_of r) = 0 \<or> next_in (state_of r) = [] \<and> flush = Z_NO_FLUSH)"
    using huff.loop_ok [OF assms] by blast
  show ?thesis
  proof (cases r)
    case (Stop t)
    let ?t = "t\<lparr>to_insert := 0\<rparr>"
    have e: "lookahead ?t = 0" "next_in ?t = []" "flush \<noteq> Z_NO_FLUSH" and po: "pending_out ?t = 0" using r(5) Stop by simp_all
    have so: "stream_ok pre H (D @ c) off' 0 t" and len: "int (strstart t) - block_start t = int (length (tallied t))"
      using r(3) Stop by (simp_all add: huff_inv_def)
    have "stream_ok pre H (D @ c) off' 0 ?t" by (rule reset_insert [OF so]) simp
    moreover have "block_small ?t" using tallied_short [OF so] len by (simp add: block_small_def)
    moreover have "consumes c s ?t" using r(2) Stop by (simp add: consumes_def)
    ultimately show ?thesis
      using end_call_ok [OF _ po _ e, of pre H "D @ c" off' "huff_inv pre H"] r(1) Stop consumes_trans [of c s ?t "[]"]
      by (fastforce simp: deflate_huff_def huff_inv_def)
  next
    case (Return t b)
    then show ?thesis using r by (auto simp: deflate_huff_def call_ok_def)
  qed (use r in simp)
qed

lemma deflate_rle_ok:
  assumes "stream_inv pre H D off s" and "pending_out s = 0"
  shows "\<exists>s' b c. deflate_rle flush s = Some (s', b) \<and> consumes c s s' \<and> call_ok (stream_inv pre H) pre H flush (D @ c) s' b"
proof -
  obtain r c off' where r: "strategy_loop (rle_step flush) s = Some r" "consumes c s (state_of r)" "stream_inv pre H (D @ c) off' (state_of r)"
      "\<not> is_Next r" "is_Stop r \<longrightarrow> pending_out (state_of r) = 0 \<and> lookahead (state_of r) = 0 \<and> next_in (state_of r) = [] \<and> flush \<noteq> Z_NO_FLUSH"
      "is_Return r \<longrightarrow> result_of r = need_more \<and> (avail_out (state_of r) = 0 \<or> next_in (state_of r) = [] \<and> flush = Z_NO_FLUSH)"
    using rle.loop_ok [OF assms] by blast
  show ?thesis
  proof (cases r)
    case (Stop t)
    let ?t = "t\<lparr>to_insert := 0\<rparr>"
    have e: "lookahead ?t = 0" "next_in ?t = []" "flush \<noteq> Z_NO_FLUSH" and po: "pending_out ?t = 0" using r(5) Stop by simp_all
    have "stream_ok pre H (D @ c) off' 0 t" using r(3) Stop by (simp add: stream_inv_def)
    then have "stream_ok pre H (D @ c) off' 0 ?t" by (rule reset_insert) simp
    moreover have "block_small ?t" using r(3) Stop by (simp add: stream_inv_def block_small_def)
    moreover have "consumes c s ?t" using r(2) Stop by (simp add: consumes_def)
    ultimately show ?thesis
      using end_call_ok [OF _ po _ e, of pre H "D @ c" off' "stream_inv pre H"] r(1) Stop consumes_trans [of c s ?t "[]"]
      by (fastforce simp: deflate_rle_def stream_inv_def block_small_def)
  next
    case (Return t b)
    then show ?thesis using r by (auto simp: deflate_rle_def call_ok_def)
  qed (use r in simp)
qed

end
