(* ===== verification/Deflate_Fast.thy ===== *)
theory Deflate_Fast
  imports Deflate_Strategies
begin

text \<open>
  deflate_fast: greedy matching with the plain longest_match, and the emission of further matches at the same distance after one of maximal length. A length found by an
  earlier round that is too short for a match does not influence a later round, so every round starts from zero here.
\<close>

section \<open>The program\<close>

definition fast_search :: "'a deflate_state_scheme \<Rightarrow> 'a deflate_state_scheme \<times> nat" where
  "fast_search s =
    (if lookahead s \<ge> WANT_MIN_MATCH
     then let (s, hash_head) = insert_knuth_val (strstart s) (zng_memread_4 (drop (strstart s) (window s))) s;
              dist = int (strstart s) - int hash_head
       in if dist \<le> int (MAX_DIST s) \<and> dist > 0 \<and> hash_head \<noteq> 0 then longest_match Fast hash_head s else (s, 0)
     else (s, 0))"

definition insert_matched :: "nat \<Rightarrow> 'a deflate_state_scheme \<Rightarrow> 'a deflate_state_scheme" where
  "insert_matched match_len s =
    (if lookahead s \<ge> WANT_MIN_MATCH then insert_knuth_spread (strstart s + 1) (match_len - 1) (max_lazy_match s) s
     else fst (insert_knuth (strstart s + match_len + 2 - STD_MIN_MATCH) s))"

definition max_match_continues :: "nat \<Rightarrow> 'a deflate_state_scheme \<Rightarrow> nat" where
  "max_match_continues dist s =
    (if read8 s (strstart s) \<noteq> read8 s (strstart s - dist) then 0
     else compare256_c (drop (strstart s + 2) (window s)) (drop (strstart s - dist + 2) (window s)) + 2)"

text \<open>The state of the inner loop includes bflush.\<close>

definition continue_step :: "nat \<Rightarrow> 'a deflate_state_scheme \<times> bool \<Rightarrow> ('a deflate_state_scheme \<times> bool) outcome option" where
  "continue_step cont_dist st =
    (let (s, bflush) = st; cont_len = max_match_continues cont_dist s in
     if cont_len < 8 then Some (Stop (s, bflush))
     else let s = insert_knuth_spread (strstart s) cont_len (max_lazy_match s) s;
              s = s\<lparr>strstart := strstart s + cont_len, lookahead := lookahead s - cont_len\<rparr>;
              (s, full) = zng_tr_tally_dist (of_nat cont_dist) (of_nat (cont_len - STD_MIN_MATCH)) s
       in map_option (\<lambda>r. case r of
            Return s b \<Rightarrow> Return (s, False) b
          | _ \<Rightarrow> if lookahead (state_of r) < MIN_LOOKAHEAD then Stop (state_of r, False) else Next (state_of r, False))
         (flush_if (bflush \<or> full) s))"

definition continue_match :: "nat \<Rightarrow> bool \<Rightarrow> 'a deflate_state_scheme \<Rightarrow> 'a deflate_state_scheme outcome option" where
  "continue_match cont_dist bflush s =
    Option.bind (strategy_loop (continue_step cont_dist) (s, bflush)) (\<lambda>r. case r of
      Return (s, bflush) b \<Rightarrow> Some (Return s b)
    | Stop (s, bflush) \<Rightarrow> flush_if bflush s
    | Next st \<Rightarrow> None)"

definition fast_match :: "nat \<Rightarrow> 'a deflate_state_scheme \<Rightarrow> 'a deflate_state_scheme outcome option" where
  "fast_match match_len s =
    (let cont_dist = strstart s - match_start s;
         (s, bflush) = zng_tr_tally_dist (of_nat cont_dist) (of_nat (match_len - STD_MIN_MATCH)) s;
         s = insert_matched match_len (s\<lparr>lookahead := lookahead s - match_len\<rparr>);
         s = s\<lparr>strstart := strstart s + match_len\<rparr>
     in if match_len = STD_MAX_MATCH \<and> lookahead s \<ge> MIN_LOOKAHEAD then continue_match cont_dist bflush s
        else flush_if bflush s)"

definition fast_step :: "int \<Rightarrow> 'a deflate_state_scheme \<Rightarrow> 'a deflate_state_scheme outcome option" where
  "fast_step flush s =
    Option.bind (if lookahead s < MIN_LOOKAHEAD then fill_window s else Some s) (\<lambda>s.
      if lookahead s < MIN_LOOKAHEAD \<and> flush = Z_NO_FLUSH then Some (Return s need_more)
      else if lookahead s = 0 then Some (Stop s)
      else let (s, match_len) = fast_search s in
        if match_len \<ge> WANT_MIN_MATCH then fast_match match_len s
        else let (s, bflush) = zng_tr_tally_lit (window s ! strstart s) s
          in flush_if bflush (s\<lparr>lookahead := lookahead s - 1, strstart := strstart s + 1\<rparr>))"

definition deflate_fast :: "int \<Rightarrow> 'a deflate_state_scheme \<Rightarrow> ('a deflate_state_scheme \<times> block_state) option" where
  "deflate_fast flush s =
    Option.bind (strategy_loop (fast_step flush) s) (\<lambda>r. case r of
      Return s b \<Rightarrow> Some (s, b)
    | Stop s \<Rightarrow> end_stream flush (s\<lparr>to_insert := (if strstart s < STD_MIN_MATCH - 1 then strstart s else STD_MIN_MATCH - 1)\<rparr>)
    | Next s \<Rightarrow> None)"

section \<open>Insertion\<close>

lemma stepped_inserts:
  assumes "2 \<le> mi" "2 \<le> cnt" "cnt \<le> 258" "str + cnt \<le> n" "str + cnt \<le> 65536"
  shows "inserts n s (insert_knuth_stepped str cnt mi s)"
proof -
  define m where "m = min cnt mi"
  define inc where "inc = ((cnt - 1) * 2 ^ 16 + (m - 1 - 1)) div (m - 1)"
  note p = stepped_positions_nth [OF assms(1-3,5), folded m_def, folded inc_def]
  have c: "(cnt - 1) * 2 ^ 16 + 2 ^ 16 = cnt * (2 ^ 16 :: nat)" using assms(2) by (cases cnt) simp_all
  have "x < n" if x: "x \<in> set (stepped_positions str cnt mi)" for x
  proof -
    obtain i where i: "i < m" "x = stepped_positions str cnt mi ! i" using x p(1) by (metis in_set_conv_nth)
    have "i * inc \<le> (m - 1) * inc" using i(1) by (intro mult_le_mono1) arith
    also have "\<dots> < cnt * 2 ^ 16" using p(5) unfolding c .
    finally have "i * inc div 2 ^ 16 < cnt" by (rule less_mult_imp_div_less)
    then show ?thesis using p(2) [OF i(1)] i(2) assms(4) by simp
  qed
  then show ?thesis unfolding insert_knuth_stepped_def by (intro inserts_fold insert_inserts) simp
qed

lemma spread_inserts:
  assumes "2 \<le> cnt" "cnt \<le> 258" "str + cnt \<le> n" "str + cnt \<le> 65536"
  shows "inserts n s (insert_knuth_spread str cnt mi s)"
proof (cases "mi > 3")
  case True
  then show ?thesis using stepped_inserts [OF _ assms, of mi] by (simp add: insert_knuth_spread_def)
next
  case False
  have i: "inserts n t (insert_knuth_one (str + k) t)" if "k < cnt" for k and t :: "'a deflate_state_scheme"
    using that assms by (intro insert_inserts) simp
  have "(cnt - 1) div 2 < cnt" "cnt - 1 < cnt" "0 < cnt" using assms(1) by simp_all
  note c = this
  have 1: "inserts n s (insert_knuth_one str s)" using i [of 0 s] c by simp
  have e: "str + cnt - 1 = str + (cnt - 1)" using c by simp
  show ?thesis
    unfolding insert_knuth_spread_def Let_def e
    using False inserts_trans [OF 1 i [OF c(2)]] inserts_trans [OF inserts_trans [OF 1 i [OF c(1)]] i [OF c(2)]] by auto
qed

lemma insert_matched_inserts:
  assumes "4 \<le> len" "len \<le> 258" "strstart s + len \<le> 65536"
  shows "inserts (strstart s + len) s (insert_matched len s)"
proof (cases "lookahead s \<ge> WANT_MIN_MATCH")
  case True
  then show ?thesis using spread_inserts [of "len - 1" "strstart s + 1" "strstart s + len" s] assms by (simp add: insert_matched_def)
next
  case False
  have "strstart s + len + 2 - STD_MIN_MATCH < strstart s + len" using assms(1) by (simp add: match_consts)
  then show ?thesis using False assms insert_inserts(1) by (simp add: insert_matched_def)
qed

section \<open>The search\<close>

text \<open>A search changes the hash tables and the match it has found, and nothing else.\<close>

definition search_only :: "'a deflate_state_scheme \<Rightarrow> 'a deflate_state_scheme \<Rightarrow> bool" where
  "search_only s s' \<longleftrightarrow> s' = s\<lparr>prev := prev s', head := head s', ins_h := ins_h s', match_start := match_start s'\<rparr>"

lemma search_only_fields:
  assumes "search_only s s'"
  shows "same_coder s s'" "strstart s' = strstart s" "lookahead s' = lookahead s" "window s' = window s" "fill_end s' = fill_end s"
    "block_start s' = block_start s" "next_in s' = next_in s" "prev_length s' = prev_length s" "to_insert s' = to_insert s" "adler s' = adler s"
    "total_in s' = total_in s"
proof -
  obtain a b c d where s': "s' = s\<lparr>prev := a, head := b, ins_h := c, match_start := d\<rparr>" using assms unfolding search_only_def by blast
  show "same_coder s s'" "strstart s' = strstart s" "lookahead s' = lookahead s" "window s' = window s" "fill_end s' = fill_end s"
    "block_start s' = block_start s" "next_in s' = next_in s" "prev_length s' = prev_length s" "to_insert s' = to_insert s" "adler s' = adler s"
    "total_in s' = total_in s"
    unfolding s' by (simp_all add: same_coder_def tree_state.truncate_def)
qed

lemma search_only_hash: "hash_only s s' \<Longrightarrow> search_only s s'"
proof -
  assume h: "hash_only s s'"
  obtain a b c where s': "s' = s\<lparr>prev := a, head := b, ins_h := c\<rparr>" using h unfolding hash_only_def by blast
  show ?thesis unfolding search_only_def s' by simp
qed

lemma search_only_match: "search_only s s' \<Longrightarrow> search_only s (s'\<lparr>match_start := m\<rparr>)"
proof -
  assume h: "search_only s s'"
  obtain a b c d where s': "s' = s\<lparr>prev := a, head := b, ins_h := c, match_start := d\<rparr>" using h unfolding search_only_def by blast
  show ?thesis unfolding search_only_def s' by simp
qed

text \<open>Insertion of the current string: the links still point before it.\<close>

lemma push_prev_below:
  assumes "hash_below n s" and "level s \<noteq> 1" and "h < HASH_SIZE"
  shows "below n (prev (fst (hash_push h str s)))"
proof -
  have "head s ! h = 0 \<or> unat (head s ! h) < n" using assms by (intro below_nth) (simp_all add: hash_below_def tables_ok_def)
  then show ?thesis using assms by (auto simp: hash_push_def Let_def hash_below_def intro: below_update)
qed

lemma pushed_search:
  assumes ok: "window_ok s" and hb: "hash_below (strstart s) s" "level s \<noteq> 1" and room: "strstart s \<le> fill_end s"
    and p: "hash_push h (strstart s) s = (t, hash_head)" "h < HASH_SIZE"
  shows "hash_only s t" and "hash_below (strstart s + 1) t" and "search_ok t"
proof -
  have hb1: "hash_below (strstart s + 1) s" using hash_below_mono [OF hb(1)] by simp
  note b = hash_push_below [OF hb1 _ p(2), of "strstart s", unfolded p(1) fst_conv]
  show ho: "hash_only s t" and "hash_below (strstart s + 1) t" using b by simp_all
  note f = hash_only_fields [OF ho]
  have "below (strstart s) (prev t)" using push_prev_below [OF hb p(2), of "strstart s"] p(1) by simp
  moreover have "strstart s + STD_MAX_MATCH \<le> length (window s)" using room fill_end_le(1) [OF ok] by (simp add: match_consts)
  moreover have "tables_ok t" using b(1) by (simp add: hash_below_def)
  ultimately show "search_ok t" using f by (simp add: search_ok_def)
qed

lemma near_enough:
  assumes "int (strstart s) - int m \<le> int (MAX_DIST s)"
  shows "lm_limit s \<le> m"
  using assms by (auto simp: lm_limit_def)

text \<open>What a search delivers, in terms of the state before it.\<close>

definition found :: "nat \<Rightarrow> nat \<Rightarrow> 'a deflate_state_scheme \<Rightarrow> 'a deflate_state_scheme \<Rightarrow> bool" where
  "found least len s t \<longleftrightarrow> search_only s t \<and> hash_below (strstart s + 1) t \<and> (least \<le> len \<longrightarrow> valid_match t (match_start t) len)"

lemma match_start_below: "hash_below n s \<Longrightarrow> hash_below n (s\<lparr>match_start := m\<rparr>)"
  by (simp add: hash_below_def tables_ok_def)

lemma fast_search_ok:
  assumes ok: "window_ok s" and hb: "hash_below (strstart s) s" "level s \<noteq> 1" and room: "strstart s \<le> fill_end s"
    and r: "fast_search s = (t, len)"
  shows "found WANT_MIN_MATCH len s t"
proof (cases "lookahead s \<ge> WANT_MIN_MATCH")
  case False
  then have "t = s" "len = 0" using r by (simp_all add: fast_search_def)
  then show ?thesis using hash_below_mono [OF hb(1)] search_only_hash [OF hash_only_refl] by (simp add: found_def match_consts)
next
  case True
  define h where "h = UPDATE_HASH_KNUTH (zng_memread_4 (drop (strstart s) (window s)))"
  obtain u hd where u: "hash_push h (strstart s) s = (u, hd)" by fastforce
  have "h < HASH_SIZE" by (simp add: h_def hash_index)
  note ps = pushed_search [OF ok hb room u this]
  note f = hash_only_fields [OF ps(1)]
  have e: "fast_search s = (if int (strstart u) - int hd \<le> int (MAX_DIST u) \<and> int (strstart u) - int hd > 0 \<and> hd \<noteq> 0 then longest_match Fast hd u else (u, 0))"
    using True u f(2) unfolding fast_search_def insert_knuth_val_def h_def [symmetric] by simp
  show ?thesis
  proof (cases "int (strstart u) - int hd \<le> int (MAX_DIST u) \<and> int (strstart u) - int hd > 0 \<and> hd \<noteq> 0")
    case False
    then show ?thesis using r ps(1,2) search_only_hash unfolding e by (auto simp: found_def match_consts)
  next
    case True
    then have m: "lm_limit u \<le> hd" "hd < strstart u" using near_enough by auto
    have l: "longest_match Fast hd u = (t, len)" using r True unfolding e by simp
    note lm = longest_match_ok [OF ps(3) m l]
    have "search_only s t" using search_only_match [OF search_only_hash [OF ps(1)]] lm(1) by metis
    moreover have "hash_below (strstart s + 1) t" using match_start_below [OF ps(2)] lm(1) by metis
    moreover have "valid_match t (match_start t) len" if "WANT_MIN_MATCH \<le> len"
    proof -
      have "valid_match u (match_start t) len" using lm(2) that by (simp add: start_length_def match_consts)
      moreover obtain k where "t = u\<lparr>match_start := k\<rparr>" using lm(1) by blast
      then have "valid_match t (match_start t) len = valid_match u (match_start t) len" by (simp add: valid_match_def MAX_DIST_def)
      ultimately show ?thesis by simp
    qed
    ultimately show ?thesis by (simp add: found_def)
  qed
qed

section \<open>The invariant\<close>

definition hashed :: "'a deflate_state_scheme \<Rightarrow> bool" where
  "hashed s \<longleftrightarrow> \<not> HASHLESS (level s) (strategy s) \<and> level s \<noteq> 1"

definition fast_inv :: "bool list \<Rightarrow> bytes \<Rightarrow> bytes \<Rightarrow> nat \<Rightarrow> 'a deflate_state_scheme \<Rightarrow> bool" where
  "fast_inv pre H D off s \<longleftrightarrow> stream_inv pre H D off s \<and> hashed s"

text \<open>What a round that does not stop delivers, starting from \<open>s\<close>.\<close>

definition stepped :: "bool list \<Rightarrow> bytes \<Rightarrow> bytes \<Rightarrow> nat \<Rightarrow> 'a deflate_state_scheme \<Rightarrow> 'a deflate_state_scheme outcome \<Rightarrow> bool" where
  "stepped pre H D off s r \<longleftrightarrow> consumes [] s (state_of r) \<and> fast_inv pre H D off (state_of r) \<and> \<not> is_Stop r \<and> left (state_of r) < left s
     \<and> (is_Return r \<longrightarrow> result_of r = need_more \<and> avail_out (state_of r) = 0) \<and> (is_Next r \<longrightarrow> pending_out (state_of r) = 0)"

text \<open>A state within a round: the symbols reach to strstart, and the buffer may be full.\<close>

definition mid_round :: "bool list \<Rightarrow> bytes \<Rightarrow> bytes \<Rightarrow> nat \<Rightarrow> 'a deflate_state_scheme \<Rightarrow> bool \<Rightarrow> 'a deflate_state_scheme \<Rightarrow> bool" where
  "mid_round pre H D off s full u \<longleftrightarrow> window_ok u \<and> holds D off u \<and> hashed u \<and> strstart u \<le> 65535 \<and> consumes [] s u \<and> left u < left s
     \<and> (\<exists>q. int q = int off + block_start u \<and> tallied_to pre H D q (off + strstart u) full u)"

lemma flush_stepped:
  assumes "mid_round pre H D off s full u"
  obtains r where "flush_if full u = Some r" and "stepped pre H D off s r" and "coder_only u (state_of r)"
proof -
  obtain q where q: "int q = int off + block_start u" "tallied_to pre H D q (off + strstart u) full u" using assms by (auto simp: mid_round_def)
  have u: "window_ok u" "holds D off u" "strstart u \<le> 65535" "consumes [] s u" "left u < left s" "hashed u" using assms by (simp_all add: mid_round_def)
  have sm: "off + strstart u - q \<le> 65535 \<or> block_start u < 0" using u(3) q(1) by linarith
  obtain r where r: "flush_if full u = Some r" "coder_only u (state_of r)" "stream_ok pre H D off 0 (state_of r)" "\<not> is_Stop r"
      "is_Return r \<longrightarrow> result_of r = need_more \<and> avail_out (state_of r) = 0" "is_Next r \<longrightarrow> pending_out (state_of r) = 0"
    by (rule flush_if_ok [OF u(1,2) q refl sm])
  note f = coder_only_fields [OF r(2)]
  have "strstart (state_of r) \<le> 65535" using u(3) f by simp
  then have "block_small (state_of r)" by (auto simp: block_small_def)
  then have "fast_inv pre H D off (state_of r)" using r(3) u(6) f by (simp add: fast_inv_def stream_inv_def hashed_def)
  then have "stepped pre H D off s r"
    using r(4-6) u(5) f consumes_trans [OF u(4) coder_consumes [OF r(2)]] by (simp add: stepped_def left_def)
  then show ?thesis using that r(1,2) by blast
qed

text \<open>The window after some strings have been inserted and the position has moved on.\<close>

lemma moved_window:
  assumes ok: "window_ok s" "holds D off s" and n: "n \<le> lookahead s" "strstart u = strstart s + n" "lookahead u = lookahead s - n"
    and f: "level u = level s" "strategy u = strategy s" "w_size u = w_size s" "window_size u = window_size s" "window u = window s"
      "fill_end u = fill_end s" "to_insert u = to_insert s"
    and hb: "hash_below (strstart u) u"
  shows "window_ok u" and "holds D off u"
proof -
  have "tables_ok u" "hash_inv u" using hb by (simp_all add: hash_inv_def hash_below_def)
  then show "window_ok u" using ok(1) n(1) unfolding window_ok_def n(2,3) f by simp
  show "holds D off u" using ok(2) n f by (simp add: holds_def)
qed

lemma hash_only_output: "hash_only s s' \<Longrightarrow> same_output s s'"
  by (rule same_coder_output) (rule hash_only_fields)

lemma search_only_output: "search_only s s' \<Longrightarrow> same_output s s'"
  by (rule same_coder_output) (rule search_only_fields)

lemma search_only_consumes:
  assumes "search_only s s'"
  shows "consumes [] s s'"
proof -
  note f = search_only_fields [OF assms]
  show ?thesis using f(1,7,10,11) same_coder_fields(1,2) [OF f(1)] by (simp add: consumes_def same_coder_def)
qed

lemma found_data:
  assumes ok: "window_ok s" "holds D off s" and f: "found least len s t" "least \<le> len" and i: "i < len"
  shows "D ! (off + strstart s + i) = D ! (off + match_start t + i)"
proof -
  have v: "valid_match t (match_start t) len" and so: "search_only s t" using f by (simp_all add: found_def)
  note fs = search_only_fields [OF so]
  have l: "match_start t < strstart s" "len \<le> lookahead s" "window s ! (match_start t + i) = window s ! (strstart s + i)"
    using v i fs by (simp_all add: valid_match_def)
  have "window s ! (match_start t + i) = D ! (off + (match_start t + i))" "window s ! (strstart s + i) = D ! (off + (strstart s + i))"
    using l i by (intro holds_nth [OF ok]; simp)+
  then show ?thesis using l(3) by (simp add: add.assoc)
qed

section \<open>A literal\<close>

lemma fast_literal:
  assumes inv: "fast_inv pre H D off s" and po: "pending_out s = 0" and la: "0 < lookahead s" and st: "strstart s \<le> fill_end s"
    and f: "found least len s t" and tl: "zng_tr_tally_lit (window t ! strstart t) t = (u, full)"
  shows "mid_round pre H D off s full (u\<lparr>lookahead := lookahead u - 1, strstart := strstart u + 1\<rparr>)"
proof -
  obtain q where q: "int q = int off + block_start s" "coded pre H D q (off + strstart s) s"
    using inv by (auto simp: fast_inv_def stream_inv_def stream_ok_def)
  have ok: "window_ok s" "holds D off s" "hashed s" using inv by (simp_all add: fast_inv_def stream_inv_def stream_ok_def)
  have so: "search_only s t" and hb: "hash_below (strstart s + 1) t" using f by (simp_all add: found_def)
  note fs = search_only_fields [OF so] and sc = same_coder_fields [OF search_only_fields(1) [OF so]]
  have w: "window t ! strstart t = D ! (off + strstart s)" using holds_nth [OF ok(1,2), of "strstart s"] la fs by simp
  have p: "off + strstart s < length D" using holds_length [OF ok(1,2)] la by simp
  have ct: "coded pre H D q (off + strstart s) t" using q(2) same_output_coded(1) [OF search_only_output [OF so]] by simp
  have u: "u = fst (zng_tr_tally_lit (D ! (off + strstart s)) t)" "full = snd (zng_tr_tally_lit (D ! (off + strstart s)) t)" using tl w by simp_all
  have pt: "pending_out t = 0" using po search_only_fields(1) [OF so] by (simp add: same_coder_def)
  have tt: "tallied_to pre H D q (off + strstart s + 1) full u" using tally_lit_coded [OF ct p pt] u by simp
  have co: "coder_only t u" "block_start u = block_start t" using tally_lit_frame(1,4) u by simp_all
  note fu = coder_only_fields [OF co(1)]
  let ?v = "u\<lparr>lookahead := lookahead u - 1, strstart := strstart u + 1\<rparr>"
  have hv: "hash_below (strstart ?v) ?v" using hb fu fs by (simp add: hash_below_def tables_ok_def)
  have v: "window_ok ?v" "holds D off ?v" using la fu fs sc by (intro moved_window [OF ok(1,2) _ _ _ _ _ _ _ _ _ _ hv, of 1]; simp)+
  have "tallied_to pre H D q (off + strstart s + 1) full ?v = tallied_to pre H D q (off + strstart s + 1) full u"
    by (rule same_output_tallied [OF advance_output])
  moreover have "off + strstart ?v = off + strstart s + 1" using fu fs by simp
  ultimately have "tallied_to pre H D q (off + strstart ?v) full ?v" using tt by metis
  moreover have "strstart ?v \<le> 65535" using st fill_end_le(2) [OF ok(1)] fu fs by (simp add: match_consts)
  moreover have "consumes [] s ?v"
    using consumes_trans [OF search_only_consumes [OF so] coder_consumes [OF co(1)]] by (simp add: consumes_def)
  ultimately show ?thesis using v q(1) ok(3) fu fs sc co(2) la by (auto simp: mid_round_def hashed_def left_def)
qed

section \<open>A match and its continuations\<close>

lemma fast_match_mid:
  assumes inv: "fast_inv pre H D off s" and po: "pending_out s = 0" and st: "strstart s \<le> fill_end s" and f: "found WANT_MIN_MATCH len s t" and len: "WANT_MIN_MATCH \<le> len"
    and tl: "zng_tr_tally_dist (of_nat (strstart t - match_start t)) (of_nat (len - STD_MIN_MATCH)) t = (u, full)"
  defines "d \<equiv> strstart t - match_start t" and "x \<equiv> insert_matched len (u\<lparr>lookahead := lookahead u - len\<rparr>)"
  defines "v \<equiv> x\<lparr>strstart := strstart x + len\<rparr>"
  shows "mid_round pre H D off s full v" and "sym_next v \<le> sym_end v" and "1 \<le> d" and "d \<le> strstart v" and "d \<le> MAX_DIST v"
proof -
  obtain q where q: "int q = int off + block_start s" "coded pre H D q (off + strstart s) s"
    using inv by (auto simp: fast_inv_def stream_inv_def stream_ok_def)
  have ok: "window_ok s" "holds D off s" "hashed s" using inv by (simp_all add: fast_inv_def stream_inv_def stream_ok_def)
  have so: "search_only s t" and hb: "hash_below (strstart s + 1) t" and vm: "valid_match t (match_start t) len" using f len by (simp_all add: found_def)
  note sc = search_only_fields(1) [OF so]
  note fs = search_only_fields [OF so] and fc = same_coder_fields [OF sc]
  have ms: "match_start t < strstart s" "strstart s \<le> match_start t + MAX_DIST s" "len \<le> lookahead s" "len \<le> 258"
    using vm fs fc by (simp_all add: valid_match_def match_consts)
  have d: "1 \<le> d" "d \<le> strstart s" "d \<le> MAX_DIST s" using ms fs by (simp_all add: d_def)
  then show "1 \<le> d" by simp
  have ct: "coded pre H D q (off + strstart s) t" using q(2) same_output_coded(1) [OF search_only_output [OF so]] by simp
  moreover have "pending_out t = 0" using po sc by (simp add: same_coder_def)
  ultimately have ct': "tallied_to pre H D q (off + strstart s - 0) False t" using coded_tallied_to by simp
  have room: "sym_next t \<le> sym_end t" and room3: "sym_next t + 3 \<le> sym_end t" using tallied_to_room [OF ct'] by simp_all
  have data: "length D = off + strstart t + lookahead t" using holds_length [OF ok(1,2)] fs by simp
  have maxd: "MAX_DIST t \<le> 32768" using max_dist_small [OF ok(1)] fc by simp
  have eq: "D ! (off + strstart s + i) = D ! (off + strstart s - d + i)" if "i < len" for i
    using found_data [OF ok(1,2) f len that] ms fs by (simp add: d_def)
  have mt: "coder_only t u" "block_start u = block_start t" "tallied_to pre H D q (off + strstart s + len) full u" "sym_next u = sym_next t + 3"
    using match_tallied [of pre H D q off t 0 False len d u full] ct' room data maxd d len ms eq tl fs fc
    by (simp_all add: d_def match_consts)
  note fu = coder_only_fields [OF mt(1)]
  let ?w = "u\<lparr>lookahead := lookahead u - len\<rparr>"
  have b: "strstart s + len \<le> 65535" using st fill_end_le(2) [OF ok(1)] ms by (simp add: match_consts)
  have ins: "inserts (strstart s + len) ?w x"
    using insert_matched_inserts [of len ?w] len ms(4) b fu fs unfolding x_def by (simp add: match_consts)
  have hw: "hash_below (strstart s + len) ?w"
    using hash_below_mono [OF hb, of "strstart s + len"] len fu by (simp add: hash_below_def tables_ok_def match_consts)
  have hx: "hash_below (strstart s + len) x" and ho: "hash_only ?w x" using ins hw by (simp_all add: inserts_def)
  note fx = hash_only_fields [OF ho] and fxc = same_coder_fields [OF hash_only_fields(1) [OF ho]]
  have hv: "hash_below (strstart v) v" using hx fx fu fs by (simp add: v_def hash_below_def tables_ok_def)
  have fv: "strstart v = strstart s + len" "lookahead v = lookahead s - len" "level v = level s" "strategy v = strategy s" "w_size v = w_size s"
    "window_size v = window_size s" "window v = window s" "fill_end v = fill_end s" "to_insert v = to_insert s" "block_start v = block_start s"
    "next_in v = next_in s"
    by (simp_all add: v_def fx fxc fu fs fc mt(2))
  have v: "window_ok v" "holds D off v" by (rule moved_window [OF ok(1,2) ms(3) fv(1-9) hv])+
  have ov: "same_output u v"
    using hash_only_output [OF ho] by (simp add: v_def same_output_def tree_state.truncate_def)
  have tv: "tallied_to pre H D q (off + strstart v) full v" using mt(3) same_output_tallied [OF ov] fv(1) by (simp add: add.assoc)
  have cv: "consumes [] s v"
  proof -
    have "consumes [] u v"
      using fx fxc hash_only_fields(1) [OF ho] by (simp add: v_def consumes_def same_coder_def)
    then show ?thesis using consumes_trans [OF consumes_trans [OF search_only_consumes [OF so] coder_consumes [OF mt(1)]]] by simp
  qed
  have "left v < left s" using fv len ms(3) by (simp add: left_def match_consts)
  then show "mid_round pre H D off s full v"
    using v tv cv q(1) ok(3) b fv by (auto simp: mid_round_def hashed_def)
  show "sym_next v \<le> sym_end v" using fxc mt(4) room3 fu by (simp add: v_def)
  show "d \<le> strstart v" using d fv by simp
  show "d \<le> MAX_DIST v" using d fv by (simp add: MAX_DIST_def)
qed

lemma continues_ok:
  assumes ok: "window_ok s" "holds D off s" and room: "strstart s \<le> fill_end s" and d: "d \<le> strstart s" and len: "8 \<le> max_match_continues d s"
  shows "max_match_continues d s \<le> 258"
    and "\<And>i. i < max_match_continues d s \<Longrightarrow> i < lookahead s \<Longrightarrow> D ! (off + strstart s + i) = D ! (off + strstart s - d + i)"
proof -
  let ?p = "drop (strstart s) (window s)" and ?q = "drop (strstart s - d) (window s)"
  define k where "k = compare256_c (drop 2 ?p) (drop 2 ?q)"
  have r8: "read8 s (strstart s) = read8 s (strstart s - d)" and k: "max_match_continues d s = k + 2"
    using len by (auto simp: max_match_continues_def k_def add.commute split: if_splits)
  have "strstart s + 262 \<le> length (window s)" using room fill_end_le(1) [OF ok(1)] by (simp add: match_consts)
  then have rm: "258 \<le> length ?p" "258 \<le> length ?q" by simp_all
  have t8: "take 8 ?q = take 8 ?p" using memread_8_first_diff(1) [of ?q ?p] rm r8 by (simp add: read8_def xor_eq_0_iff)
  show "max_match_continues d s \<le> 258" using compare_after_eight(1) [OF rm t8] by (simp add: k k_def)
  fix i assume i: "i < max_match_continues d s" "i < lookahead s"
  have i258: "i < 258" using i(1) compare_after_eight(1) [OF rm t8] by (simp add: k k_def)
  have "?q ! i = ?p ! i" using compare_after_eight(2) [OF rm t8, of i] i(1) by (simp add: k k_def)
  then have "window s ! (strstart s - d + i) = window s ! (strstart s + i)" using rm i258 by simp
  moreover have "window s ! (strstart s - d + i) = D ! (off + (strstart s - d + i))" "window s ! (strstart s + i) = D ! (off + (strstart s + i))"
    using i(2) by (intro holds_nth [OF ok]; simp)+
  ultimately show "D ! (off + strstart s + i) = D ! (off + strstart s - d + i)" using d by (simp add: add.assoc)
qed

text \<open>One continuation, from a state with enough lookahead.\<close>

definition continuing :: "bool list \<Rightarrow> bytes \<Rightarrow> bytes \<Rightarrow> nat \<Rightarrow> nat \<Rightarrow> 'a deflate_state_scheme \<Rightarrow> 'a deflate_state_scheme \<times> bool \<Rightarrow> bool" where
  "continuing pre H D off d s st \<longleftrightarrow> (case st of (u, full) \<Rightarrow> mid_round pre H D off s full u \<and> sym_next u \<le> sym_end u \<and> 1 \<le> d \<and> d \<le> strstart u \<and> d \<le> MAX_DIST u)"

lemma stepped_continuing:
  assumes r: "stepped pre H D off s r" and nx: "is_Next r" and d: "1 \<le> d" "d \<le> strstart (state_of r)" "d \<le> MAX_DIST (state_of r)" and b: "strstart (state_of r) \<le> 65535"
  shows "continuing pre H D off d s (state_of r, False)"
proof -
  obtain q where q: "int q = int off + block_start (state_of r)" "coded pre H D q (off + strstart (state_of r)) (state_of r)"
    using r by (auto simp: stepped_def fast_inv_def stream_inv_def stream_ok_def)
  have "pending_out (state_of r) = 0" using r nx by (simp add: stepped_def)
  with q(2) have t: "tallied_to pre H D q (off + strstart (state_of r)) False (state_of r)" by (rule coded_tallied_to)
  then have "mid_round pre H D off s False (state_of r)"
    using r q(1) b by (auto simp: mid_round_def stepped_def fast_inv_def stream_inv_def stream_ok_def)
  then show ?thesis using d tallied_to_room(1) [OF t] by (simp add: continuing_def)
qed

lemma continue_step_ok:
  assumes c: "continuing pre H D off d s (u, full)" and la: "MIN_LOOKAHEAD \<le> lookahead u"
  obtains r where "continue_step d (u, full) = Some r"
    and "is_Return r \<longrightarrow> (\<exists>w. r = Return (w, False) need_more \<and> stepped pre H D off s (Return w need_more))"
    and "\<not> is_Return r \<longrightarrow> continuing pre H D off d s (state_of r)"
    and "is_Next r \<longrightarrow> lookahead (fst (state_of r)) < lookahead u \<and> MIN_LOOKAHEAD \<le> lookahead (fst (state_of r))"
proof (cases "max_match_continues d u < 8")
  case True
  then have "continue_step d (u, full) = Some (Stop (u, full))" by (simp add: continue_step_def)
  then show ?thesis using that [of "Stop (u, full)"] c by simp
next
  case False
  define n where "n = max_match_continues d u"
  have mid: "mid_round pre H D off s full u" and rm: "sym_next u \<le> sym_end u" and d: "1 \<le> d" "d \<le> strstart u" "d \<le> MAX_DIST u"
    using c by (simp_all add: continuing_def)
  obtain q where q: "int q = int off + block_start u" "tallied_to pre H D q (off + strstart u) full u" using mid by (auto simp: mid_round_def)
  have ok: "window_ok u" "holds D off u" "hashed u" using mid by (simp_all add: mid_round_def)
  have st: "strstart u \<le> fill_end u" using ok(1) la by (simp add: window_ok_def)
  have n8: "8 \<le> n" using False by (simp add: n_def)
  note co = continues_ok [OF ok(1,2) st d(2) n8 [unfolded n_def], folded n_def]
  have nl: "n \<le> lookahead u" using co(1) la by (simp add: match_consts)
  have b: "strstart u + n \<le> 65535" using st fill_end_le(2) [OF ok(1)] co(1) by (simp add: match_consts)
  define x where "x = insert_knuth_spread (strstart u) n (max_lazy_match u) u"
  have ins: "inserts (strstart u + n) u x" unfolding x_def using n8 co(1) b by (intro spread_inserts) simp_all
  have "hash_below (strstart u) u" using ok(1,3) by (simp add: window_ok_def hash_inv_def hashed_def)
  then have "hash_below (strstart u + n) u" by (rule hash_below_mono) simp
  then have hx: "hash_below (strstart u + n) x" and ho: "hash_only u x" using ins by (simp_all add: inserts_def)
  note fx = hash_only_fields [OF ho] and fxc = same_coder_fields [OF hash_only_fields(1) [OF ho]]
  define y where "y = x\<lparr>strstart := strstart x + n, lookahead := lookahead x - n\<rparr>"
  have hy: "hash_below (strstart y) y" using hx fx by (simp add: y_def hash_below_def tables_ok_def)
  have fy: "strstart y = strstart u + n" "lookahead y = lookahead u - n" "level y = level u" "strategy y = strategy u" "w_size y = w_size u"
    "window_size y = window_size u" "window y = window u" "fill_end y = fill_end u" "to_insert y = to_insert u" "block_start y = block_start u"
    "sym_next y = sym_next u" "sym_end y = sym_end u" "next_in y = next_in u"
    using fx fxc by (simp_all add: y_def)
  have wy: "window_ok y" "holds D off y" by (rule moved_window [OF ok(1,2) nl fy(1-9) hy])+
  have oy: "same_output u y" using hash_only_output [OF ho] by (simp add: y_def same_output_def tree_state.truncate_def)
  have ty: "tallied_to pre H D q (off + strstart y - n) full y" using q(2) same_output_tallied [OF oy] fy(1) by simp
  have cy: "consumes [] u y" using fx fxc hash_only_fields(1) [OF ho] by (simp add: y_def consumes_def same_coder_def)
  obtain z f2 where z: "zng_tr_tally_dist (of_nat d) (of_nat (n - STD_MIN_MATCH)) y = (z, f2)" by fastforce
  have eq: "D ! (off + strstart y - n + i) = D ! (off + strstart y - n - d + i)" if "i < n" for i
    using co(2) [OF that] that nl fy(1) by simp
  have sn: "sym_next y \<le> sym_end y" using rm fy by simp
  have dm: "MAX_DIST y = MAX_DIST u" using fy by (simp add: MAX_DIST_def)
  have side: "n \<le> strstart y" "STD_MIN_MATCH \<le> n" "n \<le> lookahead y + n" "n \<le> STD_MAX_MATCH" "d \<le> strstart y - n" "d \<le> MAX_DIST y"
    using fy n8 co(1) d dm by (simp_all add: match_consts)
  note mt = match_tallied [OF ty sn holds_length [OF wy] max_dist_small [OF wy(1)] side(1-4) d(1) side(5,6) eq z]
  note fz = coder_only_fields [OF mt(1)]
  have pz: "off + strstart y - n + n = off + strstart z" using side(1) fz by simp
  have "consumes [] s z"
    using mid consumes_trans [OF consumes_trans [OF _ cy] coder_consumes [OF mt(1)], of "[]" s] by (simp add: mid_round_def)
  moreover have "left u < left s" "left z \<le> left u" using mid fz fy by (simp_all add: mid_round_def left_def)
  then have "left z < left s" by simp
  ultimately have mz: "mid_round pre H D off s (full \<or> f2) z"
    using wy coder_only_inv(1,2) [OF mt(1)] q(1) mt(2) mt(3) [unfolded pz] fy fz ok(3) b by (auto simp: mid_round_def hashed_def)
  obtain r where r: "flush_if (full \<or> f2) z = Some r" "stepped pre H D off s r" "coder_only z (state_of r)" by (rule flush_stepped [OF mz])
  note fr = coder_only_fields [OF r(3)]
  have e: "continue_step d (u, full) = Some (case r of Return s b \<Rightarrow> Return (s, False) b
      | _ \<Rightarrow> if lookahead (state_of r) < MIN_LOOKAHEAD then Stop (state_of r, False) else Next (state_of r, False))"
    using False r(1) z by (simp add: continue_step_def n_def [symmetric] x_def [symmetric] y_def [symmetric])
  have cr: "continuing pre H D off d s (state_of r, False)" if "is_Next r"
    using stepped_continuing [OF r(2) that d(1)] d(2) dm side(6) b fr fz fy coder_only_inv(4) [OF r(3)] coder_only_inv(4) [OF mt(1)] by simp
  have lr: "lookahead (state_of r) < lookahead u" using fr fz fy n8 nl by simp
  show ?thesis
  proof (cases r)
    case (Return w x)
    then have "x = need_more" using r(2) by (simp add: stepped_def)
    then show ?thesis using that [of "Return (w, False) need_more"] e r(2) Return by simp
  next
    case (Next w)
    then show ?thesis
      using that [of "if lookahead w < MIN_LOOKAHEAD then Stop (w, False) else Next (w, False)"] e cr lr by (auto split: if_splits)
  next
    case (Stop w)
    then show ?thesis using r(2) by (simp add: stepped_def)
  qed
qed

lemma continue_loop_ok:
  assumes "continuing pre H D off d s (u, full)" and "MIN_LOOKAHEAD \<le> lookahead u"
  shows "\<exists>r. strategy_loop (continue_step d) (u, full) = Some r
    \<and> ((\<exists>w. r = Return (w, False) need_more \<and> stepped pre H D off s (Return w need_more)) \<or> (\<exists>st. r = Stop st \<and> continuing pre H D off d s st))"
  using assms
proof (induction "lookahead u" arbitrary: u full rule: less_induct)
  case less
  obtain r where r: "continue_step d (u, full) = Some r"
    "is_Return r \<longrightarrow> (\<exists>w. r = Return (w, False) need_more \<and> stepped pre H D off s (Return w need_more))"
    "\<not> is_Return r \<longrightarrow> continuing pre H D off d s (state_of r)"
    "is_Next r \<longrightarrow> lookahead (fst (state_of r)) < lookahead u \<and> MIN_LOOKAHEAD \<le> lookahead (fst (state_of r))"
    by (rule continue_step_ok [OF less.prems])
  show ?case
  proof (cases r)
    case (Next st)
    obtain u' full' where st: "st = (u', full')" by (cases st)
    have "strategy_loop (continue_step d) (u, full) = strategy_loop (continue_step d) st" using r(1) Next by (subst strategy_loop.simps) simp
    then show ?thesis using less.hyps [of u' full'] r(3,4) Next st by simp
  next
    case (Stop st)
    obtain u' full' where st: "st = (u', full')" by (cases st)
    have "strategy_loop (continue_step d) (u, full) = Some (Stop st)" using r(1) Stop by (subst strategy_loop.simps) simp
    then show ?thesis using r(3) Stop st by simp
  next
    case (Return st b)
    then show ?thesis using r(1,2) by (subst strategy_loop.simps) auto
  qed
qed

lemma fast_match_ok:
  assumes inv: "fast_inv pre H D off s" and po: "pending_out s = 0" and st: "strstart s \<le> fill_end s" and f: "found WANT_MIN_MATCH len s t" and len: "WANT_MIN_MATCH \<le> len"
  obtains r where "fast_match len t = Some r" and "stepped pre H D off s r"
proof -
  define d where "d = strstart t - match_start t"
  obtain u full where tl: "zng_tr_tally_dist (of_nat d) (of_nat (len - STD_MIN_MATCH)) t = (u, full)" by fastforce
  define x where "x = insert_matched len (u\<lparr>lookahead := lookahead u - len\<rparr>)"
  define v where "v = x\<lparr>strstart := strstart x + len\<rparr>"
  note m = fast_match_mid [OF inv po st f len tl [unfolded d_def], folded d_def, folded x_def, folded v_def]
  have e: "fast_match len t = (if len = STD_MAX_MATCH \<and> lookahead v \<ge> MIN_LOOKAHEAD then continue_match d full v else flush_if full v)"
    by (simp only: fast_match_def Let_def d_def [symmetric] tl prod.case v_def x_def)
  show ?thesis
  proof (cases "len = STD_MAX_MATCH \<and> lookahead v \<ge> MIN_LOOKAHEAD")
    case False
    obtain r where "flush_if full v = Some r" "stepped pre H D off s r" "coder_only v (state_of r)" by (rule flush_stepped [OF m(1)])
    then show ?thesis using that e False by simp
  next
    case True
    have "continuing pre H D off d s (v, full)" using m by (simp add: continuing_def)
    then obtain r where r: "strategy_loop (continue_step d) (v, full) = Some r"
      "(\<exists>w. r = Return (w, False) need_more \<and> stepped pre H D off s (Return w need_more)) \<or> (\<exists>st. r = Stop st \<and> continuing pre H D off d s st)"
      using continue_loop_ok [OF \<open>continuing pre H D off d s (v, full)\<close>] True by blast
    from r(2) show ?thesis
    proof (elim disjE exE conjE)
      fix w assume w: "r = Return (w, False) need_more" "stepped pre H D off s (Return w need_more)"
      then show ?thesis using that e True r(1) by (simp add: continue_match_def)
    next
      fix st assume w: "r = Stop st" "continuing pre H D off d s st"
      obtain u' full' where st: "st = (u', full')" by (cases st)
      have "mid_round pre H D off s full' u'" using w st by (simp add: continuing_def)
      then obtain r' where "flush_if full' u' = Some r'" "stepped pre H D off s r'" "coder_only u' (state_of r')" by (rule flush_stepped)
      then show ?thesis using that e True r(1) w st by (simp add: continue_match_def)
    qed
  qed
qed

section \<open>deflate\_fast delivers a stream\<close>

lemma fast_step_ok:
  assumes inv: "fast_inv pre H D off s" and po: "pending_out s = 0"
  shows "\<exists>r c off'. fast_step flush s = Some r \<and> consumes c s (state_of r) \<and> fast_inv pre H (D @ c) off' (state_of r)
      \<and> (is_Next r \<longrightarrow> left (state_of r) < left s)
      \<and> (\<not> is_Return r \<longrightarrow> pending_out (state_of r) = 0)
      \<and> (is_Stop r \<longrightarrow> lookahead (state_of r) = 0 \<and> next_in (state_of r) = [] \<and> flush \<noteq> Z_NO_FLUSH)
      \<and> (is_Return r \<longrightarrow> result_of r = need_more \<and> (avail_out (state_of r) = 0 \<or> next_in (state_of r) = [] \<and> flush = Z_NO_FLUSH))"
proof -
  have so: "stream_ok pre H D off 0 s" using inv by (simp add: fast_inv_def stream_inv_def)
  obtain s1 c off1 where s1: "(if lookahead s < MIN_LOOKAHEAD then fill_window s else Some s) = Some s1" and rd: "reads D off c off1 s s1"
    and la: "lookahead s1 < MIN_LOOKAHEAD \<longrightarrow> next_in s1 = []" and so1: "stream_ok pre H (D @ c) off1 0 s1"
    and st: "strstart s1 + MIN_LOOKAHEAD \<le> fill_end s1 + MIN_LOOKAHEAD"
    by (rule refill [OF so le0 order_refl], rule that)
  have st1: "strstart s1 \<le> fill_end s1" using st by simp
  have ok1: "window_ok s1" "holds (D @ c) off1 s1" using so1 by (simp_all add: stream_ok_def)
  have sc: "same_coder s s1" using rd by (simp add: reads_def)
  have h1: "hashed s1" using inv same_coder_fields [OF sc] by (simp add: fast_inv_def hashed_def)
  have inv1: "fast_inv pre H (D @ c) off1 s1"
    using so1 h1 strstart_small(2) [OF ok1(1) st] by (simp add: fast_inv_def stream_inv_def match_consts)
  have c1: "consumes c s s1" by (rule reads_consumes [OF rd])
  have po1: "pending_out s1 = 0" using slid_start(4) [OF rd] po by simp
  have hb: "hash_below (strstart s1) s1" "level s1 \<noteq> 1" using ok1(1) h1 by (simp_all add: window_ok_def hash_inv_def hashed_def)
  consider (more) "lookahead s1 < MIN_LOOKAHEAD" "flush = Z_NO_FLUSH"
    | (stop) "lookahead s1 = 0" "flush \<noteq> Z_NO_FLUSH"
    | (go) "0 < lookahead s1" "\<not> (lookahead s1 < MIN_LOOKAHEAD \<and> flush = Z_NO_FLUSH)"
    by (cases "lookahead s1 = 0"; cases "flush = Z_NO_FLUSH") (auto simp: match_consts)
  then show ?thesis
  proof cases
    case more
    then have "fast_step flush s = Some (Return s1 need_more)" using s1 by (simp add: fast_step_def)
    then show ?thesis using c1 inv1 la more by auto
  next
    case stop
    then have "fast_step flush s = Some (Stop s1)" using s1 by (simp add: fast_step_def)
    then show ?thesis using c1 inv1 la po1 stop by (auto simp: match_consts)
  next
    case go
    obtain t len where t: "fast_search s1 = (t, len)" by fastforce
    note f = fast_search_ok [OF ok1(1) hb st1 t]
    have "\<exists>r. fast_step flush s = Some r \<and> stepped pre H (D @ c) off1 s1 r"
    proof (cases "WANT_MIN_MATCH \<le> len")
      case True
      obtain r where "fast_match len t = Some r" "stepped pre H (D @ c) off1 s1 r" by (rule fast_match_ok [OF inv1 po1 st1 f True])
      then show ?thesis using s1 go t True by (auto simp: fast_step_def)
    next
      case False
      obtain u full where tl: "zng_tr_tally_lit (window t ! strstart t) t = (u, full)" by fastforce
      obtain r where r: "flush_if full (u\<lparr>lookahead := lookahead u - 1, strstart := strstart u + 1\<rparr>) = Some r" "stepped pre H (D @ c) off1 s1 r"
        by (rule flush_stepped [OF fast_literal [OF inv1 po1 go(1) st1 f tl]])
      then show ?thesis using s1 go t tl False by (auto simp: fast_step_def)
    qed
    then obtain r where r: "fast_step flush s = Some r" "stepped pre H (D @ c) off1 s1 r" by blast
    have "consumes c s (state_of r)" using consumes_trans [OF c1, of "[]"] r(2) by (simp add: stepped_def)
    then show ?thesis using r slid_start(1) [OF rd] by (cases r) (auto simp: stepped_def)
  qed
qed

interpretation fast: compression "fast_step flush" fast_inv flush for flush
  by unfold_locales (rule fast_step_ok)

lemma deflate_fast_ok:
  assumes "fast_inv pre H D off s" and "pending_out s = 0"
  shows "\<exists>s' b c. deflate_fast flush s = Some (s', b) \<and> consumes c s s' \<and> call_ok (fast_inv pre H) pre H flush (D @ c) s' b"
proof -
  obtain r c off' where r: "strategy_loop (fast_step flush) s = Some r" "consumes c s (state_of r)" "fast_inv pre H (D @ c) off' (state_of r)"
      "\<not> is_Next r" "is_Stop r \<longrightarrow> pending_out (state_of r) = 0 \<and> lookahead (state_of r) = 0 \<and> next_in (state_of r) = [] \<and> flush \<noteq> Z_NO_FLUSH"
      "is_Return r \<longrightarrow> result_of r = need_more \<and> (avail_out (state_of r) = 0 \<or> next_in (state_of r) = [] \<and> flush = Z_NO_FLUSH)"
    using fast.loop_ok [OF assms] by blast
  show ?thesis
  proof (cases r)
    case (Stop t)
    let ?t = "t\<lparr>to_insert := (if strstart t < STD_MIN_MATCH - 1 then strstart t else STD_MIN_MATCH - 1)\<rparr>"
    have e: "lookahead ?t = 0" "next_in ?t = []" "flush \<noteq> Z_NO_FLUSH" and po: "pending_out ?t = 0" using r(5) Stop by simp_all
    have "stream_ok pre H (D @ c) off' 0 t" and h: "hashed t" using r(3) Stop by (simp_all add: fast_inv_def stream_inv_def)
    then have so: "stream_ok pre H (D @ c) off' 0 ?t" by (intro reset_insert) auto
    have bs: "block_small ?t" using r(3) Stop by (simp add: fast_inv_def stream_inv_def block_small_def)
    have inv: "fast_inv pre H (D @ c) off' s'"
      if "stream_ok pre H (D @ c) off' 0 s'" "tallied s' = []" "block_start s' = int (strstart s')" "coder_only ?t s'" for s'
      using that h coder_only_fields(1,2) [OF that(4)] by (simp add: fast_inv_def stream_inv_def hashed_def block_small_def)
    obtain s' b where s': "end_stream flush ?t = Some (s', b)" "consumes [] ?t s'" "call_ok (fast_inv pre H) pre H flush (D @ c) s' b"
      using end_call_ok [OF so po bs e, where keeps = "fast_inv pre H"] inv by blast
    have "consumes c s ?t" using r(2) Stop by (simp add: consumes_def)
    then show ?thesis using s' r(1) Stop consumes_trans [of c s ?t "[]" s'] by (auto simp: deflate_fast_def)
  next
    case (Return t b)
    then show ?thesis using r by (auto simp: deflate_fast_def call_ok_def)
  qed (use r in simp)
qed

end
