(* ===== verification/Deflate_Slow.thy ===== *)
theory Deflate_Slow
  imports Deflate_Fast
begin

text \<open>
  deflate_slow: lazy evaluation. A match is adopted only if there is none longer at the next position, so that one byte and possibly a match are pending
  between two rounds.
\<close>

section \<open>The program\<close>

definition Z_FILTERED :: int where "Z_FILTERED = 1"

definition slow_variant :: "'a deflate_state_scheme \<Rightarrow> variant" where
  "slow_variant s = (if level s \<ge> MIN_ROLL_LEVEL then Slow_Roll else Slow_Knuth)"

definition match_discard :: "'a deflate_state_scheme \<Rightarrow> nat" where
  "match_discard s = (if strategy s = Z_FILTERED then 5 else 0)"

text \<open>The subtraction wraps around, so that there is no limit when good_match is zero.\<close>

definition match_floor :: "'a deflate_state_scheme \<Rightarrow> nat" where
  "match_floor s = (if good_match s = 0 then match_discard s else min (match_discard s) (good_match s - 1))"

definition slow_insert :: "'a deflate_state_scheme \<Rightarrow> 'a deflate_state_scheme \<times> nat" where
  "slow_insert s =
    (if lookahead s \<ge> WANT_MIN_MATCH
     then if level s \<ge> MIN_ROLL_LEVEL then insert_roll (strstart s) s else insert_knuth (strstart s) s
     else (s, 0))"

definition slow_search :: "'a deflate_state_scheme \<Rightarrow> 'a deflate_state_scheme \<times> nat" where
  "slow_search s =
    (let (s, hash_head) = slow_insert s; s = s\<lparr>prev_match := match_start s\<rparr>; len0 = prev_length s;
         dist = int (strstart s) - int hash_head
     in if dist \<le> int (MAX_DIST s) \<and> dist > 0 \<and> len0 < max_lazy_match s \<and> hash_head \<noteq> 0
        then let (s, match_len) = longest_match (slow_variant s) hash_head (s\<lparr>prev_length := max len0 (match_floor s)\<rparr>);
                 s = s\<lparr>prev_length := len0\<rparr>
          in (s, if match_len \<le> match_discard s then STD_MIN_MATCH - 1 else match_len)
        else (s, STD_MIN_MATCH - 1))"

text \<open>The strings inside the match, of which a long repetition inserts the tail only.\<close>

definition insert_lazy :: "nat \<Rightarrow> nat \<Rightarrow> nat \<Rightarrow> 'a deflate_state_scheme \<Rightarrow> 'a deflate_state_scheme" where
  "insert_lazy max_insert mov_fwd match_dist s =
    (if max_insert > strstart s
     then let insert_cnt = min mov_fwd (max_insert - strstart s); tail_cnt = max (match_dist + 2) 64
       in if tail_cnt \<ge> insert_cnt then insert_batch (strstart s + 1) insert_cnt s
          else if level s \<ge> MIN_ROLL_LEVEL then insert_roll_batch_tail (strstart s + 1) insert_cnt tail_cnt s
          else insert_knuth_batch_tail (strstart s + 1) insert_cnt tail_cnt s
     else s)"

definition slow_match :: "'a deflate_state_scheme \<Rightarrow> 'a deflate_state_scheme outcome option" where
  "slow_match s =
    (let max_insert = strstart s + lookahead s - STD_MIN_MATCH; match_dist = strstart s - 1 - prev_match s;
         (s, bflush) = zng_tr_tally_dist (of_nat match_dist) (of_nat (prev_length s - STD_MIN_MATCH)) s;
         s = s\<lparr>prev_length := prev_length s - 1\<rparr>; s = s\<lparr>lookahead := lookahead s - prev_length s\<rparr>;
         mov_fwd = prev_length s - 1;
         s = insert_lazy max_insert mov_fwd match_dist s
     in flush_if bflush (s\<lparr>prev_length := 0, match_available := False, strstart := strstart s + (mov_fwd + 1)\<rparr>))"

definition slow_literal :: "nat \<Rightarrow> 'a deflate_state_scheme \<Rightarrow> 'a deflate_state_scheme outcome option" where
  "slow_literal match_len s =
    (let (s, bflush) = zng_tr_tally_lit (window s ! (strstart s - 1)) s
     in map_option (\<lambda>s. let s = s\<lparr>prev_length := match_len, strstart := strstart s + 1, lookahead := lookahead s - 1\<rparr>
          in if avail_out s = 0 then Return s need_more else Next s)
        (if bflush then FLUSH_BLOCK_ONLY False s else Some s))"

definition slow_step :: "int \<Rightarrow> 'a deflate_state_scheme \<Rightarrow> 'a deflate_state_scheme outcome option" where
  "slow_step flush s =
    Option.bind (if lookahead s < MIN_LOOKAHEAD then fill_window s else Some s) (\<lambda>s.
      if lookahead s < MIN_LOOKAHEAD \<and> flush = Z_NO_FLUSH then Some (Return s need_more)
      else if lookahead s = 0 then Some (Stop s)
      else let (s, match_len) = slow_search s in
        if prev_length s \<ge> STD_MIN_MATCH \<and> match_len \<le> prev_length s then slow_match s
        else if match_available s then slow_literal match_len s
        else Some (Next (s\<lparr>prev_length := match_len, match_available := True, strstart := strstart s + 1, lookahead := lookahead s - 1\<rparr>)))"

definition slow_end :: "'a deflate_state_scheme \<Rightarrow> 'a deflate_state_scheme" where
  "slow_end s =
    (let s = (if match_available s then (fst (zng_tr_tally_lit (window s ! (strstart s - 1)) s))\<lparr>match_available := False\<rparr> else s)
     in s\<lparr>to_insert := (if strstart s < STD_MIN_MATCH - 1 then strstart s else STD_MIN_MATCH - 1)\<rparr>)"

definition deflate_slow :: "int \<Rightarrow> 'a deflate_state_scheme \<Rightarrow> ('a deflate_state_scheme \<times> block_state) option" where
  "deflate_slow flush s =
    Option.bind (strategy_loop (slow_step flush) s) (\<lambda>r. case r of
      Return s b \<Rightarrow> Some (s, b)
    | Stop s \<Rightarrow> end_stream flush (slow_end s)
    | Next s \<Rightarrow> None)"

section \<open>Insertion\<close>

lemma memset_prev_below:
  assumes "hash_below n s" and "lo + cnt \<le> w_size s"
  shows "hash_below n (memset_prev lo cnt s)"
proof -
  have "set (take lo (prev s) @ replicate cnt 0 @ drop (lo + cnt) (prev s)) \<subseteq> insert 0 (set (prev s))"
    using set_take_subset [of lo "prev s"] set_drop_subset [of "lo + cnt" "prev s"] by auto
  then have "below n (take lo (prev s) @ replicate cnt 0 @ drop (lo + cnt) (prev s))" if "below n (prev s)"
    using that by (auto simp: below_def)
  then show ?thesis using assms by (auto simp: hash_below_def tables_ok_def memset_prev_def)
qed

lemma skip_inserts:
  assumes "cnt \<le> 256"
  shows "inserts n s (insert_skip str cnt s)"
proof -
  have "hash_only s (insert_skip str cnt s)" by (simp add: insert_skip_def Let_def memset_prev_def hash_only_def)
  moreover have "hash_below n (insert_skip str cnt s)" if hb: "hash_below n s"
  proof -
    let ?i = "str AND W_MASK s"
    have t: "tables_ok s" using hb by (simp add: hash_below_def)
    then obtain k where "8 \<le> k" "w_size s = 2 ^ k" by (auto simp: tables_ok_def)
    then have w: "256 \<le> w_size s" using power_increasing [of 8 k "2 :: nat"] by simp
    have i: "?i < w_size s" using W_MASK_less [OF t] t by (simp add: tables_ok_def)
    have "hash_below n (memset_prev ?i (min cnt (w_size s - ?i)) s)" using i by (intro memset_prev_below [OF hb]) simp
    moreover have "0 + (cnt - min cnt (w_size s - ?i)) \<le> w_size (memset_prev ?i (min cnt (w_size s - ?i)) s)"
      using assms w by (simp add: memset_prev_def)
    ultimately show ?thesis unfolding insert_skip_def Let_def by (rule memset_prev_below)
  qed
  ultimately show ?thesis by (simp add: inserts_def)
qed

lemma tail_inserts:
  assumes "str + cnt \<le> n" and "cnt \<le> 256" and "tail \<le> cnt"
  shows "inserts n s (insert_knuth_batch_tail str cnt tail s)" and "inserts n s (insert_roll_batch_tail str cnt tail s)"
proof -
  let ?u = "insert_skip str (cnt - tail) s"
  have u: "inserts n s ?u" using assms by (intro skip_inserts) simp
  have b: "inserts n t (insert_knuth_batch (str + (cnt - tail)) tail t)" "inserts n t (insert_roll_batch (str + (cnt - tail)) tail t)"
    for t :: "'a deflate_state_scheme"
    unfolding insert_roll_batch_def insert_knuth_batch_def using assms by (auto intro!: inserts_fold insert_inserts)
  show "inserts n s (insert_knuth_batch_tail str cnt tail s)"
    unfolding insert_knuth_batch_tail_def Let_def by (rule inserts_trans [OF u b(1)])
  have "inserts n t (t\<lparr>ins_h := h\<rparr>)" for t :: "'a deflate_state_scheme" and h
    using seed_below(1) [of n t] seed_below(2) [of t] by (simp add: inserts_def)
  from inserts_trans [OF inserts_trans [OF u this] b(2)]
  show "inserts n s (insert_roll_batch_tail str cnt tail s)" unfolding insert_roll_batch_tail_def Let_def .
qed

lemma lazy_inserts:
  assumes "mov_fwd \<le> 256"
  shows "inserts (strstart s + (mov_fwd + 1)) s (insert_lazy max_insert mov_fwd d s)"
proof (cases "max_insert > strstart s")
  case False
  then show ?thesis by (simp add: insert_lazy_def inserts_refl)
next
  case True
  define cnt where "cnt = min mov_fwd (max_insert - strstart s)"
  define tail where "tail = max (d + 2) 64"
  have c: "strstart s + 1 + cnt \<le> strstart s + (mov_fwd + 1)" "cnt \<le> 256" using assms by (simp_all add: cnt_def)
  have e: "insert_lazy max_insert mov_fwd d s = (if tail \<ge> cnt then insert_batch (strstart s + 1) cnt s
          else if level s \<ge> MIN_ROLL_LEVEL then insert_roll_batch_tail (strstart s + 1) cnt tail s
          else insert_knuth_batch_tail (strstart s + 1) cnt tail s)"
    using True by (simp add: insert_lazy_def Let_def cnt_def tail_def)
  show ?thesis
  proof (cases "tail \<ge> cnt")
    case True
    then show ?thesis unfolding e using batch_inserts [OF c(1)] by simp
  next
    case False
    then show ?thesis unfolding e using tail_inserts [OF c, of tail s] by simp
  qed
qed

section \<open>The search\<close>

lemma slow_insert_ok:
  assumes ok: "window_ok s" and hb: "hash_below (strstart s) s" "level s \<noteq> 1" and room: "strstart s \<le> fill_end s"
    and r: "slow_insert s = (t, hh)"
  shows "hash_only s t" and "hash_below (strstart s + 1) t" and "hh \<noteq> 0 \<Longrightarrow> search_ok t"
proof -
  have "hash_only s t \<and> hash_below (strstart s + 1) t \<and> (hh \<noteq> 0 \<longrightarrow> search_ok t)"
  proof (cases "lookahead s \<ge> WANT_MIN_MATCH")
    case False
    then have "t = s" "hh = 0" using r by (simp_all add: slow_insert_def)
    then show ?thesis using hash_below_mono [OF hb(1)] hash_only_refl by simp
  next
    case T: True
    show ?thesis
    proof (cases "level s \<ge> MIN_ROLL_LEVEL")
      case True
      define h where "h = update_hash_roll (ins_h s) (ucast (window s ! (strstart s + (STD_MIN_MATCH - 1))))"
      let ?u = "s\<lparr>ins_h := h\<rparr>"
      have u: "window_ok ?u" "hash_below (strstart ?u) ?u" "level ?u \<noteq> 1" "strstart ?u \<le> fill_end ?u"
        using ok hb room hash_inv_fields [of ?u s] by (simp_all add: window_ok_def hash_below_def tables_ok_def)
      have p: "hash_push (unat h) (strstart ?u) ?u = (t, hh)" using r T True by (simp add: slow_insert_def insert_roll_def h_def Let_def)
      have "unat h < HASH_SIZE" by (simp add: h_def hash_index)
      note ps = pushed_search [OF u p this]
      have "hash_only s t" using hash_only_trans [OF _ ps(1)] seed_below(2) by blast
      then show ?thesis using ps(2,3) by simp
    next
      case False
      define h where "h = UPDATE_HASH_KNUTH (zng_memread_4 (drop (strstart s) (window s)))"
      have p: "hash_push h (strstart s) s = (t, hh)" using r T False by (simp add: slow_insert_def insert_knuth_def h_def)
      have "h < HASH_SIZE" by (simp add: h_def hash_index)
      from pushed_search [OF ok hb room p this] show ?thesis by simp
    qed
  qed
  then show "hash_only s t" "hash_below (strstart s + 1) t" "hh \<noteq> 0 \<Longrightarrow> search_ok t" by simp_all
qed

text \<open>A lazy search also records the previous match.\<close>

definition lazy_only :: "'a deflate_state_scheme \<Rightarrow> 'a deflate_state_scheme \<Rightarrow> bool" where
  "lazy_only s s' \<longleftrightarrow> s' = s\<lparr>prev := prev s', head := head s', ins_h := ins_h s', match_start := match_start s', prev_match := match_start s\<rparr>"

lemma lazy_only_fields:
  assumes "lazy_only s s'"
  shows "same_output s s'" "consumes [] s s'" "strstart s' = strstart s" "lookahead s' = lookahead s" "window s' = window s" "fill_end s' = fill_end s"
    "block_start s' = block_start s" "next_in s' = next_in s" "prev_length s' = prev_length s" "to_insert s' = to_insert s"
    "window_size s' = window_size s" "match_available s' = match_available s" "prev_match s' = match_start s" "MAX_DIST s' = MAX_DIST s"
    "level s' = level s" "strategy s' = strategy s" "w_size s' = w_size s" "sym_next s' = sym_next s" "sym_end s' = sym_end s" "avail_out s' = avail_out s"
    "hashed s' = hashed s" "pending_out s' = pending_out s"
proof -
  obtain a b c d where s': "s' = s\<lparr>prev := a, head := b, ins_h := c, match_start := d, prev_match := match_start s\<rparr>"
    using assms unfolding lazy_only_def by blast
  show "same_output s s'" "consumes [] s s'" "strstart s' = strstart s" "lookahead s' = lookahead s" "window s' = window s" "fill_end s' = fill_end s"
    "block_start s' = block_start s" "next_in s' = next_in s" "prev_length s' = prev_length s" "to_insert s' = to_insert s"
    "window_size s' = window_size s" "match_available s' = match_available s" "prev_match s' = match_start s" "MAX_DIST s' = MAX_DIST s"
    "level s' = level s" "strategy s' = strategy s" "w_size s' = w_size s" "sym_next s' = sym_next s" "sym_end s' = sym_end s" "avail_out s' = avail_out s"
    "hashed s' = hashed s" "pending_out s' = pending_out s"
    unfolding s' by (simp_all add: same_output_def consumes_def tree_state.truncate_def MAX_DIST_def hashed_def)
qed

lemma slow_search_ok:
  assumes ok: "window_ok s" and hb: "hash_below (strstart s) s" "level s \<noteq> 1" and room: "strstart s \<le> fill_end s"
    and r: "slow_search s = (t, len)"
  shows "lazy_only s t" and "hash_below (strstart s + 1) t"
    and "STD_MIN_MATCH \<le> len \<Longrightarrow> \<not> (STD_MIN_MATCH \<le> prev_length s \<and> len \<le> prev_length s) \<Longrightarrow> valid_match t (match_start t) len"
proof -
  obtain u hh where u: "slow_insert s = (u, hh)" by fastforce
  note si = slow_insert_ok [OF ok hb room u]
  obtain a b c where ue: "u = s\<lparr>prev := a, head := b, ins_h := c\<rparr>" using si(1) unfolding hash_only_def by blast
  define v where "v = u\<lparr>prev_match := match_start s\<rparr>"
  have lv: "lazy_only s v" unfolding lazy_only_def v_def ue by simp
  have hv: "hash_below (strstart s + 1) v" using si(2) by (simp add: v_def hash_below_def tables_ok_def)
  let ?go = "int (strstart v) - int hh \<le> int (MAX_DIST v) \<and> int (strstart v) - int hh > 0 \<and> prev_length v < max_lazy_match v \<and> hh \<noteq> 0"
  define w where "w = v\<lparr>prev_length := max (prev_length v) (match_floor v)\<rparr>"
  have ms: "match_start u = match_start s" by (simp add: ue)
  have e: "slow_search s = (if ?go then let (s, match_len) = longest_match (slow_variant v) hh w; s = s\<lparr>prev_length := prev_length v\<rparr>
          in (s, if match_len \<le> match_discard s then STD_MIN_MATCH - 1 else match_len) else (v, STD_MIN_MATCH - 1))"
    unfolding slow_search_def u Let_def prod.case ms v_def [symmetric] w_def by simp
  have "lazy_only s t \<and> hash_below (strstart s + 1) t \<and>
    (STD_MIN_MATCH \<le> len \<longrightarrow> \<not> (STD_MIN_MATCH \<le> prev_length s \<and> len \<le> prev_length s) \<longrightarrow> valid_match t (match_start t) len)"
  proof (cases ?go)
    case False
    then have "t = v" "len = STD_MIN_MATCH - 1" using r e by auto
    then show ?thesis using lv hv by (simp add: match_consts)
  next
    case True
    have so: "search_ok w" using si(3) True by (simp add: search_ok_def w_def v_def tables_ok_def)
    have m: "lm_limit w \<le> hh" "hh < strstart w" using near_enough [of w hh] True by (auto simp: w_def MAX_DIST_def)
    obtain x ml where x: "longest_match (slow_variant v) hh w = (x, ml)" by fastforce
    note lm = longest_match_ok [OF so m x]
    obtain k where xe: "x = w\<lparr>match_start := k\<rparr>" using lm(1) by blast
    have t: "t = x\<lparr>prev_length := prev_length v\<rparr>" and len: "len = (if ml \<le> match_discard t then STD_MIN_MATCH - 1 else ml)"
      using r x True unfolding e by (auto simp: Let_def)
    have te: "t = v\<lparr>match_start := k\<rparr>" unfolding t xe w_def by simp
    have lt: "lazy_only s t" unfolding lazy_only_def te v_def ue by simp
    have "hash_below (strstart s + 1) t" using hv by (simp add: te hash_below_def tables_ok_def)
    moreover have "valid_match t (match_start t) len" if l: "STD_MIN_MATCH \<le> len" "\<not> (STD_MIN_MATCH \<le> prev_length s \<and> len \<le> prev_length s)"
    proof -
      have ml: "len = ml" "match_discard t < ml" "STD_MIN_MATCH \<le> ml" using len l(1) by (auto simp: match_consts split: if_splits)
      have pl: "prev_length v = prev_length s" "prev_length w = max (prev_length s) (match_floor v)" by (simp_all add: w_def v_def ue)
      have fl: "match_floor v \<le> match_discard v" by (simp add: match_floor_def)
      have dd: "match_discard t = match_discard v" by (simp add: te match_discard_def)
      have "start_length (slow_variant v) w < ml" using ml l pl fl dd by (auto simp: start_length_def match_consts max_def split: if_splits)
      then have "valid_match w k ml" using lm(2) xe by simp
      then show ?thesis using ml(1) by (simp add: te w_def valid_match_def MAX_DIST_def)
    qed
    ultimately show ?thesis using lt by simp
  qed
  then show "lazy_only s t" "hash_below (strstart s + 1) t"
    "STD_MIN_MATCH \<le> len \<Longrightarrow> \<not> (STD_MIN_MATCH \<le> prev_length s \<and> len \<le> prev_length s) \<Longrightarrow> valid_match t (match_start t) len"
    by blast+
qed

section \<open>The invariant\<close>

abbreviation undecided :: "'a deflate_state_scheme \<Rightarrow> nat" where
  "undecided s \<equiv> (if match_available s then 1 else 0)"

definition slow_inv :: "bool list \<Rightarrow> bytes \<Rightarrow> bytes \<Rightarrow> nat \<Rightarrow> 'a deflate_state_scheme \<Rightarrow> bool" where
  "slow_inv pre H D off s \<longleftrightarrow> stream_ok pre H D off (undecided s) s \<and> block_small s \<and> hashed s \<and> pending_match D (off + strstart s) s
     \<and> (STD_MIN_MATCH \<le> prev_length s \<longrightarrow> match_available s)"

definition slow_stepped :: "bool list \<Rightarrow> bytes \<Rightarrow> bytes \<Rightarrow> nat \<Rightarrow> 'a deflate_state_scheme \<Rightarrow> 'a deflate_state_scheme outcome \<Rightarrow> bool" where
  "slow_stepped pre H D off s r \<longleftrightarrow> consumes [] s (state_of r) \<and> slow_inv pre H D off (state_of r) \<and> \<not> is_Stop r \<and> left (state_of r) < left s
     \<and> (is_Return r \<longrightarrow> result_of r = need_more \<and> avail_out (state_of r) = 0) \<and> (is_Next r \<longrightarrow> pending_out (state_of r) = 0)"

lemma stepped_slow:
  assumes r: "stepped pre H D off s r" and f: "\<not> match_available (state_of r)" "prev_length (state_of r) = 0"
  shows "slow_stepped pre H D off s r"
  using r f by (simp add: stepped_def slow_stepped_def fast_inv_def slow_inv_def stream_inv_def pending_match_def match_consts)

text \<open>A round that has searched, from a state with enough lookahead or at the end of the input.\<close>

definition round_start :: "bool list \<Rightarrow> bytes \<Rightarrow> bytes \<Rightarrow> nat \<Rightarrow> nat \<Rightarrow> 'a deflate_state_scheme \<Rightarrow> 'a deflate_state_scheme \<Rightarrow> bool" where
  "round_start pre H D off len s t \<longleftrightarrow> slow_inv pre H D off s \<and> pending_out s = 0 \<and> strstart s \<le> fill_end s \<and> 0 < lookahead s \<and> lazy_only s t
     \<and> hash_below (strstart s + 1) t
     \<and> (STD_MIN_MATCH \<le> len \<longrightarrow> \<not> (STD_MIN_MATCH \<le> prev_length s \<and> len \<le> prev_length s) \<longrightarrow> valid_match t (match_start t) len)"

section \<open>The previous match\<close>

lemma slow_match_ok:
  assumes rs: "round_start pre H D off len s t" and pl: "STD_MIN_MATCH \<le> prev_length t"
  obtains r where "slow_match t = Some r" and "slow_stepped pre H D off s r"
proof -
  have inv: "slow_inv pre H D off s" and st: "strstart s \<le> fill_end s" and lo: "lazy_only s t" and hb: "hash_below (strstart s + 1) t"
    using rs by (simp_all add: round_start_def)
  note ft = lazy_only_fields [OF lo]
  define n where "n = prev_length s"
  have n3: "STD_MIN_MATCH \<le> n" using pl ft by (simp add: n_def)
  have ma: "match_available s" using inv n3 by (simp add: slow_inv_def n_def)
  have ok: "window_ok s" "holds D off s" "hashed s" "1 \<le> strstart s" using inv ma by (simp_all add: slow_inv_def stream_ok_def)
  obtain q where q: "int q = int off + block_start s" "coded pre H D q (off + strstart s - 1) s"
    using inv ma by (auto simp: slow_inv_def stream_ok_def)
  have pm: "match_start s + 1 < strstart s" "strstart s \<le> match_start s + 1 + MAX_DIST s" "n \<le> lookahead s + 1" "n \<le> STD_MAX_MATCH"
    using inv n3 by (simp_all add: slow_inv_def pending_match_def n_def)
  have "pending_match D (off + strstart s) s" using inv by (simp only: slow_inv_def)
  then have pe: "\<forall>i<n. D ! (off + strstart s - 1 + i) = D ! (off + strstart s - strstart s + match_start s + i)"
    using n3 unfolding pending_match_def n_def by blast
  define d where "d = strstart s - 1 - match_start s"
  have d: "1 \<le> d" "d \<le> strstart t - 1" "d \<le> MAX_DIST t" using pm(1,2) ft by (simp_all add: d_def)
  obtain u full where tl: "zng_tr_tally_dist (of_nat d) (of_nat (n - STD_MIN_MATCH)) t = (u, full)" by fastforce
  have "coded pre H D q (off + strstart t - 1) t" using q(2) same_output_coded(1) [OF ft(1)] ft(3) by simp
  moreover have "pending_out t = 0" using rs ft by (simp add: round_start_def)
  ultimately have ct: "tallied_to pre H D q (off + strstart t - 1) False t" by (rule coded_tallied_to)
  have data: "length D = off + strstart t + lookahead t" using holds_length [OF ok(1,2)] ft by simp
  have maxd: "MAX_DIST t \<le> 32768" using max_dist_small [OF ok(1)] ft by simp
  have side: "1 \<le> strstart t" "n \<le> lookahead t + 1" using ok(4) pm(3) ft by simp_all
  have eq: "D ! (off + strstart t - 1 + i) = D ! (off + strstart t - 1 - d + i)" if "i < n" for i
  proof -
    have "off + strstart t - 1 - d = off + match_start s" using pm(1) ft by (simp add: d_def)
    then show ?thesis using pe that ft by simp
  qed
  note mt = match_tallied [OF ct tallied_to_room(1) [OF ct] data maxd side(1) n3 side(2) pm(4) d(1-3) eq tl]
  note fu = coder_only_fields [OF mt(1)]
  define k where "k = n - 2"
  define w where "w = (u\<lparr>prev_length := n - 1\<rparr>)\<lparr>lookahead := lookahead u - (n - 1)\<rparr>"
  define x where "x = insert_lazy (strstart t + lookahead t - STD_MIN_MATCH) k d w"
  define v where "v = x\<lparr>prev_length := 0, match_available := False, strstart := strstart x + (k + 1)\<rparr>"
  have kn: "k + 1 = n - 1" "k \<le> 256" "n - 1 \<le> lookahead s" using n3 pm(3,4) by (simp_all add: k_def match_consts)
  have e: "slow_match t = flush_if full v"
  proof -
    have "strstart t - 1 - prev_match t = d" and pt: "prev_length t = n" and pu: "prev_length u = n" using ft fu by (simp_all add: d_def n_def)
    then show ?thesis unfolding slow_match_def Let_def v_def x_def w_def k_def by (simp add: pt tl pu numeral_2_eq_2)
  qed
  have fw: "strstart w = strstart s" by (simp add: w_def fu ft)
  have ins: "inserts (strstart s + (k + 1)) w x" using lazy_inserts [OF kn(2), of w] by (simp add: x_def fw)
  have "hash_below (strstart s + (k + 1)) w"
    using hash_below_mono [OF hb, of "strstart s + (k + 1)"] fu by (simp add: w_def hash_below_def tables_ok_def)
  then have hx: "hash_below (strstart s + (k + 1)) x" and ho: "hash_only w x" using ins by (simp_all add: inserts_def)
  note fx = hash_only_fields [OF ho] and fxc = same_coder_fields [OF hash_only_fields(1) [OF ho]]
  have hv: "hash_below (strstart v) v" using hx fx fw by (simp add: v_def hash_below_def tables_ok_def)
  have fv: "strstart v = strstart s + (n - 1)" "lookahead v = lookahead s - (n - 1)" "level v = level s" "strategy v = strategy s" "w_size v = w_size s"
    "window_size v = window_size s" "window v = window s" "fill_end v = fill_end s" "to_insert v = to_insert s" "block_start v = block_start s"
    "next_in v = next_in s"
    using kn(1) by (simp_all add: v_def w_def fx fxc fu ft mt(2))
  have wv: "window_ok v" "holds D off v" by (rule moved_window [OF ok(1,2) kn(3) fv(1-9) hv])+
  have ov: "same_output u v"
    using hash_only_output [OF ho] by (simp add: v_def w_def same_output_def tree_state.truncate_def)
  have pv: "off + strstart t - 1 + n = off + strstart v" using fv(1) ft n3 ok(4) by (simp add: match_consts)
  have tv: "tallied_to pre H D q (off + strstart v) full v" using mt(3) [unfolded pv] same_output_tallied [OF ov] by simp
  have b: "strstart v \<le> 65535" using st fill_end_le(2) [OF ok(1)] fv(1) pm(4) by (simp add: match_consts)
  have "consumes [] u v" using fx fxc hash_only_fields(1) [OF ho] by (simp add: v_def w_def consumes_def same_coder_def)
  then have "consumes [] s v" using consumes_trans [OF consumes_trans [OF ft(2) coder_consumes [OF mt(1)]]] by simp
  moreover have "left v < left s" using fv kn n3 by (simp add: left_def match_consts)
  moreover have "hashed v" using ok(3) fv by (simp add: hashed_def)
  ultimately have "mid_round pre H D off s full v" using wv tv b q(1) fv by (auto simp: mid_round_def)
  then obtain r where r: "flush_if full v = Some r" "stepped pre H D off s r" "coder_only v (state_of r)" by (rule flush_stepped)
  have "\<not> match_available (state_of r)" "prev_length (state_of r) = 0" using coder_only_fields [OF r(3)] by (simp_all add: v_def)
  then show ?thesis using that e r(1) stepped_slow [OF r(2)] by simp
qed

section \<open>One more undecided byte\<close>

text \<open>The state after a round that leaves the current byte undecided, with the match found at it.\<close>

lemma undecided_ok:
  assumes rs: "round_start pre H D off len s t" and no: "\<not> (STD_MIN_MATCH \<le> prev_length t \<and> len \<le> prev_length t)"
    and co: "coder_only t u" and q: "int q = int off + block_start u" "coded pre H D q (off + strstart s) u"
    and v: "v = u\<lparr>prev_length := len, match_available := True, strstart := strstart u + 1, lookahead := lookahead u - 1\<rparr>"
  shows "slow_inv pre H D off v" and "consumes [] s v" and "left v < left s"
proof -
  have inv: "slow_inv pre H D off s" and st: "strstart s \<le> fill_end s" and la: "0 < lookahead s" and lo: "lazy_only s t" and hb: "hash_below (strstart s + 1) t"
    using rs by (simp_all add: round_start_def)
  note ft = lazy_only_fields [OF lo] and fu = coder_only_fields [OF co]
  have ok: "window_ok s" "holds D off s" "hashed s" using inv by (simp_all add: slow_inv_def stream_ok_def)
  have vm: "valid_match t (match_start t) len" if "STD_MIN_MATCH \<le> len" using rs that no ft by (simp add: round_start_def)
  have hv: "hash_below (strstart v) v" using hb fu ft by (simp add: v hash_below_def tables_ok_def)
  have fv: "strstart v = strstart s + 1" "lookahead v = lookahead s - 1" "level v = level s" "strategy v = strategy s" "w_size v = w_size s"
    "window_size v = window_size s" "window v = window s" "fill_end v = fill_end s" "to_insert v = to_insert s" "block_start v = block_start u"
    "next_in v = next_in s" "match_start v = match_start t" "prev_length v = len" "MAX_DIST v = MAX_DIST s"
    using fu ft by (simp_all add: v MAX_DIST_def)
  have "1 \<le> lookahead s" using la by simp
  note wv = moved_window [OF ok(1,2) this fv(1-9) hv]
  have ov: "same_output u v" by (simp add: v same_output_def tree_state.truncate_def)
  have "stream_ok pre H D off 1 v"
    using wv q same_output_coded(1) [OF ov] fv by (auto simp: stream_ok_def)
  moreover have "strstart v \<le> 65535" using st fill_end_le(2) [OF ok(1)] fv(1) by (simp add: match_consts)
  moreover have "pending_match D (off + strstart v) v"
  proof (cases "STD_MIN_MATCH \<le> len")
    case True
    note m = vm [OF True]
    have l: "match_start t < strstart s" "strstart s \<le> match_start t + MAX_DIST s" "len \<le> lookahead s" "len \<le> STD_MAX_MATCH"
      using m ft by (simp_all add: valid_match_def)
    have "D ! (off + strstart s + i) = D ! (off + match_start t + i)" if i: "i < len" for i
    proof -
      have "window s ! (match_start t + i) = window s ! (strstart s + i)" using m i ft by (simp add: valid_match_def)
      moreover have "window s ! (match_start t + i) = D ! (off + (match_start t + i))" "window s ! (strstart s + i) = D ! (off + (strstart s + i))"
        using l i by (intro holds_nth [OF ok(1,2)]; simp)+
      ultimately show ?thesis by (simp add: add.assoc)
    qed
    then show ?thesis using l fv la by (auto simp: pending_match_def)
  next
    case False
    then show ?thesis using fv by (simp add: pending_match_def)
  qed
  moreover have "hashed v" using ok(3) fv by (simp add: hashed_def)
  ultimately show "slow_inv pre H D off v" by (auto simp: slow_inv_def block_small_def v)
  have "consumes [] u v" by (simp add: v consumes_def)
  then show "consumes [] s v" using consumes_trans [OF consumes_trans [OF ft(2) coder_consumes [OF co]]] by simp
  show "left v < left s" using fv la by (simp add: left_def)
qed

lemma slow_literal_ok:
  assumes rs: "round_start pre H D off len s t" and no: "\<not> (STD_MIN_MATCH \<le> prev_length t \<and> len \<le> prev_length t)" and ma: "match_available t"
  obtains r where "slow_literal len t = Some r" and "slow_stepped pre H D off s r"
proof -
  have inv: "slow_inv pre H D off s" and st: "strstart s \<le> fill_end s" and la: "0 < lookahead s" and lo: "lazy_only s t"
    using rs by (simp_all add: round_start_def)
  note ft = lazy_only_fields [OF lo]
  have ok: "window_ok s" "holds D off s" "1 \<le> strstart s" using inv ma ft by (simp_all add: slow_inv_def stream_ok_def)
  obtain q where q: "int q = int off + block_start s" "coded pre H D q (off + strstart s - 1) s"
    using inv ma ft by (auto simp: slow_inv_def stream_ok_def)
  have w: "window t ! (strstart t - 1) = D ! (off + strstart s - 1)" using holds_nth [OF ok(1,2), of "strstart s - 1"] ok(3) ft by simp
  obtain u full where tl: "zng_tr_tally_lit (D ! (off + strstart s - 1)) t = (u, full)" by fastforce
  have ct: "coded pre H D q (off + strstart s - 1) t" using q(2) same_output_coded(1) [OF ft(1)] by simp
  have p: "off + strstart s - 1 < length D" using holds_length [OF ok(1,2)] ok(3) la by simp
  have pt: "pending_out t = 0" using rs ft by (simp add: round_start_def)
  have tt: "tallied_to pre H D q (off + strstart s) full u" using tally_lit_coded [OF ct p pt] tl ok(3) by simp
  have co: "coder_only t u" "block_start u = block_start t" using tally_lit_frame(1,4) [where s = t and c = "D ! (off + strstart s - 1)"] tl by simp_all
  note fu = coder_only_fields [OF co(1)]
  have qu: "int q = int off + block_start u" using q(1) co(2) ft by simp
  obtain x q' where x: "(if full then FLUSH_BLOCK_ONLY False u else Some u) = Some x" "coder_only u x"
      "int q' = int off + block_start x" "coded pre H D q' (off + strstart s) x" "avail_out x \<noteq> 0 \<longrightarrow> pending_out x = 0"
  proof (cases full)
    case True
    have pu: "off + strstart u = off + strstart s" using fu ft by simp
    have hu: "holds D off u" using ok(2) fu ft by (simp add: holds_def)
    have lu: "strstart u + lookahead u \<le> length (window u)" using window_room [OF ok(1)] fu ft by simp
    have sm: "off + strstart s - q \<le> 65535 \<or> block_start u < 0"
      using st fill_end_le(2) [OF ok(1)] qu by (simp add: match_consts) linarith
    obtain x where x: "FLUSH_BLOCK_ONLY False u = Some x" "coder_only u x" "block_start x = int (strstart u)"
        "coded pre H D (off + strstart s) (off + strstart s) x"
      using flush_block_only [OF tt qu pu hu lu sm, of False] by blast
    then show ?thesis using that [of x "off + strstart s"] True pu coded_encoder [OF x(4) [unfolded pu [symmetric]]] by (simp add: encoder_ok_def)
  next
    case False
    then have "coded pre H D q (off + strstart s) u" using tt tallied_to_coded by simp
    then show ?thesis using that [of u q] False coder_only_refl [of u] qu tt by (simp add: tallied_to_def)
  qed
  have cx: "coder_only t x" using coder_only_trans co(1) x(2) by blast
  note fx = coder_only_fields [OF cx]
  define v where "v = x\<lparr>prev_length := len, strstart := strstart x + 1, lookahead := lookahead x - 1\<rparr>"
  have max: "match_available x" using fx ma by simp
  have v: "v = x\<lparr>prev_length := len, match_available := True, strstart := strstart x + 1, lookahead := lookahead x - 1\<rparr>"
    using max by (cases x) (simp add: v_def)
  note un = undecided_ok [OF rs no cx x(3,4) v]
  have e: "slow_literal len t = Some (if avail_out v = 0 then Return v need_more else Next v)"
    using tl w x(1) by (simp add: slow_literal_def Let_def v_def)
  show ?thesis
    using that e un x(5) by (cases "avail_out v = 0") (simp_all add: slow_stepped_def v_def)
qed

section \<open>deflate\_slow delivers a stream\<close>

lemma slow_step_ok:
  assumes inv: "slow_inv pre H D off s" and po: "pending_out s = 0"
  shows "\<exists>r c off'. slow_step flush s = Some r \<and> consumes c s (state_of r) \<and> slow_inv pre H (D @ c) off' (state_of r)
      \<and> (is_Next r \<longrightarrow> left (state_of r) < left s)
      \<and> (\<not> is_Return r \<longrightarrow> pending_out (state_of r) = 0)
      \<and> (is_Stop r \<longrightarrow> lookahead (state_of r) = 0 \<and> next_in (state_of r) = [] \<and> flush \<noteq> Z_NO_FLUSH)
      \<and> (is_Return r \<longrightarrow> result_of r = need_more \<and> (avail_out (state_of r) = 0 \<or> next_in (state_of r) = [] \<and> flush = Z_NO_FLUSH))"
proof -
  have so: "stream_ok pre H D off (undecided s) s" using inv by (simp add: slow_inv_def)
  have un: "undecided s \<le> 1" by simp
  obtain s1 c off1 where s1: "(if lookahead s < MIN_LOOKAHEAD then fill_window s else Some s) = Some s1" and rd: "reads D off c off1 s s1"
    and la: "lookahead s1 < MIN_LOOKAHEAD \<longrightarrow> next_in s1 = []" and so1: "stream_ok pre H (D @ c) off1 (undecided s) s1"
    and st: "strstart s1 + MIN_LOOKAHEAD \<le> fill_end s1 + MIN_LOOKAHEAD"
    by (rule refill [OF so un order_refl], rule that)
  have st1: "strstart s1 \<le> fill_end s1" using st by simp
  have ok1: "window_ok s1" "holds (D @ c) off1 s1" using so1 by (simp_all add: stream_ok_def)
  have sc: "same_coder s s1" and pm: "pending_match (D @ c) (off1 + strstart s1) s1" and pl: "prev_length s1 \<le> prev_length s"
    using rd inv unfolding reads_def slow_inv_def by blast+
  have h1: "hashed s1" using inv same_coder_fields [OF sc] by (simp add: slow_inv_def hashed_def)
  have ma: "match_available s1 = match_available s" using sc by (simp add: same_coder_def)
  have bs: "block_small s1" by (rule strstart_small(2) [OF ok1(1) st]) (simp add: match_consts)
  have "STD_MIN_MATCH \<le> prev_length s1 \<longrightarrow> match_available s1" using pl ma inv by (simp add: slow_inv_def)
  then have inv1: "slow_inv pre H (D @ c) off1 s1" using so1 h1 bs pm ma by (simp only: slow_inv_def simp_thms)
  have c1: "consumes c s s1" by (rule reads_consumes [OF rd])
  have po1: "pending_out s1 = 0" using slid_start(4) [OF rd] po by simp
  have hb: "hash_below (strstart s1) s1" "level s1 \<noteq> 1" using ok1(1) h1 by (simp_all add: window_ok_def hash_inv_def hashed_def)
  consider (more) "lookahead s1 < MIN_LOOKAHEAD" "flush = Z_NO_FLUSH"
    | (stop) "lookahead s1 = 0" "flush \<noteq> Z_NO_FLUSH"
    | (go) "0 < lookahead s1" "\<not> (lookahead s1 < MIN_LOOKAHEAD \<and> flush = Z_NO_FLUSH)"
    by (cases "lookahead s1 = 0"; cases "flush = Z_NO_FLUSH") (auto simp: match_consts)
  then show ?thesis
  proof cases
    case more
    then have "slow_step flush s = Some (Return s1 need_more)" using s1 by (simp add: slow_step_def)
    then show ?thesis using c1 inv1 la more by auto
  next
    case stop
    then have "slow_step flush s = Some (Stop s1)" using s1 by (simp add: slow_step_def)
    then show ?thesis using c1 inv1 la po1 stop by (auto simp: match_consts)
  next
    case go
    obtain t len where t: "slow_search s1 = (t, len)" by fastforce
    note ss = slow_search_ok [OF ok1(1) hb st1 t]
    have rs: "round_start pre H (D @ c) off1 len s1 t" using inv1 po1 st1 go(1) ss by (simp add: round_start_def)
    have "\<exists>r. slow_step flush s = Some r \<and> slow_stepped pre H (D @ c) off1 s1 r"
    proof (cases "STD_MIN_MATCH \<le> prev_length t \<and> len \<le> prev_length t")
      case True
      obtain r where "slow_match t = Some r" "slow_stepped pre H (D @ c) off1 s1 r" using slow_match_ok [OF rs] True by blast
      then show ?thesis using s1 go t True by (auto simp: slow_step_def)
    next
      case no: False
      show ?thesis
      proof (cases "match_available t")
        case True
        obtain r where "slow_literal len t = Some r" "slow_stepped pre H (D @ c) off1 s1 r" by (rule slow_literal_ok [OF rs no True])
        then show ?thesis using s1 go t True no by (auto simp: slow_step_def)
      next
        case False
        note ft = lazy_only_fields [OF ss(1)]
        obtain q where "int q = int off1 + block_start s1" "coded pre H (D @ c) q (off1 + strstart s1) s1"
          using inv1 False ft by (auto simp: slow_inv_def stream_ok_def)
        then have q: "int q = int off1 + block_start t" "coded pre H (D @ c) q (off1 + strstart s1) t"
          using same_output_coded(1) [OF ft(1)] ft(7) by simp_all
        let ?v = "t\<lparr>prev_length := len, match_available := True, strstart := strstart t + 1, lookahead := lookahead t - 1\<rparr>"
        have "slow_step flush s = Some (Next ?v)" using s1 go t False no by (auto simp: slow_step_def)
        moreover have "pending_out ?v = 0" using po1 ft by simp
        ultimately show ?thesis using undecided_ok [OF rs no coder_only_refl q refl] by (auto simp: slow_stepped_def)
      qed
    qed
    then obtain r where r: "slow_step flush s = Some r" "slow_stepped pre H (D @ c) off1 s1 r" by blast
    have "consumes c s (state_of r)" using consumes_trans [OF c1, of "[]"] r(2) by (simp add: slow_stepped_def)
    then show ?thesis using r slid_start(1) [OF rd] by (cases r) (auto simp: slow_stepped_def)
  qed
qed

interpretation slow: compression "slow_step flush" slow_inv flush for flush
  by unfold_locales (rule slow_step_ok)

section \<open>The end of a call\<close>

lemmas tally_lit_fields = coder_only_fields [OF tally_lit_frame(1)]

lemma slow_end_fields:
  "lookahead (slow_end s) = lookahead s" "next_in (slow_end s) = next_in s" "strstart (slow_end s) = strstart s" "block_start (slow_end s) = block_start s"
  "match_available (slow_end s) = False" "prev_length (slow_end s) = prev_length s" "level (slow_end s) = level s" "strategy (slow_end s) = strategy s"
  "match_available s \<Longrightarrow> sym_next (slow_end s) = sym_next s + 3" "consumes [] s (slow_end s)"
  by (simp_all add: slow_end_def Let_def consumes_def tally_lit_frame(4,6) tally_lit_fields)

lemma slow_end_ok:
  assumes inv: "slow_inv pre H D off s" and po: "pending_out s = 0" and e: "lookahead s = 0"
  obtains q full where "window_ok (slow_end s)" and "holds D off (slow_end s)" and "int q = int off + block_start s"
    and "tallied_to pre H D q (off + strstart s) full (slow_end s)" and "full \<longrightarrow> sym_next (slow_end s) \<noteq> 0"
proof -
  have so: "stream_ok pre H D off (undecided s) s" using inv by (simp add: slow_inv_def)
  then obtain q where q: "int q = int off + block_start s" "coded pre H D q (off + strstart s - undecided s) s" by (auto simp: stream_ok_def)
  have ok: "window_ok s" "holds D off s" "undecided s \<le> strstart s" using so by (simp_all add: stream_ok_def)
  define u where "u = (if match_available s then (fst (zng_tr_tally_lit (window s ! (strstart s - 1)) s))\<lparr>match_available := False\<rparr> else s)"
  define n where "n = (if strstart s < STD_MIN_MATCH - 1 then strstart s else STD_MIN_MATCH - 1)"
  have u: "slow_end s = u\<lparr>to_insert := n\<rparr>"
    by (simp add: slow_end_def Let_def u_def n_def tally_lit_fields(8))
  have out: "same_output u (slow_end s)" by (simp add: u same_output_def tree_state.truncate_def)
  have ti: "n \<le> strstart s" by (simp add: n_def)
  have wh: "window_ok (slow_end s) \<and> holds D off (slow_end s)"
  proof (cases "match_available s")
    case True
    let ?t = "fst (zng_tr_tally_lit (window s ! (strstart s - 1)) s)"
    note co = coder_only_inv(1,2) [OF tally_lit_frame(1) [where s = s and c = "window s ! (strstart s - 1)"]]
    have "window_ok ?t" "holds D off ?t" using co ok by simp_all
    moreover have "hash_inv (slow_end s) = hash_inv ?t" "tables_ok (slow_end s) = tables_ok ?t"
      by (rule hash_inv_fields; simp add: u u_def True)+
    ultimately show ?thesis using ti True by (simp add: u u_def window_ok_def holds_def tally_lit_fields)
  next
    case False
    then have "hash_inv (slow_end s) = hash_inv s" "tables_ok (slow_end s) = tables_ok s" by - (rule hash_inv_fields; simp add: u u_def)+
    then show ?thesis using ti ok False by (simp add: u u_def window_ok_def holds_def)
  qed
  show ?thesis
  proof (cases "match_available s")
    case True
    have w: "window s ! (strstart s - 1) = D ! (off + strstart s - 1)" using holds_nth [OF ok(1,2), of "strstart s - 1"] ok(3) True by simp
    have p: "off + strstart s - 1 < length D" using holds_length [OF ok(1,2)] ok(3) True by simp
    obtain t full where tl: "zng_tr_tally_lit (D ! (off + strstart s - 1)) s = (t, full)" by fastforce
    have "coded pre H D q (off + strstart s - 1) s" using q(2) True by simp
    from tally_lit_coded [OF this p po] have tt: "tallied_to pre H D q (off + strstart s) full t" using tl ok(3) True by simp
    have "u = t\<lparr>match_available := False\<rparr>" using True w tl by (simp add: u_def)
    then have "same_output t (slow_end s)" by (simp add: u same_output_def tree_state.truncate_def)
    then have "tallied_to pre H D q (off + strstart s) full (slow_end s)" using tt same_output_tallied by blast
    then show ?thesis using that wh q(1) slow_end_fields(9) [OF True] by simp
  next
    case False
    then have "coded pre H D q (off + strstart s) s" using q(2) by simp
    then have "tallied_to pre H D q (off + strstart s) False s" using po by (rule coded_tallied_to)
    moreover have "same_output s (slow_end s)" using out False by (simp add: u_def)
    ultimately have "tallied_to pre H D q (off + strstart s) False (slow_end s)" using same_output_tallied by blast
    then show ?thesis using that wh q(1) by simp
  qed
qed

lemma deflate_slow_ok:
  assumes "slow_inv pre H D off s" and "pending_out s = 0"
  shows "\<exists>s' b c. deflate_slow flush s = Some (s', b) \<and> consumes c s s' \<and> call_ok (slow_inv pre H) pre H flush (D @ c) s' b"
proof -
  obtain r c off' where r: "strategy_loop (slow_step flush) s = Some r" "consumes c s (state_of r)" "slow_inv pre H (D @ c) off' (state_of r)"
      "\<not> is_Next r" "is_Stop r \<longrightarrow> pending_out (state_of r) = 0 \<and> lookahead (state_of r) = 0 \<and> next_in (state_of r) = [] \<and> flush \<noteq> Z_NO_FLUSH"
      "is_Return r \<longrightarrow> result_of r = need_more \<and> (avail_out (state_of r) = 0 \<or> next_in (state_of r) = [] \<and> flush = Z_NO_FLUSH)"
    using slow.loop_ok [OF assms] by blast
  show ?thesis
  proof (cases r)
    case (Stop t)
    have e: "lookahead t = 0" "next_in t = []" "flush \<noteq> Z_NO_FLUSH" and inv: "slow_inv pre H (D @ c) off' t" and po: "pending_out t = 0" using r(3,5) Stop by simp_all
    note fe = slow_end_fields [of t]
    obtain q full where q: "window_ok (slow_end t)" "holds (D @ c) off' (slow_end t)" "int q = int off' + block_start t"
        "tallied_to pre H (D @ c) q (off' + strstart t) full (slow_end t)" "full \<longrightarrow> sym_next (slow_end t) \<noteq> 0"
      by (rule slow_end_ok [OF inv po e(1)])
    have short: "prev_length t < STD_MIN_MATCH" using inv e(1) by (auto simp: slow_inv_def pending_match_def match_consts)
    have bs: "block_small (slow_end t)" using inv fe by (simp add: slow_inv_def block_small_def)
    have keeps: "slow_inv pre H (D @ c) off' s'"
      if "stream_ok pre H (D @ c) off' 0 s'" "tallied s' = []" "block_start s' = int (strstart s')" "coder_only (slow_end t) s'" for s'
    proof -
      have "hashed s'" using coder_only_fields(1,2) [OF that(4)] fe inv by (simp add: slow_inv_def hashed_def)
      moreover have "\<not> match_available s'" "prev_length s' < STD_MIN_MATCH" using coder_only_fields [OF that(4)] fe short by simp_all
      ultimately show ?thesis using that(1,3) by (simp add: slow_inv_def block_small_def pending_match_def)
    qed
    have q3: "int q = int off' + block_start (slow_end t)" and q4: "tallied_to pre H (D @ c) q (off' + strstart (slow_end t)) full (slow_end t)"
      using q fe by simp_all
    have "lookahead (slow_end t) = 0" "next_in (slow_end t) = []" using e fe by simp_all
    from end_call_tallied [OF q(1,2) q3 q4 q(5) bs this e(3), where keeps = "slow_inv pre H"] keeps
    obtain s' b where s': "end_stream flush (slow_end t) = Some (s', b)" "consumes [] (slow_end t) s'" "call_ok (slow_inv pre H) pre H flush (D @ c) s' b"
      by blast
    have "consumes c s s'" using consumes_trans [OF consumes_trans [OF r(2)]] Stop fe(10) s'(2) by fastforce
    then show ?thesis using s' r(1) Stop by (auto simp: deflate_slow_def)
  next
    case (Return t b)
    then show ?thesis using r by (auto simp: deflate_slow_def call_ok_def)
  qed (use r in simp)
qed

end
