(* ===== verification/Deflate_Init.thy ===== *)
theory Deflate_Init
  imports Deflate_Slow
begin

text \<open>
  Creation and reset of a compressor (deflate.c): deflateInit2 with its checks and buffers, deflateReset, lm_init and the level table, and the small accessors. The lemmas
  show that a fresh compressor satisfies the invariant of every compression function.
\<close>

section \<open>Return codes, states and levels\<close>

definition Z_OK :: int where "Z_OK = 0"
definition Z_STREAM_END :: int where "Z_STREAM_END = 1"
definition Z_STREAM_ERROR :: int where "Z_STREAM_ERROR = -2"
definition Z_DATA_ERROR :: int where "Z_DATA_ERROR = -3"
definition Z_MEM_ERROR :: int where "Z_MEM_ERROR = -4"
definition Z_BUF_ERROR :: int where "Z_BUF_ERROR = -5"

lemmas return_codes = Z_OK_def Z_STREAM_END_def Z_STREAM_ERROR_def Z_DATA_ERROR_def Z_MEM_ERROR_def Z_BUF_ERROR_def

definition INIT_STATE :: nat where "INIT_STATE = 1"
definition BUSY_STATE :: nat where "BUSY_STATE = 2"
definition FINISH_STATE :: nat where "FINISH_STATE = 3"
definition GZIP_STATE :: nat where "GZIP_STATE = 4"
definition EXTRA_STATE :: nat where "EXTRA_STATE = 5"
definition NAME_STATE :: nat where "NAME_STATE = 6"
definition COMMENT_STATE :: nat where "COMMENT_STATE = 7"
definition HCRC_STATE :: nat where "HCRC_STATE = 8"

lemmas status_consts = INIT_STATE_def BUSY_STATE_def FINISH_STATE_def GZIP_STATE_def EXTRA_STATE_def NAME_STATE_def COMMENT_STATE_def HCRC_STATE_def

definition Z_DEFLATED :: int where "Z_DEFLATED = 8"
definition MAX_WBITS :: int where "MAX_WBITS = 15"
definition MIN_WBITS :: int where "MIN_WBITS = 8"
definition MAX_MEM_LEVEL :: int where "MAX_MEM_LEVEL = 9"
definition DEF_MEM_LEVEL :: int where "DEF_MEM_LEVEL = 8"
definition Z_DEFAULT_COMPRESSION :: int where "Z_DEFAULT_COMPRESSION = -1"

datatype compress_func = Stored_func | Quick_func | Fast_func | Medium_func | Medium_fizzle_func | Slow_func

record config =
  good_length :: nat
  max_lazy :: nat
  nice_length :: nat
  max_chain :: nat
  func :: compress_func

definition configuration_table :: "config list" where
  "configuration_table =
   [\<lparr>good_length = 0, max_lazy = 0, nice_length = 0, max_chain = 0, func = Stored_func\<rparr>,
    \<lparr>good_length = 0, max_lazy = 0, nice_length = 0, max_chain = 0, func = Quick_func\<rparr>,
    \<lparr>good_length = 4, max_lazy = 3, nice_length = 8, max_chain = 4, func = Fast_func\<rparr>,
    \<lparr>good_length = 4, max_lazy = 16, nice_length = 16, max_chain = 6, func = Medium_func\<rparr>,
    \<lparr>good_length = 4, max_lazy = 28, nice_length = 32, max_chain = 24, func = Medium_func\<rparr>,
    \<lparr>good_length = 8, max_lazy = 48, nice_length = 32, max_chain = 32, func = Medium_fizzle_func\<rparr>,
    \<lparr>good_length = 8, max_lazy = 56, nice_length = 128, max_chain = 128, func = Medium_fizzle_func\<rparr>,
    \<lparr>good_length = 8, max_lazy = 32, nice_length = 128, max_chain = 256, func = Slow_func\<rparr>,
    \<lparr>good_length = 32, max_lazy = 128, nice_length = 258, max_chain = 1024, func = Slow_func\<rparr>,
    \<lparr>good_length = 32, max_lazy = 258, nice_length = 258, max_chain = 4096, func = Slow_func\<rparr>]"

section \<open>Reset\<close>

text \<open>The two function pointers of the state are functions of the level.\<close>

definition lm_set_level :: "int \<Rightarrow> 'a deflate_state_scheme \<Rightarrow> 'a deflate_state_scheme" where
  "lm_set_level lev s =
    (let c = configuration_table ! nat lev
     in s\<lparr>level := lev, max_lazy_match := max_lazy c, good_match := good_length c, nice_match := nice_length c, max_chain_length := max_chain c\<rparr>)"

definition CLEAR_HASH :: "'a deflate_state_scheme \<Rightarrow> 'a deflate_state_scheme" where
  "CLEAR_HASH s = s\<lparr>head := replicate HASH_SIZE 0\<rparr>"

definition W_BUF_MIN :: nat where "W_BUF_MIN = 32768"

definition W_BUF_SIZE :: "nat \<Rightarrow> nat" where
  "W_BUF_SIZE wsize = max (2 * wsize) W_BUF_MIN"

definition lm_init :: "'a deflate_state_scheme \<Rightarrow> 'a deflate_state_scheme" where
  "lm_init s =
    (let s = s\<lparr>window_size := W_BUF_SIZE (w_size s), slide_len := 0, fill_end := 2 * w_size s - MIN_LOOKAHEAD\<rparr>;
         s = (if \<not> HASHLESS (level s) (strategy s) then CLEAR_HASH s else s);
         s = lm_set_level (level s) s
     in s\<lparr>strstart := 0, block_start := 0, lookahead := 0, to_insert := 0, prev_length := 0, match_available := False, match_start := 0, ins_h := 0\<rparr>)"

text \<open>The pointers of a stream are taken to be valid; what is left of the check is the range of the status.\<close>

definition deflateStateCheck :: "'a deflate_state_scheme \<Rightarrow> bool" where
  "deflateStateCheck s = (status s < INIT_STATE \<or> status s > HCRC_STATE)"

definition deflateResetKeep :: "'a deflate_state_scheme \<Rightarrow> 'a deflate_state_scheme \<times> int" where
  "deflateResetKeep s =
    (if deflateStateCheck s then (s, Z_STREAM_ERROR)
     else let s = s\<lparr>total_in := 0, total_out := 0, data_type := Z_UNKNOWN, pending_buf := [], pending_out := 0\<rparr>;
              s = (if wrap s < 0 then s\<lparr>wrap := - wrap s\<rparr> else s);
              s = s\<lparr>status := (if wrap s = 2 then GZIP_STATE else INIT_STATE), adler := (if wrap s = 2 then 0 else 1), last_flush := -2, gzhead := None\<rparr>
       in (zng_tr_init s, Z_OK))"

definition deflateReset :: "'a deflate_state_scheme \<Rightarrow> 'a deflate_state_scheme \<times> int" where
  "deflateReset s = (let (s, ret) = deflateResetKeep s in (if ret = Z_OK then lm_init s else s, ret))"

section \<open>deflateInit2\<close>

text \<open>Memory of the size asked for, with whatever content.\<close>

definition sized :: "nat \<Rightarrow> 'x :: zero list \<Rightarrow> 'x list" where
  "sized n xs = take n xs @ replicate (n - length xs) 0"

text \<open>
  FUNCTABLE_INIT, which selects the variants for the machine and can only fail when there are none, is taken to succeed: the model has the generic variants.
  The allocator hands out the state \<open>s\<close>, or fails; only the chain table is cleared. The trees are arrays inside the state, whose sizes are those of their types.
\<close>

definition sized_trees :: "'a tree_state_scheme \<Rightarrow> bool" where
  "sized_trees s \<longleftrightarrow> length (dyn_ltree s) = HEAP_SIZE \<and> length (dyn_dtree s) = 2 * D_CODES + 1 \<and> length (bl_tree s) = 2 * BL_CODES + 1"

definition alloc_deflate :: "bool \<Rightarrow> nat \<Rightarrow> nat \<Rightarrow> 'a deflate_state_scheme \<Rightarrow> 'a deflate_state_scheme option" where
  "alloc_deflate avail windowBits lit_size s =
    (if avail
     then Some (s\<lparr>window := sized (W_BUF_SIZE (2 ^ windowBits)) (window s), prev := replicate (2 ^ windowBits) 0,
       head := sized HASH_SIZE (head s), sym_buf := sized (3 * lit_size + 1) (sym_buf s)\<rparr>)
     else None)"

definition deflateInit2 :: "bool \<Rightarrow> int \<Rightarrow> int \<Rightarrow> int \<Rightarrow> int \<Rightarrow> int \<Rightarrow> 'a deflate_state_scheme \<Rightarrow> int + 'a deflate_state_scheme" where
  "deflateInit2 avail lev meth windowBits memLevel strat s =
    (let lev = (if lev = Z_DEFAULT_COMPRESSION then 6 else lev)
     in if windowBits < - MAX_WBITS then Inl Z_STREAM_ERROR
     else let (wr, windowBits) = (if windowBits < 0 then (0, - windowBits) else if windowBits > MAX_WBITS then (2, windowBits - 16) else (1, windowBits))
     in if memLevel < 1 \<or> memLevel > MAX_MEM_LEVEL \<or> meth \<noteq> Z_DEFLATED \<or> windowBits < MIN_WBITS \<or> windowBits > MAX_WBITS
          \<or> lev < 0 \<or> lev > 9 \<or> strat < 0 \<or> strat > Z_FIXED \<or> (windowBits = 8 \<and> wr \<noteq> 1)
        then Inl Z_STREAM_ERROR
     else let windowBits = (if windowBits = 8 then 9 else windowBits); lit_size = 2 ^ nat (memLevel + 6)
     in case alloc_deflate avail (nat windowBits) lit_size s of
          None \<Rightarrow> Inl Z_MEM_ERROR
        | Some s \<Rightarrow>
          let (s, ret) = deflateReset (s\<lparr>status := INIT_STATE, wrap := wr, w_size := 2 ^ nat windowBits, high_water := 0, lit_bufsize := lit_size,
                pending_buf_size := lit_size * 4, sym_end := (lit_size - 1) * 3, level := lev, strategy := strat, block_open := 0, reproducible := False\<rparr>)
          in if ret = Z_OK then Inr s else Inl ret)"

definition deflateInit :: "bool \<Rightarrow> int \<Rightarrow> 'a deflate_state_scheme \<Rightarrow> int + 'a deflate_state_scheme" where
  "deflateInit avail lev s = deflateInit2 avail lev Z_DEFLATED MAX_WBITS DEF_MEM_LEVEL 0 s"

section \<open>Accessors\<close>

text \<open>The parameters are 32-bit integers read as unsigned; nice_match is stored as it is and read as unsigned by longest_match.\<close>

definition deflateTune :: "int \<Rightarrow> int \<Rightarrow> int \<Rightarrow> int \<Rightarrow> 'a deflate_state_scheme \<Rightarrow> 'a deflate_state_scheme \<times> int" where
  "deflateTune good lazy nice chn s =
    (if deflateStateCheck s then (s, Z_STREAM_ERROR)
     else (s\<lparr>good_match := nat (good mod 2 ^ 32), max_lazy_match := nat (lazy mod 2 ^ 32), nice_match := nat (nice mod 2 ^ 32),
       max_chain_length := nat (chn mod 2 ^ 32)\<rparr>, Z_OK))"

definition deflatePending :: "'a deflate_state_scheme \<Rightarrow> int + nat \<times> int" where
  "deflatePending s = (if deflateStateCheck s then Inl Z_STREAM_ERROR else Inr (length (pending_buf s), bi_valid s))"

definition deflateUsed :: "'a deflate_state_scheme \<Rightarrow> int + int" where
  "deflateUsed s = (if deflateStateCheck s then Inl Z_STREAM_ERROR else Inr (bi_used s))"

definition deflateSetHeader :: "gz_header option \<Rightarrow> 'a deflate_state_scheme \<Rightarrow> 'a deflate_state_scheme \<times> int" where
  "deflateSetHeader hdr s = (if deflateStateCheck s \<or> wrap s \<noteq> 2 then (s, Z_STREAM_ERROR) else (s\<lparr>gzhead := hdr\<rparr>, Z_OK))"

definition deflateGetDictionary :: "'a deflate_state_scheme \<Rightarrow> int + bytes" where
  "deflateGetDictionary s =
    (if deflateStateCheck s then Inl Z_STREAM_ERROR
     else let len = strstart s + lookahead s; len = (if len > w_size s then w_size s else len)
       in Inr (take len (drop (strstart s + lookahead s - len) (window s))))"

text \<open>The memory is released; what remains is the result.\<close>

definition deflateEnd :: "'a deflate_state_scheme \<Rightarrow> int" where
  "deflateEnd s = (if deflateStateCheck s then Z_STREAM_ERROR else if status s = BUSY_STATE then Z_DATA_ERROR else Z_OK)"

section \<open>A fresh compressor\<close>

text \<open>What deflateInit2 returns when it succeeds.\<close>

definition reset_of :: "int \<Rightarrow> nat \<Rightarrow> nat \<Rightarrow> int \<Rightarrow> int \<Rightarrow> 'a deflate_state_scheme \<Rightarrow> 'a deflate_state_scheme" where
  "reset_of wr k n lev strat s = lm_init (zng_tr_init (s
     \<lparr>window := sized (W_BUF_SIZE (2 ^ k)) (window s), prev := replicate (2 ^ k) 0, head := sized HASH_SIZE (head s),
      sym_buf := sized (3 * 2 ^ n + 1) (sym_buf s), wrap := wr, w_size := 2 ^ k, high_water := 0, lit_bufsize := 2 ^ n,
      pending_buf_size := 2 ^ n * 4, sym_end := (2 ^ n - 1) * 3, level := lev, strategy := strat, block_open := 0, reproducible := False,
      total_in := 0, total_out := 0, data_type := Z_UNKNOWN, pending_buf := [], pending_out := 0, status := (if wr = 2 then GZIP_STATE else INIT_STATE),
      adler := (if wr = 2 then 0 else 1), last_flush := -2, gzhead := None\<rparr>))"

definition init_args_ok :: "int \<Rightarrow> int \<Rightarrow> int \<Rightarrow> int \<Rightarrow> int \<Rightarrow> bool" where
  "init_args_ok lev meth windowBits memLevel strat \<longleftrightarrow> -1 \<le> lev \<and> lev \<le> 9 \<and> meth = Z_DEFLATED \<and> 1 \<le> memLevel \<and> memLevel \<le> 9 \<and> 0 \<le> strat \<and> strat \<le> Z_FIXED
     \<and> windowBits \<in> {-15..-9} \<union> {8..15} \<union> {25..31}"

lemma deflateInit2_eq:
  "deflateInit2 avail lev meth wbits memLevel strat s =
    (if \<not> init_args_ok lev meth wbits memLevel strat then Inl Z_STREAM_ERROR
     else if \<not> avail then Inl Z_MEM_ERROR
     else Inr (reset_of (if wbits < 0 then 0 else if wbits > 15 then 2 else 1)
       (nat (if wbits < 0 then - wbits else if wbits > 15 then wbits - 16 else if wbits = 8 then 9 else wbits)) (nat (memLevel + 6))
       (if lev = -1 then 6 else lev) strat s))"
proof (cases "init_args_ok lev meth wbits memLevel strat")
  case False
  then show ?thesis
    by (auto simp: deflateInit2_def init_args_ok_def Z_DEFAULT_COMPRESSION_def Z_FIXED_def MAX_WBITS_def MIN_WBITS_def MAX_MEM_LEVEL_def Let_def)
next
  case True
  have *: "deflateStateCheck (x\<lparr>status := INIT_STATE, wrap := a, w_size := b, high_water := c, lit_bufsize := d, pending_buf_size := e, sym_end := f,
      level := g, strategy := h, block_open := i, reproducible := j\<rparr>) = False" for x :: "'a deflate_state_scheme" and a b c d e f g h i j
    by (simp add: deflateStateCheck_def status_consts)
  consider (raw) "-15 \<le> wbits" "wbits \<le> -9" | (zlib) "8 \<le> wbits" "wbits \<le> 15" | (gzip) "25 \<le> wbits" "wbits \<le> 31"
    using True by (auto simp: init_args_ok_def)
  then show ?thesis
  proof cases
    case raw
    then show ?thesis using True
      by (simp add: deflateInit2_def init_args_ok_def Z_DEFAULT_COMPRESSION_def Z_FIXED_def MAX_WBITS_def MIN_WBITS_def MAX_MEM_LEVEL_def
        alloc_deflate_def deflateReset_def deflateResetKeep_def * reset_of_def return_codes Let_def)
  next
    case zlib
    then show ?thesis using True
      by (simp add: deflateInit2_def init_args_ok_def Z_DEFAULT_COMPRESSION_def Z_FIXED_def MAX_WBITS_def MIN_WBITS_def MAX_MEM_LEVEL_def
        alloc_deflate_def deflateReset_def deflateResetKeep_def * reset_of_def return_codes Let_def)
  next
    case gzip
    then show ?thesis using True
      by (simp add: deflateInit2_def init_args_ok_def Z_DEFAULT_COMPRESSION_def Z_FIXED_def MAX_WBITS_def MIN_WBITS_def MAX_MEM_LEVEL_def
        alloc_deflate_def deflateReset_def deflateResetKeep_def * reset_of_def return_codes Let_def)
  qed
qed

lemma length_sized [simp]: "length (sized n xs) = n"
  by (simp add: sized_def)

lemma lm_init_fields:
  "w_size (lm_init s) = w_size s" "window (lm_init s) = window s" "prev (lm_init s) = prev s" "strstart (lm_init s) = 0" "block_start (lm_init s) = 0"
  "lookahead (lm_init s) = 0" "to_insert (lm_init s) = 0" "prev_length (lm_init s) = 0" "match_available (lm_init s) = False"
  "fill_end (lm_init s) = 2 * w_size s - MIN_LOOKAHEAD" "window_size (lm_init s) = W_BUF_SIZE (w_size s)" "level (lm_init s) = level s"
  "strategy (lm_init s) = strategy s" "head (lm_init s) = (if HASHLESS (level s) (strategy s) then head s else replicate HASH_SIZE 0)"
  "next_in (lm_init s) = next_in s" "next_out (lm_init s) = next_out s" "avail_out (lm_init s) = avail_out s" "wrap (lm_init s) = wrap s"
  "status (lm_init s) = status s" "adler (lm_init s) = adler s" "total_in (lm_init s) = total_in s" "last_flush (lm_init s) = last_flush s"
  "gzhead (lm_init s) = gzhead s" "pending_buf (lm_init s) = pending_buf s" "sym_next (lm_init s) = sym_next s" "sym_end (lm_init s) = sym_end s"
  "bi_valid (lm_init s) = bi_valid s" "bi_buf (lm_init s) = bi_buf s" "sym_buf (lm_init s) = sym_buf s" "dyn_ltree (lm_init s) = dyn_ltree s"
  "dyn_dtree (lm_init s) = dyn_dtree s" "bl_tree (lm_init s) = bl_tree s" "pending_buf_size (lm_init s) = pending_buf_size s" "block_open (lm_init s) = block_open s"
  "pending_out (lm_init s) = pending_out s"
  by (simp_all add: lm_init_def lm_set_level_def CLEAR_HASH_def Let_def)

lemma zng_tr_init_fields:
  fixes s :: "'a deflate_state_scheme"
  shows "tree_state.more (zng_tr_init s) = tree_state.more s" "level (zng_tr_init s) = level s" "strategy (zng_tr_init s) = strategy s"
    "pending_buf (zng_tr_init s) = pending_buf s" "bi_valid (zng_tr_init s) = 0" "bi_buf (zng_tr_init s) = 0" "sym_end (zng_tr_init s) = sym_end s" "sym_next (zng_tr_init s) = 0"
  by (simp_all add: zng_tr_init_def init_block_def Let_def)

lemma lm_init_trees:
  "tally_inv (lm_init s) = tally_inv s" "tallied (lm_init s) = tallied s" "bit_inv (lm_init s) = bit_inv s" "written (lm_init s) = written s"
  by (simp_all add: tally_inv_def tallied_def bit_inv_def written_def lm_init_fields)

text \<open>The invariant of a compressor that has read nothing yet, and its settings.\<close>

definition fresh :: "'a deflate_state_scheme \<Rightarrow> bool" where
  "fresh s \<longleftrightarrow> window_ok s \<and> encoder_ok s \<and> tallied s = [] \<and> bits_out s = [] \<and> strstart s = 0 \<and> lookahead s = 0 \<and> block_start s = 0
     \<and> prev_length s = 0 \<and> \<not> match_available s \<and> pending_buf s = [] \<and> bi_valid s = 0 \<and> pending_out s = 0"

lemma reset_of_fresh:
  fixes s :: "'a deflate_state_scheme"
  assumes k: "9 \<le> k" "k \<le> 15" and n: "7 \<le> n" "n \<le> 15" and t: "sized_trees s" and o: "next_out s = []"
  shows "fresh (reset_of wr k n lev strat s)"
proof -
  define x where "x = s\<lparr>window := sized (W_BUF_SIZE (2 ^ k)) (window s), prev := replicate (2 ^ k) 0, head := sized HASH_SIZE (head s),
      sym_buf := sized (3 * 2 ^ n + 1) (sym_buf s), wrap := wr, w_size := 2 ^ k, high_water := 0, lit_bufsize := 2 ^ n,
      pending_buf_size := 2 ^ n * 4, sym_end := (2 ^ n - 1) * 3, level := lev, strategy := strat, block_open := 0, reproducible := False,
      total_in := 0, total_out := 0, data_type := Z_UNKNOWN, pending_buf := [], pending_out := 0, status := (if wr = 2 then GZIP_STATE else INIT_STATE),
      adler := (if wr = 2 then 0 else 1), last_flush := -2, gzhead := None\<rparr>"
  define y where "y = zng_tr_init x"
  have r: "reset_of wr k n lev strat s = lm_init y" by (simp add: reset_of_def x_def y_def)
  have fx: "w_size x = 2 ^ k" "length (window x) = W_BUF_SIZE (2 ^ k)" "length (prev x) = 2 ^ k" "length (head x) = HASH_SIZE" "next_out x = []"
    "pending_buf x = []" "sym_end x = (2 ^ n - 1) * 3" "pending_out x = 0" "length (sym_buf x) = 3 * 2 ^ n + 1" "length (dyn_ltree x) = 2 * L_CODES + 1"
    "length (dyn_dtree x) = 2 * D_CODES + 1" "length (bl_tree x) = 2 * BL_CODES + 1"
    using t o by (simp_all add: x_def sized_trees_def HEAP_SIZE_def)
  have fy: "w_size y = w_size x" "window y = window x" "prev y = prev x" "head y = head x" "next_out y = next_out x" "pending_out y = pending_out x"
    by (simp_all add: y_def zng_tr_init_def init_block_def Let_def)
  have n1: "1 \<le> (2 :: nat) ^ n" "(2 :: nat) ^ n \<le> 2 ^ 15" using n power_increasing [of n 15 "2 :: nat"] by simp_all
  have "3 + (m - Suc 0) * 3 = 3 * m" if "1 \<le> m" for m :: nat using that by (cases m) simp_all
  then have n3: "3 + (2 ^ n - Suc 0) * 3 = 3 * (2 :: nat) ^ n" using n1(1) by blast
  let ?x = "x\<lparr>bi_buf := 0, bi_valid := 0, bi_used := 0\<rparr>"
  have ib: "tally_inv (init_block ?x)" "tallied (init_block ?x) = []" using fx n3 by (intro init_block_inv; simp)+
  then have ty: "tally_inv y" "tallied y = []" by (simp_all add: y_def zng_tr_init_def)
  have w: "(512 :: nat) \<le> 2 ^ k" "(2 :: nat) ^ k \<le> 32768" using power_increasing [of 9 k "2 :: nat"] power_increasing [of k 15 "2 :: nat"] k by simp_all
  have dv: "(2 :: nat) ^ k dvd 32768" using le_imp_power_dvd [of k 15 "2 :: nat"] k by simp
  have tab: "tables_ok (lm_init y)" using k fx fy by (auto simp: tables_ok_def lm_init_fields)
  have "hash_inv (lm_init y)"
    using tab fx by (auto simp: hash_inv_def hash_below_def lm_init_fields below_def fy x_def)
  then have "window_ok (lm_init y)"
    using tab fx w dv by (auto simp: window_ok_def lm_init_fields fy W_BUF_SIZE_def W_BUF_MIN_def match_consts)
  moreover have "encoder_ok (lm_init y)"
    using ty n1 n power_increasing [of 7 n "2 :: nat"] by (auto simp: encoder_ok_def lm_init_trees lm_init_fields y_def zng_tr_init_fields fx bit_inv_def fy(6) [unfolded y_def])
  ultimately show ?thesis
    using ty fx fy(5,6) [unfolded y_def] by (simp add: r fresh_def lm_init_fields lm_init_trees bits_out_def written_def fy y_def zng_tr_init_fields bytes_bits_def)
qed

lemma fresh_stream:
  assumes "fresh s"
  shows "stream_ok [] [] [] 0 0 s"
proof -
  have "blocks_read 0 [] [] []" by (rule blocks_read.none)
  then have "coded [] [] [] 0 0 s" using assms by (simp add: coded_def fresh_def)
  then show ?thesis using assms by (auto simp: stream_ok_def fresh_def holds_def)
qed

lemma fresh_inv:
  assumes "fresh s"
  shows "huff_inv [] [] [] 0 s" and "stream_inv [] [] [] 0 s" and "hashed s \<Longrightarrow> fast_inv [] [] [] 0 s" and "hashed s \<Longrightarrow> slow_inv [] [] [] 0 s"
  using assms fresh_stream [OF assms]
  by (simp_all add: huff_inv_def stream_inv_def fast_inv_def slow_inv_def block_small_def pending_match_def fresh_def match_consts)

lemma init_fresh:
  assumes "deflateInit2 avail lev meth wbits memLevel strat s = Inr t" and "sized_trees s" and "next_out s = []"
  shows "fresh t" and "level t = (if lev = -1 then 6 else lev)" and "strategy t = strat" and "next_in t = next_in s" and "avail_out t = avail_out s"
    and "wrap t = (if wbits < 0 then 0 else if wbits > 15 then 2 else 1)" and "status t = (if wrap t = 2 then GZIP_STATE else INIT_STATE)"
    and "adler t = (if wrap t = 2 then 0 else 1)" and "total_in t = 0" and "last_flush t = -2" and "gzhead t = None"
proof -
  let ?wr = "if wbits < 0 then 0 else if wbits > 15 then 2 else 1 :: int"
  let ?k = "nat (if wbits < 0 then - wbits else if wbits > 15 then wbits - 16 else if wbits = 8 then 9 else wbits)"
  have a: "init_args_ok lev meth wbits memLevel strat"
    and t: "t = reset_of ?wr ?k (nat (memLevel + 6)) (if lev = -1 then 6 else lev) strat s"
    using assms(1) unfolding deflateInit2_eq by (auto split: if_splits)
  have k: "9 \<le> ?k" "?k \<le> 15" and n: "7 \<le> nat (memLevel + 6)" "nat (memLevel + 6) \<le> 15" using a by (auto simp: init_args_ok_def)
  show "fresh t" unfolding t by (rule reset_of_fresh [OF k n assms(2,3)])
  show "level t = (if lev = -1 then 6 else lev)" "strategy t = strat" "next_in t = next_in s" "avail_out t = avail_out s" "wrap t = ?wr"
    "status t = (if wrap t = 2 then GZIP_STATE else INIT_STATE)" "adler t = (if wrap t = 2 then 0 else 1)" "total_in t = 0" "last_flush t = -2"
    "gzhead t = None"
    unfolding t reset_of_def by (simp_all add: lm_init_fields zng_tr_init_fields; simp add: zng_tr_init_def init_block_def Let_def)+
qed

end
