(* ===== verification/Spec2Isabelle.thy ===== *)
theory Spec2Isabelle
  imports Adler32 Crc32 Builtins Trees_Flush Compare256 Hash_Chains Match_Finder Lz77 Window_Inv Deflate_Strategies Deflate_Fast Deflate_Slow Deflate_Init
begin

text \<open>
  A model of the compressing side of zlib-ng and of its checksums, with the theorems that make them correct.

  \<^bold>\<open>The program.\<close> A compressor (deflate.c) reads input into a sliding window (fill_window), keeps hash chains of
  the strings in it (insert_string_p.h), looks for the longest earlier copy of the string at the current position (match_tpl.h, compare256),
  and tallies literals and matches into a symbol buffer (deflate_p.h). A compression function (deflate_huff, deflate_rle, deflate_fast,
  deflate_slow) decides which. When the symbol buffer is full or the stream ends, the block encoder (trees.c) writes a stored block, a block
  under the static Huffman trees or a block under trees built for it, through a 64-bit bit buffer (trees_emit.h) into the pending buffer, which
  flush_pending delivers. Along with the input a checksum is kept, Adler-32 or CRC-32 (adler32_c.c, crc32_braid_c.c).

  \<^bold>\<open>The theories.\<close> Each of them imports what it calls.
  \<^item> Zlib_Prelude: machine words, loads and stores, generic lemmas, the theorem collections. Checksum: the contract of a running checksum.
  \<^item> Adler32 (adler32.c, adler32_p.h, arch/generic/adler32_c.c), Crc32_Poly, Crc32_Tables and Crc32 (crc32.c, crc32_p.h, crc32_braid_c.c,
    crc32_braid_comb.c, crc32_braid_tbl.h and its generator utils/makecrct.c), Builtins (fallback_builtins.h).
  \<^item> Bit_Writer (put functions of deflate.h, send_bits and the flushing of the bit buffer), Trees_Codes (gen_codes, bi_reverse), Trees_Tables (trees.h,
    trees_tbl.h and their generator utils/maketrees.c), Trees_Build with Trees_Leaves, Trees_Huffman and Trees_Complete (build_tree with its radix
    sort and gen_bitlen), Trees_Emit (emission of symbols, compress_block), Trees with Trees_Blocks and Trees_Flush (the tally functions, scan_tree, send_tree,
    zng_tr_flush_block).
  \<^item> Rfc1951: a decoder on lists of bits, written from the standard, with tables of its own. Lz77: the data that a list of symbols or of blocks stands for.
  \<^item> Compare256 (compare256_c.c, compare256_rle.h), Deflate_State (internal_state), Hash_Chains (insert_string_p.h, slide_hash_c.c),
    Match_Finder (the three variants of match_tpl.h), Window with Window_Inv (fill_window, read_buf, slide_window, flush_pending), Deflate_Coder
    (the meaning of the output while the compressor runs).
  \<^item> Deflate_Strategies (the frame of the compression functions, deflate_huff, deflate_rle), Deflate_Fast, Deflate_Slow, Deflate_Init (deflateInit2,
    deflateReset and the accessors).

  \<^bold>\<open>State.\<close> The record \<open>deflate_state\<close> is internal_state together with the fields of the z_stream that it serves. It extends \<open>tree_state\<close>, the
  part that trees.c uses, which extends \<open>bit_state\<close>, the part that the bit writer uses; so each theory sees only the fields its code touches.
  A function that changes the state maps a state to a state; one that can fail, or that might not return, gives an option.

  \<^bold>\<open>Contracts.\<close> \<open>running_checksum\<close> and \<open>combinable_checksum\<close> are interpreted on \<open>adler32_c\<close> and \<open>crc32_braid\<close>; \<open>bit_sink\<close> on the two ways of
  sending bits; \<open>prefix_code\<close> on the static trees; \<open>match_compare\<close> on the three comparisons; \<open>match_finder\<close> on the three searches; \<open>compression\<close>
  on the loop bodies of the four compression functions. The last one turns what a loop body promises into termination of the
  function and into what a call delivers.

  \<^bold>\<open>What is shown.\<close> The checksums equal their mathematical definitions for every buffer and alignment, and the combination functions
  give the checksum of a concatenation. The bit writer appends bits. From any frequency table build_tree returns a complete prefix code within
  its limit and accounts for the exact cost of the block. A flushed block is read back by the decoder as the tallied symbols. A match that the search returns
  is a copy inside the window. Every call of a compression function returns, and what has been delivered decodes to what has been
  read (\<open>call_ok\<close>); from initialisation to Z_FINISH the output is a complete stream of the input.

  \<^bold>\<open>Loops.\<close> Structural recursions and recursions over a counter that the code itself carries are functions with a measure. The loops whose end depends on
  an invariant are partial functions into option, and it is proved when they return: \<open>multmodp\<close> (not on a zero first operand) and \<open>x2nmodp\<close>
  on the exponents of the combination, the loop of fill_window (the input left shrinks), and \<open>strategy_loop\<close> (input and lookahead together shrink). The walks along the hash
  chains count the chain length down. No fuel is used.

  \<^bold>\<open>Simplifications.\<close> The configuration is 64-bit little-endian, with the default BRAID parameters, GZIP, and without LIT_MEM; the generic C routines stand for the
  function table. Pointers of a stream are valid. The symbol buffer is a list of its own, where the code overlays it on the
  pending buffer. The pending buffer is the list of the bytes not yet delivered; its size is no bound, and the offset \<open>pending_out\<close> of those bytes
  is kept, since the code may append only when it is zero. Positions in the window are natural numbers, hash entries 16-bit words.

  \<^bold>\<open>Not modelled.\<close> The driver deflate with its headers and parameter changes, deflate_stored, deflate_quick and deflate_medium, the
  decompressor, the gz file layer, the vector implementations with their dispatch, Chorba CRC, the one-call wrappers and the command-line tools.
\<close>

section \<open>The compression functions\<close>

text \<open>A raw compressor with the default settings and three bytes of input.\<close>

definition demo_mem :: deflate_state where
  "demo_mem = zero_mem 512 4\<lparr>next_in := [97, 98, 97], avail_out := 100\<rparr>"

definition demo :: deflate_state where
  "demo = reset_of 0 15 14 7 0 demo_mem"

lemma demo_init: "deflateInit2 True 7 Z_DEFLATED (-15) 8 0 demo_mem = Inr demo"
  by (simp add: deflateInit2_eq init_args_ok_def Z_FIXED_def demo_def)

lemma demo_sized: "sized_trees demo_mem" "next_out demo_mem = []" "next_in demo_mem = [97, 98, 97]"
  by (simp_all add: demo_mem_def zero_mem_def sized_trees_def)

lemmas demo_fresh = init_fresh [OF demo_init demo_sized(1,2)]

lemma demo_clear: "pending_out demo = 0"
  using demo_fresh(1) by (simp add: fresh_def)

lemma demo_hashed: "hashed demo"
  using demo_fresh(2,3) by (simp add: hashed_def HASHLESS_def Z_HUFFMAN_ONLY_def Z_RLE_def)

text \<open>
  C2: A call of deflate_slow returns. It consumes a prefix of the input, and what it leaves is a state from which the stream can go on, with all data read so far in the window and in the
  output; or, after Z_FINISH, the output is a complete stream that a decoder written after RFC 1951 turns into exactly the data read. It asks for more only when the output
  is full, or when there is no input left and no flush was asked for. At the start nothing may be left of a partial delivery, which deflate has flushed before; in
  between the function never writes after one, and it leaves one only when the output is full.
\<close>

theorem deflate_slow_delivers:
  assumes "slow_inv pre H D off s" and "pending_out s = 0"
  shows "\<exists>s' b c. deflate_slow flush s = Some (s', b) \<and> consumes c s s' \<and> call_ok (slow_inv pre H) pre H flush (D @ c) s' b"
  by (rule deflate_slow_ok [OF assms])

theorem deflate_slow_delivers_witness:
  "\<exists>s' b c. deflate_slow Z_FINISH demo = Some (s', b) \<and> consumes c demo s' \<and> call_ok (slow_inv [] []) [] [] Z_FINISH ([] @ c) s' b"
  by (rule deflate_slow_delivers [OF fresh_inv(4) [OF demo_fresh(1) demo_hashed] demo_clear])

text \<open>
  C3: A call of deflate_fast returns, consumes a prefix of the input and leaves a state from which the stream can go on, or a complete stream that decodes to the data read.
\<close>

theorem deflate_fast_delivers:
  assumes "fast_inv pre H D off s" and "pending_out s = 0"
  shows "\<exists>s' b c. deflate_fast flush s = Some (s', b) \<and> consumes c s s' \<and> call_ok (fast_inv pre H) pre H flush (D @ c) s' b"
  by (rule deflate_fast_ok [OF assms])

theorem deflate_fast_delivers_witness:
  "\<exists>s' b c. deflate_fast Z_SYNC_FLUSH demo = Some (s', b) \<and> consumes c demo s' \<and> call_ok (fast_inv [] []) [] [] Z_SYNC_FLUSH ([] @ c) s' b"
  by (rule deflate_fast_delivers [OF fresh_inv(3) [OF demo_fresh(1) demo_hashed] demo_clear])

text \<open>
  C4: A call of deflate_rle returns, consumes a prefix of the input and leaves a state from which the stream can go on, or a complete stream that decodes to the data read.
\<close>

theorem deflate_rle_delivers:
  assumes "stream_inv pre H D off s" and "pending_out s = 0"
  shows "\<exists>s' b c. deflate_rle flush s = Some (s', b) \<and> consumes c s s' \<and> call_ok (stream_inv pre H) pre H flush (D @ c) s' b"
  by (rule deflate_rle_ok [OF assms])

theorem deflate_rle_delivers_witness:
  "\<exists>s' b c. deflate_rle Z_NO_FLUSH demo = Some (s', b) \<and> consumes c demo s' \<and> call_ok (stream_inv [] []) [] [] Z_NO_FLUSH ([] @ c) s' b"
  by (rule deflate_rle_delivers [OF fresh_inv(2) [OF demo_fresh(1)] demo_clear])

text \<open>
  C5: A call of deflate_huff returns, consumes a prefix of the input and leaves a state from which the stream can go on, or a complete stream that decodes to the data read.
\<close>

theorem deflate_huff_delivers:
  assumes "huff_inv pre H D off s" and "pending_out s = 0"
  shows "\<exists>s' b c. deflate_huff flush s = Some (s', b) \<and> consumes c s s' \<and> call_ok (huff_inv pre H) pre H flush (D @ c) s' b"
  by (rule deflate_huff_ok [OF assms])

theorem deflate_huff_delivers_witness:
  "\<exists>s' b c. deflate_huff Z_FINISH demo = Some (s', b) \<and> consumes c demo s' \<and> call_ok (huff_inv [] []) [] [] Z_FINISH ([] @ c) s' b"
  by (rule deflate_huff_delivers [OF fresh_inv(1) [OF demo_fresh(1)] demo_clear])

text \<open>
  C1: One call of a compression function with Z_FINISH on a fresh compressor, whatever the settings and the content of the memory: unless the output runs full, all the input is
  consumed and the output is a complete stream that decodes to it, followed by less than a byte of padding.
\<close>

theorem one_shot_decodes:
  assumes "deflateInit2 avail lev meth wbits memLevel strat s = Inr t" and "sized_trees s" and "next_out s = []"
    and "f = deflate_huff \<or> f = deflate_rle \<or> (f = deflate_fast \<or> f = deflate_slow) \<and> hashed t"
  shows "\<exists>t' b. f Z_FINISH t = Some (t', b) \<and> (b = need_more \<longrightarrow> avail_out t' = 0)
    \<and> (b \<noteq> need_more \<longrightarrow> next_in t' = [] \<and> adler t' = checked (wrap t) (adler t) (next_in s)
      \<and> (\<exists>bs pad. bits_out t' = bs @ pad \<and> length pad < 8 \<and> 8 dvd length (bits_out t')
        \<and> (\<forall>rest. rfc_inflate 0 (bs @ rest) [] = Some (next_in s, rest))))"
proof -
  note t = init_fresh [OF assms(1-3)]
  have clear: "pending_out t = 0" using t(1) by (simp add: fresh_def)
  have fin: "Z_FINISH \<noteq> Z_NO_FLUSH" by (simp add: Z_FINISH_def Z_NO_FLUSH_def)
  have "\<exists>t' b c k. f Z_FINISH t = Some (t', b) \<and> consumes c t t' \<and> call_ok k [] [] Z_FINISH c t' b"
    using assms(4) deflate_huff_ok [OF fresh_inv(1) [OF t(1)] clear, of Z_FINISH] deflate_rle_ok [OF fresh_inv(2) [OF t(1)] clear, of Z_FINISH]
      deflate_fast_ok [OF fresh_inv(3) [OF t(1)] clear, of Z_FINISH] deflate_slow_ok [OF fresh_inv(4) [OF t(1)] clear, of Z_FINISH]
    by (simp only: append_Nil) blast
  then obtain t' b c k where r: "f Z_FINISH t = Some (t', b)" "consumes c t t'" "call_ok k [] [] Z_FINISH c t' b" by blast
  have c: "next_in t' = [] \<Longrightarrow> c = next_in s \<and> adler t' = checked (wrap t) (adler t) (next_in s)" using r(2) t(4) by (simp add: consumes_def)
  have "b = need_more \<longrightarrow> avail_out t' = 0" using r(3) fin by (auto simp: call_ok_def)
  moreover have "b \<noteq> need_more \<longrightarrow> next_in t' = [] \<and> finished [] [] c t'" using r(3) by (cases b) (auto simp: call_ok_def)
  ultimately show ?thesis using r(1) c by (auto simp: finished_def)
qed

theorem one_shot_decodes_witness:
  "\<exists>t' b. deflate_slow Z_FINISH demo = Some (t', b) \<and> (b = need_more \<longrightarrow> avail_out t' = 0)
    \<and> (b \<noteq> need_more \<longrightarrow> next_in t' = [] \<and> adler t' = checked (wrap demo) (adler demo) [97, 98, 97]
      \<and> (\<exists>bs pad. bits_out t' = bs @ pad \<and> length pad < 8 \<and> 8 dvd length (bits_out t')
        \<and> (\<forall>rest. rfc_inflate 0 (bs @ rest) [] = Some ([97, 98, 97], rest))))"
  using one_shot_decodes [OF demo_init demo_sized(1,2), of deflate_slow] demo_hashed unfolding demo_sized(3) by blast

text \<open>
  C6: fill_window, called with too little lookahead, returns. It reads a prefix of the input into the window, updates the checksum, keeps the view of all data read so far, the hash tables and
  the pending match, and stops only with enough lookahead or without input.
\<close>

theorem fill_window_refills:
  assumes "window_ok s" and "lookahead s < MIN_LOOKAHEAD" and "holds D off s"
  shows "\<exists>s' c off'. fill_window s = Some s' \<and> reads D off c off' s s' \<and> strstart s' < fill_end s'
    \<and> (MIN_LOOKAHEAD \<le> lookahead s' \<or> next_in s' = [])"
  by (rule fill_window_reads [OF assms]) blast

theorem fill_window_refills_witness:
  "\<exists>s' c off'. fill_window demo = Some s' \<and> reads [] 0 c off' demo s' \<and> strstart s' < fill_end s'
    \<and> (MIN_LOOKAHEAD \<le> lookahead s' \<or> next_in s' = [])"
  using fill_window_refills [of demo "[]" 0] demo_fresh(1) fresh_stream [OF demo_fresh(1)]
  by (simp add: fresh_def stream_ok_def match_consts)

text \<open>
  C9: deflateInit2 succeeds exactly on valid arguments and with memory, and the state it returns, whatever the memory held, satisfies the invariants of the window, of the hash tables and of
  the encoder, with nothing written yet.
\<close>

theorem init_well_formed:
  assumes "sized_trees s" and "next_out s = []"
  shows "case deflateInit2 avail lev meth wbits memLevel strat s of
      Inl e \<Rightarrow> \<not> init_args_ok lev meth wbits memLevel strat \<and> e = Z_STREAM_ERROR \<or> \<not> avail \<and> e = Z_MEM_ERROR
    | Inr t \<Rightarrow> init_args_ok lev meth wbits memLevel strat \<and> avail \<and> fresh t \<and> stream_inv [] [] [] 0 t \<and> next_in t = next_in s"
proof (cases "deflateInit2 avail lev meth wbits memLevel strat s")
  case (Inl e)
  then show ?thesis unfolding deflateInit2_eq by (auto split: if_splits)
next
  case (Inr t)
  note t = init_fresh [OF Inr assms]
  have "init_args_ok lev meth wbits memLevel strat \<and> avail" using Inr unfolding deflateInit2_eq by (auto split: if_splits)
  then show ?thesis using Inr t(1,4) fresh_inv(2) [OF t(1)] by simp
qed

theorem init_well_formed_witness:
  "fresh demo \<and> stream_inv [] [] [] 0 demo \<and> next_in demo = [97, 98, 97]"
  using init_well_formed [OF demo_sized(1,2), where avail = True and lev = 7 and meth = Z_DEFLATED and wbits = "-15" and memLevel = 8 and strat = 0] unfolding demo_init demo_sized(3) by simp

end
